(* ===== verification/Xv6_Prelude.thy ===== *)
theory Xv6_Prelude
  imports Main "HOL-Library.Word"
begin

text \<open>
  Shared vocabulary of the development: the widths of the C integer types, the result type of
  kernel code that can panic, its sequencing operator, byte-addressed memory and its 64-bit
  little-endian loads and stores, page arithmetic, and the general lemmas about words and lists
  that the component theories use.
\<close>

unbundle bit_operations_syntax

named_theorems kr_simps \<open>elimination of the sequencing operator of kernel results\<close>
named_theorems page_simps \<open>page arithmetic\<close>

section \<open>C integer types\<close>

type_synonym byte = "8 word"
type_synonym u16 = "16 word"
type_synonym u32 = "32 word"
type_synonym u64 = "64 word"

text \<open>
  Conversion of a 64-bit unsigned value to a C int keeps the low 32 bits and reads them as two's
  complement (the conversion gcc documents).
\<close>

definition int_of_u64 :: "u64 \<Rightarrow> int" where
  "int_of_u64 x = sint (ucast x :: u32)"

section \<open>Kernel results\<close>

text \<open>
  A call of panic never returns; a load or store through a null pointer traps. Both end the run,
  so an operation either yields an error or a value (normally paired with the new state). Blocked is
  for code that runs to its end in one process: it would sleep on a lock another process holds.
\<close>

datatype kerr = Panic string | Fault string | Blocked string

type_synonym 'a kr = "kerr + 'a"

definition kbind :: "'e + 'a \<Rightarrow> ('a \<Rightarrow> 'e + 'b) \<Rightarrow> 'e + 'b" where
  "kbind r f = (case r of Inl e \<Rightarrow> Inl e | Inr x \<Rightarrow> f x)"

lemma kbind_Inl [simp]: "kbind (Inl e) f = Inl e"
  by (simp add: kbind_def)

lemma kbind_Inr [simp]: "kbind (Inr x) f = f x"
  by (simp add: kbind_def)

lemma kbind_eq_Inr [kr_simps]: "kbind r f = Inr y \<longleftrightarrow> (\<exists>x. r = Inr x \<and> f x = Inr y)"
  by (cases r) simp_all

lemma kbind_eq_Inl [kr_simps]:
  "kbind r f = Inl e \<longleftrightarrow> r = Inl e \<or> (\<exists>x. r = Inr x \<and> f x = Inl e)"
  by (cases r) simp_all

lemma kbind_cong [fundef_cong]:
  "r = r' \<Longrightarrow> (\<And>x. r' = Inr x \<Longrightarrow> f x = f' x) \<Longrightarrow> kbind r f = kbind r' f'"
  by (cases r') simp_all

lemma kbind_assoc: "kbind (kbind r f) g = kbind r (\<lambda>x. kbind (f x) g)"
  by (cases r) simp_all

text \<open>A counted loop whose body may stop with an error.\<close>

primrec kfold :: "('x \<Rightarrow> 's \<Rightarrow> 'e + 's) \<Rightarrow> 'x list \<Rightarrow> 's \<Rightarrow> 'e + 's" where
  "kfold f [] s = Inr s"
| "kfold f (x # xs) s = kbind (f x s) (kfold f xs)"

lemma kfold_append: "kfold f (xs @ ys) s = kbind (kfold f xs s) (kfold f ys)"
proof (induction xs arbitrary: s)
  case (Cons x xs)
  then show ?case by (cases "f x s") simp_all
qed simp

text \<open>An invariant of the loop, and that the loop cannot fail if its body cannot.\<close>

lemma kfold_inv:
  assumes "kfold f xs s = Inr s'" "P s"
    "\<And>x s s'. x \<in> set xs \<Longrightarrow> P s \<Longrightarrow> f x s = Inr s' \<Longrightarrow> P s'"
  shows "P s'"
  using assms
proof (induction xs arbitrary: s)
  case (Cons x xs)
  then obtain s1 where s1: "f x s = Inr s1" "kfold f xs s1 = Inr s'"
    by (auto simp: kr_simps)
  have "P s1" using Cons.prems s1(1) by auto
  then show ?case using Cons.IH [OF s1(2)] Cons.prems(3) by auto
qed simp

lemma kfold_total:
  assumes "P s" "\<And>x s. x \<in> set xs \<Longrightarrow> P s \<Longrightarrow> \<exists>s'. f x s = Inr s' \<and> P s'"
  shows "\<exists>s'. kfold f xs s = Inr s' \<and> P s'"
  using assms
proof (induction xs arbitrary: s)
  case (Cons x xs)
  obtain s1 where s1: "f x s = Inr s1" "P s1" using Cons.prems by (meson list.set_intros(1))
  then show ?case using Cons.IH [OF s1(2)] Cons.prems(2) by simp
qed simp

section \<open>Byte-addressed memory\<close>

type_synonym memory = "u64 \<Rightarrow> byte"

text \<open>A 64-bit load and store, little endian, as RISC-V does them.\<close>

definition get64 :: "memory \<Rightarrow> u64 \<Rightarrow> u64" where
  "get64 m a =
     ucast (m a) OR push_bit 8 (ucast (m (a + 1))) OR push_bit 16 (ucast (m (a + 2))) OR
     push_bit 24 (ucast (m (a + 3))) OR push_bit 32 (ucast (m (a + 4))) OR
     push_bit 40 (ucast (m (a + 5))) OR push_bit 48 (ucast (m (a + 6))) OR
     push_bit 56 (ucast (m (a + 7)))"

definition put64 :: "memory \<Rightarrow> u64 \<Rightarrow> u64 \<Rightarrow> memory" where
  "put64 m a v =
     m(a := ucast v, a + 1 := ucast (drop_bit 8 v), a + 2 := ucast (drop_bit 16 v),
       a + 3 := ucast (drop_bit 24 v), a + 4 := ucast (drop_bit 32 v),
       a + 5 := ucast (drop_bit 40 v), a + 6 := ucast (drop_bit 48 v),
       a + 7 := ucast (drop_bit 56 v))"

lemma bytes_of_word64:
  fixes v :: u64
  shows "ucast (ucast v :: byte) OR push_bit 8 (ucast (ucast (drop_bit 8 v) :: byte)) OR
     push_bit 16 (ucast (ucast (drop_bit 16 v) :: byte)) OR
     push_bit 24 (ucast (ucast (drop_bit 24 v) :: byte)) OR
     push_bit 32 (ucast (ucast (drop_bit 32 v) :: byte)) OR
     push_bit 40 (ucast (ucast (drop_bit 40 v) :: byte)) OR
     push_bit 48 (ucast (ucast (drop_bit 48 v) :: byte)) OR
     push_bit 56 (ucast (ucast (drop_bit 56 v) :: byte)) = v" (is "?l = v")
proof (rule bit_word_eqI)
  fix n :: nat
  assume "n < LENGTH(64)"
  then consider "n < 8" | "8 \<le> n" "n < 16" | "16 \<le> n" "n < 24" | "24 \<le> n" "n < 32" |
      "32 \<le> n" "n < 40" | "40 \<le> n" "n < 48" | "48 \<le> n" "n < 56" | "56 \<le> n" "n < 64"
    by fastforce
  then show "bit ?l n \<longleftrightarrow> bit v n"
    by cases (auto simp add: bit_or_iff bit_push_bit_iff bit_unsigned_iff bit_drop_bit_eq
        less_diff_conv2)
qed

lemma get64_put64_same [simp]: "get64 (put64 m a v) a = v"
  by (simp add: get64_def put64_def bytes_of_word64)

text \<open>The bytes a 64-bit store leaves alone.\<close>

lemma put64_other: "8 \<le> unat (x - a) \<Longrightarrow> put64 m a v x = m x"
proof -
  assume far: "8 \<le> unat (x - a)"
  have "x \<noteq> a + of_nat k" if "k < 8" for k
  proof
    assume "x = a + of_nat k"
    then have "unat (x - a) = unat (of_nat k :: u64)" by simp
    also have "\<dots> = k" using that by (simp add: unat_of_nat)
    finally show False using far that by simp
  qed
  from this [of 0] this [of 1] this [of 2] this [of 3] this [of 4] this [of 5] this [of 6]
    this [of 7]
  show ?thesis by (simp add: put64_def)
qed

lemma get64_cong:
  "(\<And>k. k < 8 \<Longrightarrow> m (a + of_nat k) = m' (a + of_nat k)) \<Longrightarrow> get64 m a = get64 m' a"
proof -
  assume eq: "\<And>k. k < 8 \<Longrightarrow> m (a + of_nat k) = m' (a + of_nat k)"
  from eq [of 0] eq [of 1] eq [of 2] eq [of 3] eq [of 4] eq [of 5] eq [of 6] eq [of 7]
  show ?thesis by (simp add: get64_def)
qed

lemma get64_put64_other:
  assumes "8 \<le> unat (a - b)" "8 \<le> unat (b - a)"
  shows "get64 (put64 m b v) a = get64 m a"
proof (rule get64_cong)
  fix k :: nat
  assume k: "k < 8"
  have "8 \<le> unat (a + of_nat k - b)"
  proof (rule ccontr)
    assume "\<not> ?thesis"
    then have small: "unat (a + of_nat k - b) < 8" by simp
    have kk: "unat (of_nat k :: u64) = k" using k by (simp add: unat_of_nat)
    define j where "j = a + of_nat k - b"
    then have ab: "a - b = j - of_nat k" "b - a = of_nat k - j" by (simp_all add: algebra_simps)
    show False
    proof (cases "of_nat k \<le> j")
      case True
      then have "unat (a - b) = unat j - k" by (simp add: ab unat_sub kk)
      then show False using assms(1) small j_def by simp
    next
      case False
      then have "unat (b - a) = k - unat j" by (simp add: ab unat_sub kk)
      then show False using assms(2) k by simp
    qed
  qed
  then show "put64 m b v (a + of_nat k) = m (a + of_nat k)" by (rule put64_other)
qed

section \<open>Pages\<close>

definition PGSIZE :: u64 where
  "PGSIZE = 4096"

definition PGROUNDDOWN :: "u64 \<Rightarrow> u64" where
  "PGROUNDDOWN a = a AND NOT (PGSIZE - 1)"

definition PGROUNDUP :: "u64 \<Rightarrow> u64" where
  "PGROUNDUP sz = (sz + PGSIZE - 1) AND NOT (PGSIZE - 1)"

lemma PGROUNDUP_eq: "PGROUNDUP a = PGROUNDDOWN (a + 4095)"
  by (simp add: PGROUNDUP_def PGROUNDDOWN_def PGSIZE_def add.commute)

lemma mask12: "(4095 :: u64) = mask 12"
  by (simp add: mask_eq_exp_minus_1)

lemma PGROUNDDOWN_bit [simp]: "bit (PGROUNDDOWN a) n \<longleftrightarrow> 12 \<le> n \<and> bit a n"
  by (cases "n < 64")
    (auto simp: PGROUNDDOWN_def PGSIZE_def mask12 bit_and_iff bit_not_iff bit_mask_iff
      dest: bit_imp_le_length)

lemma PGROUNDDOWN_split: "a = PGROUNDDOWN a + take_bit 12 a"
proof -
  have "PGROUNDDOWN a + take_bit 12 a = PGROUNDDOWN a OR take_bit 12 a"
    by (rule disjunctive_add) (auto simp: bit_take_bit_iff)
  also have "\<dots> = a"
    by (rule bit_word_eqI) (auto simp: bit_take_bit_iff bit_or_iff)
  finally show ?thesis by simp
qed

lemma unat_take_bit12: "unat (take_bit 12 a :: u64) = unat a mod 4096"
  by (simp add: take_bit_eq_mod unat_mod)

lemma unat_PGROUNDDOWN: "unat (PGROUNDDOWN a) = unat a - unat a mod 4096"
proof -
  have "PGROUNDDOWN a = a - take_bit 12 a"
    using PGROUNDDOWN_split [of a] by (metis add_diff_cancel_right')
  moreover have "take_bit 12 a \<le> a"
    by (simp add: word_le_nat_alt unat_take_bit12)
  ultimately show ?thesis
    by (simp add: unat_sub unat_take_bit12)
qed

lemma PGROUNDDOWN_add:
  assumes "p AND 4095 = 0" "j < 4096"
  shows "PGROUNDDOWN (p + j) = p"
proof -
  have jb: "\<not> bit j n" if "12 \<le> n" for n
  proof -
    have "take_bit 12 j = j"
      using assms(2) by (simp add: word_unat_eq_iff unat_take_bit12 word_less_nat_alt)
    then show ?thesis using that by (metis bit_take_bit_iff not_le)
  qed
  have pb: "12 \<le> n" if "bit p n" for n
  proof (rule ccontr)
    assume "\<not> 12 \<le> n"
    with that have "bit (p AND mask 12) n" by (simp add: bit_and_iff bit_mask_iff)
    then show False using assms(1) by (simp add: mask12 [symmetric])
  qed
  have "p + j = p OR j"
    by (rule disjunctive_add) (use jb pb in blast)
  then show ?thesis
    by (intro bit_word_eqI) (use jb pb in \<open>auto simp: bit_or_iff\<close>)
qed

lemma unat_PGROUNDUP:
  assumes "unat a + 4095 < 2 ^ 64"
  shows "unat (PGROUNDUP a) = (unat a + 4095) div 4096 * 4096"
proof -
  have "unat (a + 4095) = unat a + 4095" using assms by (simp add: unat_word_ariths)
  then show ?thesis unfolding PGROUNDUP_eq unat_PGROUNDDOWN by (simp add: minus_mod_eq_div_mult)
qed

section \<open>Byte-wise copies through a fallible store\<close>

text \<open>
  Drivers and pipes hand bytes to the user one at a time. A list of bytes stored at consecutive
  addresses, starting at offset i from addr; None as soon as one store fails.
\<close>

fun store_seq :: "(u64 \<Rightarrow> byte \<Rightarrow> 'm \<Rightarrow> 'm option) \<Rightarrow> u64 \<Rightarrow> int \<Rightarrow> byte list \<Rightarrow> 'm \<Rightarrow> 'm option" where
  "store_seq store addr i [] m = Some m"
| "store_seq store addr i (b # bs) m =
     Option.bind (store (addr + of_int i) b m) (store_seq store addr (i + 1) bs)"

lemma store_seq_append: "store_seq (\<lambda>a b m. Some (m @ [b])) addr i bs m = Some (m @ bs)"
  by (induction bs arbitrary: i m) auto

lemma store_seq_shift: "store_seq store a (i + 1) bs m = store_seq store (a + 1) i bs m"
proof (induction bs arbitrary: i m)
  case (Cons b bs)
  have "a + of_int (i + 1) = a + 1 + of_int i" by (simp add: algebra_simps)
  then show ?case using ext [of "store_seq store a (i + 1 + 1) bs" "store_seq store (a + 1) (i + 1) bs", OF Cons.IH]
    by (simp add: add.commute add.left_commute)
qed simp

end
