(* ===== verification/Xv6_String.thy ===== *)
theory Xv6_String
  imports Xv6_Prelude
begin

text \<open>
  The kernel's string.c and the string half of the user library ulib.c. The block operations
  memset, memcmp and memmove work on byte-addressed memory, since their arguments may overlap. The
  NUL-terminated string operations work on the bytes from the argument pointer to the end of the
  object it points into: a read or write past the object is None.
\<close>

section \<open>Block operations\<close>

definition memset :: "memory \<Rightarrow> u64 \<Rightarrow> u32 \<Rightarrow> u32 \<Rightarrow> memory" where
  "memset m dst c n = fold (\<lambda>i m. m(dst + of_nat i := ucast c)) [0..<unat n] m"

fun memcmp_loop :: "memory \<Rightarrow> u64 \<Rightarrow> u64 \<Rightarrow> nat \<Rightarrow> int" where
  "memcmp_loop m s1 s2 0 = 0"
| "memcmp_loop m s1 s2 (Suc n) =
     (if m s1 \<noteq> m s2 then uint (m s1) - uint (m s2)
      else memcmp_loop m (s1 + 1) (s2 + 1) n)"

definition memcmp :: "memory \<Rightarrow> u64 \<Rightarrow> u64 \<Rightarrow> u32 \<Rightarrow> int" where
  "memcmp m v1 v2 n = memcmp_loop m v1 v2 (unat n)"

fun copy_forward :: "memory \<Rightarrow> u64 \<Rightarrow> u64 \<Rightarrow> nat \<Rightarrow> memory" where
  "copy_forward m d s 0 = m"
| "copy_forward m d s (Suc n) = copy_forward (m(d := m s)) (d + 1) (s + 1) n"

fun copy_backward :: "memory \<Rightarrow> u64 \<Rightarrow> u64 \<Rightarrow> nat \<Rightarrow> memory" where
  "copy_backward m d s 0 = m"
| "copy_backward m d s (Suc n) = copy_backward (m(d - 1 := m (s - 1))) (d - 1) (s - 1) n"

definition memmove :: "memory \<Rightarrow> u64 \<Rightarrow> u64 \<Rightarrow> u32 \<Rightarrow> memory" where
  "memmove m dst src n =
     (if n = 0 then m
      else if src < dst \<and> src + ucast n > dst
      then copy_backward m (dst + ucast n) (src + ucast n) (unat n)
      else copy_forward m dst src (unat n))"

definition memcpy :: "memory \<Rightarrow> u64 \<Rightarrow> u64 \<Rightarrow> u32 \<Rightarrow> memory" where
  "memcpy m dst src n = memmove m dst src n"

text \<open>The user library's memmove chooses the direction by the order of the pointers alone.\<close>

definition umemmove :: "memory \<Rightarrow> u64 \<Rightarrow> u64 \<Rightarrow> nat \<Rightarrow> memory" where
  "umemmove m dst src n =
     (if src > dst then copy_forward m dst src n
      else copy_backward m (dst + of_nat n) (src + of_nat n) n)"

section \<open>NUL-terminated strings\<close>

fun strncmp :: "byte list \<Rightarrow> byte list \<Rightarrow> nat \<Rightarrow> int option" where
  "strncmp p q 0 = Some 0"
| "strncmp (a # p) (b # q) (Suc n) =
     (if a \<noteq> 0 \<and> a = b then strncmp p q n else Some (uint a - uint b))"
| "strncmp p q (Suc n) = None"

fun zero_fill :: "byte list \<Rightarrow> nat \<Rightarrow> byte list option" where
  "zero_fill s 0 = Some s"
| "zero_fill (x # s) (Suc n) = map_option (Cons 0) (zero_fill s n)"
| "zero_fill [] (Suc n) = None"

fun strncpy :: "byte list \<Rightarrow> byte list \<Rightarrow> nat \<Rightarrow> byte list option" where
  "strncpy s t 0 = Some s"
| "strncpy (x # s) (c # t) (Suc n) =
     map_option (Cons c) (if c \<noteq> 0 then strncpy s t n else zero_fill s n)"
| "strncpy s t (Suc n) = None"

fun store0 :: "byte list \<Rightarrow> byte list option" where
  "store0 (x # s) = Some (0 # s)"
| "store0 [] = None"

fun safestrcpy_loop :: "byte list \<Rightarrow> byte list \<Rightarrow> nat \<Rightarrow> byte list option" where
  "safestrcpy_loop s t 0 = store0 s"
| "safestrcpy_loop (x # s) (c # t) (Suc n) =
     map_option (Cons c) (if c \<noteq> 0 then safestrcpy_loop s t n else store0 s)"
| "safestrcpy_loop s t (Suc n) = None"

definition safestrcpy :: "byte list \<Rightarrow> byte list \<Rightarrow> int \<Rightarrow> byte list option" where
  "safestrcpy s t n = (if n \<le> 0 then Some s else safestrcpy_loop s t (nat (n - 1)))"

fun strlen :: "byte list \<Rightarrow> nat option" where
  "strlen (c # s) = (if c \<noteq> 0 then map_option Suc (strlen s) else Some 0)"
| "strlen [] = None"

fun strcmp :: "byte list \<Rightarrow> byte list \<Rightarrow> int option" where
  "strcmp (a # p) (b # q) = (if a \<noteq> 0 \<and> a = b then strcmp p q else Some (uint a - uint b))"
| "strcmp p q = None"

fun strcpy :: "byte list \<Rightarrow> byte list \<Rightarrow> byte list option" where
  "strcpy (x # s) (c # t) = map_option (Cons c) (if c \<noteq> 0 then strcpy s t else Some s)"
| "strcpy s t = None"

text \<open>strchr returns the suffix the result pointer starts, or None for the null pointer.\<close>

fun strchr :: "byte list \<Rightarrow> byte \<Rightarrow> byte list option" where
  "strchr (x # s) c = (if x = 0 then None else if x = c then Some (x # s) else strchr s c)"
| "strchr [] c = None"

text \<open>
  The accumulator of atoi is an int: None if n * 10 + *s exceeds it, which is undefined in C.
\<close>

fun atoi_loop :: "byte list \<Rightarrow> int \<Rightarrow> int option" where
  "atoi_loop (c # s) n =
     (if 48 \<le> c \<and> c \<le> 57 then
        if n * 10 + uint c > 2147483647 then None else atoi_loop s (n * 10 + uint c - 48)
      else Some n)"
| "atoi_loop [] n = Some n"

definition atoi :: "byte list \<Rightarrow> int option" where
  "atoi s = atoi_loop s 0"

section \<open>Facts about the block operations\<close>

lemma unat_of_nat64: "k < 2 ^ 64 \<Longrightarrow> unat (of_nat k :: u64) = k"
  by (simp add: unat_of_nat)

lemma unat_diff_of_nat:
  fixes y :: u64
  assumes "n < 2 ^ 64"
  shows "unat (y - of_nat n) = (if n \<le> unat y then unat y - n else unat y + 2 ^ 64 - n)"
  using assms by (simp add: unat_sub_if' unat_of_nat64)

lemma split_range:
  fixes x va :: u64
  assumes "n \<le> len" "len < 2 ^ 64" "\<not> unat (x - va) < n"
  shows "unat (x - (va + of_nat n)) < len - n \<longleftrightarrow> unat (x - va) < len"
    and "unat (x - (va + of_nat n)) = unat (x - va) - n"
  using unat_diff_of_nat [of n "x - va"] assms by (auto simp: diff_diff_eq)

lemma eq_add_of_nat_iff:
  fixes x d :: u64
  assumes "k < 2 ^ 64"
  shows "x = d + of_nat k \<longleftrightarrow> unat (x - d) = k"
proof
  assume "x = d + of_nat k"
  then show "unat (x - d) = k" using assms by (simp add: unat_of_nat64)
next
  assume "unat (x - d) = k"
  then have "x - d = of_nat k" by (metis of_nat_unat unsigned_of_nat take_bit_length_eq word_unat_eq_iff unat_of_nat64 assms)
  then show "x = d + of_nat k" by (simp add: algebra_simps)
qed

lemma fold_store:
  "k \<le> 2 ^ 64 \<Longrightarrow> fold (\<lambda>i m. m(d + of_nat i := c)) [0..<k] m x
     = (if unat (x - d :: u64) < k then c else m x)"
proof (induction k)
  case 0
  then show ?case by simp
next
  case (Suc k)
  then show ?case
    using eq_add_of_nat_iff [of k x d] by (auto simp: less_Suc_eq)
qed

lemma memset_apply: "memset m d c n x = (if unat (x - d) < unat n then ucast c else m x)"
proof -
  have "unat n \<le> 2 ^ 64" using unsigned_less [of n, where ?'a = nat] by simp
  then show ?thesis by (simp add: memset_def fold_store)
qed

lemma unat_minus_1_64: "w \<noteq> 0 \<Longrightarrow> unat (w - 1 :: u64) = unat w - 1"
  by (metis unat_minus_one)

lemma copy_forward_apply:
  assumes "n < 2 ^ 64" "d = s \<or> n \<le> unat (d - s)"
  shows "copy_forward m d s n x = (if unat (x - d) < n then m (s + (x - d)) else m x)"
  using assms
proof (induction n arbitrary: m d s)
  case 0
  then show ?case by simp
next
  case (Suc n)
  let ?w = "x - d"
  let ?m = "m(d := m s)"
  have w1: "x - (d + 1) = ?w - 1" "s + 1 + (?w - 1) = s + ?w" by simp_all
  have "copy_forward ?m (d + 1) (s + 1) n x =
      (if unat (x - (d + 1)) < n then ?m (s + 1 + (x - (d + 1))) else ?m x)"
    by (rule Suc.IH) (use Suc.prems in auto)
  then have IH: "copy_forward m d s (Suc n) x =
      (if unat (?w - 1) < n then ?m (s + ?w) else ?m x)"
    unfolding w1 copy_forward.simps .
  show ?case
  proof (cases "?w = 0")
    case True
    then have "\<not> unat (?w - 1) < n" using Suc.prems(1) by (simp add: unsigned_minus_1_eq_mask mask_eq_exp_minus_1)
    then show ?thesis using True IH by simp
  next
    case False
    then have "0 < unat ?w" by (metis unat_eq_zero neq0_conv)
    then have u: "unat (?w - 1) < n \<longleftrightarrow> unat ?w < Suc n"
      unfolding unat_minus_1_64 [OF False] by arith
    have "s + ?w \<noteq> d" if "unat ?w < Suc n"
    proof
      assume "s + ?w = d"
      then have "d - s = ?w" by (simp add: algebra_simps)
      then show False using Suc.prems(2) that False by auto
    qed
    then show ?thesis using False IH u by auto
  qed
qed

lemma copy_backward_apply:
  assumes "n < 2 ^ 64" "d = s \<or> n \<le> unat (s - d)"
  shows "copy_backward m (d + of_nat n) (s + of_nat n) n x =
    (if unat (x - d) < n then m (s + (x - d)) else m x)"
  using assms
proof (induction n arbitrary: m)
  case 0
  then show ?case by simp
next
  case (Suc n)
  let ?w = "x - d" and ?de = "d + of_nat n" and ?se = "s + of_nat n"
  let ?m = "m(?de := m ?se)"
  have step: "copy_backward m (d + of_nat (Suc n)) (s + of_nat (Suc n)) (Suc n) x =
      copy_backward ?m ?de ?se n x"
    by (simp add: algebra_simps)
  have IH: "copy_backward ?m ?de ?se n x =
      (if unat ?w < n then ?m (s + ?w) else ?m x)"
    by (rule Suc.IH) (use Suc.prems in auto)
  have xe: "x = ?de \<longleftrightarrow> unat ?w = n"
    by (rule eq_add_of_nat_iff) (use Suc.prems(1) in simp)
  have "s + ?w \<noteq> ?de" if "unat ?w < n"
  proof
    assume "s + ?w = ?de"
    show False
    proof (cases "d = s")
      case True
      with \<open>s + ?w = ?de\<close> have "x = ?de" by simp
      with xe that show ?thesis by simp
    next
      case False
      with Suc.prems(2) have far: "Suc n \<le> unat (s - d)" by simp
      have eq: "s - d = of_nat n - ?w" using \<open>s + ?w = ?de\<close> by (simp add: algebra_simps)
      have "unat (of_nat n - ?w) = n - unat ?w"
        using that Suc.prems(1) by (simp add: unat_sub word_le_nat_alt unat_of_nat64)
      then show ?thesis using far unfolding eq by simp
    qed
  qed
  moreover have "s + ?w = ?se" if "unat ?w = n"
    using that xe by simp
  ultimately show ?case unfolding step IH using xe by auto
qed

lemma unat_diff_wrap: "a < b \<Longrightarrow> unat (a - b :: u64) = 2 ^ 64 - (unat b - unat a)"
proof -
  assume "a < b"
  then have "\<not> unat b \<le> unat a" by (simp add: word_less_nat_alt)
  then show ?thesis
    using unsigned_less [of b, where ?'a = nat] by (simp add: unat_sub_if' word_size)
qed

lemma unat_diff_le: "b \<le> a \<Longrightarrow> unat (a - b :: u64) = unat a - unat b"
  by (simp add: unat_sub)

lemma unat_ucast_32_64 [simp]: "unat (ucast (n :: u32) :: u64) = unat n"
proof -
  have "(ucast n :: u64) = of_nat (unat n)" by simp
  moreover have "unat n < 2 ^ 64" using unsigned_less [of n, where ?'a = nat] by simp
  ultimately show ?thesis by (metis unat_of_nat64)
qed

lemma memmove_apply:
  assumes "unat src + unat n < 2 ^ 64"
  shows "memmove m dst src n x =
    (if unat (x - dst) < unat n then m (src + (x - dst)) else m x)"
proof -
  have n32: "unat n < 2 ^ 32" using unsigned_less [of n, where ?'a = nat] by simp
  have sn: "unat (src + ucast n) = unat src + unat n"
    using assms by (simp add: unat_word_ariths)
  show ?thesis
  proof (cases "src < dst \<and> src + ucast n > dst")
    case True
    then have lt: "src < dst" and "unat dst < unat src + unat n"
      by (simp_all add: word_less_nat_alt sn)
    then have "unat n \<le> unat (src - dst)"
      using n32 unsigned_less [of dst, where ?'a = nat]
      by (simp add: unat_diff_wrap)
    then have "copy_backward m (dst + of_nat (unat n)) (src + of_nat (unat n)) (unat n) x =
        (if unat (x - dst) < unat n then m (src + (x - dst)) else m x)"
      using n32 by (intro copy_backward_apply) simp_all
    moreover have "n \<noteq> 0" using True by auto
    ultimately show ?thesis using True by (simp add: memmove_def)
  next
    case False
    have "dst = src \<or> unat n \<le> unat (dst - src)"
    proof (cases rule: linorder_cases [of src dst])
      case less
      with False have "unat n \<le> unat dst - unat src" by (simp add: word_less_nat_alt sn)
      with less show ?thesis by (simp add: unat_diff_le)
    next
      case greater
      then have "unat (dst - src) = 2 ^ 64 - (unat src - unat dst)" by (rule unat_diff_wrap)
      then show ?thesis using assms by linarith
    qed simp
    then have "copy_forward m dst src (unat n) x =
        (if unat (x - dst) < unat n then m (src + (x - dst)) else m x)"
      using n32 by (intro copy_forward_apply) simp_all
    then show ?thesis using False by (auto simp: memmove_def)
  qed
qed

lemma umemmove_apply:
  assumes "unat src + n < 2 ^ 64" "unat dst + n < 2 ^ 64"
  shows "umemmove m dst src n x = (if unat (x - dst) < n then m (src + (x - dst)) else m x)"
proof (cases "src > dst")
  case True
  then have "n \<le> unat (dst - src)" using assms by (simp add: unat_diff_wrap)
  then show ?thesis
    using True assms copy_forward_apply [of n dst src m x] by (simp add: umemmove_def)
next
  case False
  then have "dst = src \<or> n \<le> unat (src - dst)"
    using assms by (cases "src = dst") (simp_all add: unat_diff_wrap)
  then show ?thesis
    using False assms copy_backward_apply [of n dst src m x] by (simp add: umemmove_def)
qed

section \<open>Facts about the string operations\<close>

text \<open>The string an object holds: its bytes up to the first NUL.\<close>

definition cstr :: "byte list \<Rightarrow> byte list" where
  "cstr s = takeWhile (\<lambda>c. c \<noteq> 0) s"

lemma cstr_simps [simp]:
  "cstr [] = []"
  "cstr (c # s) = (if c = 0 then [] else c # cstr s)"
  by (simp_all add: cstr_def)

lemma cstr_append_NUL: "0 \<notin> set xs \<Longrightarrow> cstr (xs @ 0 # ys) = xs"
  by (induction xs) auto

lemma cstr_no_NUL: "0 \<notin> set (cstr s)"
  by (induction s) auto

lemma length_cstr: "length (cstr s) \<le> length s"
  by (simp add: cstr_def length_takeWhile_le)

lemma length_cstr_less: "0 \<in> set s \<Longrightarrow> length (cstr s) < length s"
  by (induction s) auto

lemma strlen_eq: "strlen s = (if 0 \<in> set s then Some (length (cstr s)) else None)"
  by (induction s rule: strlen.induct) auto

lemma strcmp_cstr:
  "0 \<in> set p \<Longrightarrow> 0 \<in> set q \<Longrightarrow> \<exists>r. strcmp p q = Some r \<and> (r = 0 \<longleftrightarrow> cstr p = cstr q)"
  by (induction p q rule: strcmp.induct) (auto simp: word_uint_eq_iff)

definition readable :: "byte list \<Rightarrow> nat \<Rightarrow> bool" where
  "readable s n \<longleftrightarrow> 0 \<in> set s \<or> n \<le> length s"

lemma strncmp_cstr:
  "readable p n \<Longrightarrow> readable q n \<Longrightarrow>
   \<exists>r. strncmp p q n = Some r \<and> (r = 0 \<longleftrightarrow> take n (cstr p) = take n (cstr q))"
  by (induction p q n rule: strncmp.induct) (auto simp: readable_def word_uint_eq_iff)

lemma zero_fill_eq: "n \<le> length s \<Longrightarrow> zero_fill s n = Some (replicate n 0 @ drop n s)"
  by (induction s n rule: zero_fill.induct) auto

lemma strncpy_eq:
  "n \<le> length s \<Longrightarrow> readable t n \<Longrightarrow>
   strncpy s t n = Some (take n (cstr t) @ replicate (n - length (cstr t)) 0 @ drop n s)"
  by (induction s t n rule: strncpy.induct) (auto simp: readable_def zero_fill_eq)

lemma safestrcpy_loop_eq:
  "n < length s \<Longrightarrow> readable t n \<Longrightarrow>
   \<exists>s'. safestrcpy_loop s t n = Some s' \<and> length s' = length s \<and>
     cstr s' = take n (cstr t) \<and> drop (Suc n) s' = drop (Suc n) s"
proof (induction s t n rule: safestrcpy_loop.induct)
  case (1 s t)
  then show ?case by (cases s) auto
next
  case (2 x s c t n)
  show ?case
  proof (cases "c = 0")
    case True
    then show ?thesis using 2 by (cases s) auto
  next
    case False
    then have "readable t n" using 2 by (auto simp: readable_def)
    then show ?thesis using 2 False by auto
  qed
qed (auto simp: readable_def)

lemma strcpy_eq:
  "0 \<in> set t \<Longrightarrow> length (cstr t) < length s \<Longrightarrow>
   strcpy s t = Some (cstr t @ 0 # drop (Suc (length (cstr t))) s)"
  by (induction s t rule: strcpy.induct) auto

lemma strchr_eq:
  "strchr s c = (if c \<in> set (cstr s) then Some (dropWhile (\<lambda>x. x \<noteq> c) s) else None)"
  by (induction s c rule: strchr.induct) auto

section \<open>Properties\<close>

text \<open>
  C39. memmove copies correctly even when source and destination overlap: afterwards the n bytes at
  dst are the bytes that were at src before, and no other byte has changed. The kernel's memcpy is
  the same function.
\<close>

theorem memmove_correct:
  assumes "unat src + unat n < 2 ^ 64"
  shows "memmove m dst src n = (\<lambda>x. if unat (x - dst) < unat n then m (src + (x - dst)) else m x) \<and>
    memcpy m dst src n = memmove m dst src n"
  using memmove_apply [OF assms] by (auto simp: memcpy_def)

theorem memmove_correct_witness:
  "memmove ucast 0x1004 0x1000 16 =
     (\<lambda>x. if unat (x - 0x1004) < unat (16 :: u32) then ucast (0x1000 + (x - 0x1004)) else ucast x)"
  using memmove_correct [of "0x1000" 16 ucast "0x1004"] by simp

text \<open>
  strncmp agrees with comparing the first n characters of the two strings: it never reads past
  a terminator or past n, and it returns 0 exactly when the strings are equal up to n.
\<close>

theorem strncmp_correct:
  assumes "readable p n" "readable q n"
  shows "\<exists>r. strncmp p q n = Some r \<and> (r = 0 \<longleftrightarrow> take n (cstr p) = take n (cstr q))"
  by (rule strncmp_cstr [OF assms])

theorem strncmp_correct_witness:
  "\<exists>r. strncmp [47, 97, 0] [47, 98, 0] 5 = Some r \<and>
     (r = 0 \<longleftrightarrow> take 5 (cstr [47, 97, 0]) = take 5 (cstr [47, 98, 0]))"
  by (rule strncmp_correct) (simp_all add: readable_def)

text \<open>
  C40. safestrcpy always terminates the destination within its n bytes and never writes beyond them:
  the destination holds the source string cut to n - 1 characters.
\<close>

theorem safestrcpy_terminates:
  assumes "0 < n" "nat n \<le> length s" "readable t (nat (n - 1))"
  shows "\<exists>s'. safestrcpy s t n = Some s' \<and> length s' = length s \<and>
    cstr s' = take (nat (n - 1)) (cstr t) \<and> drop (nat n) s' = drop (nat n) s"
proof -
  have "nat (n - 1) < length s" "Suc (nat (n - 1)) = nat n" using assms(1,2) by auto
  then show ?thesis
    using safestrcpy_loop_eq [of "nat (n - 1)" s t] assms by (auto simp: safestrcpy_def)
qed

theorem safestrcpy_terminates_witness:
  "\<exists>s'. safestrcpy (replicate 4 7) [97, 98, 99, 100, 101, 0] 4 = Some s' \<and> length s' = 4 \<and>
     cstr s' = take 3 [97, 98, 99, 100, 101] \<and> drop 4 s' = []"
  using safestrcpy_terminates [of 4 "replicate 4 7" "[97, 98, 99, 100, 101, 0]"]
  by (simp add: readable_def)

end
