(* ===== verification/Xv6_Kalloc.thy ===== *)
theory Xv6_Kalloc
  imports Xv6_String
begin

text \<open>
  The physical page allocator, kalloc.c. The free list is kept inside the free pages themselves:
  the first eight bytes of a free page hold the address of the next one. The state is the physical
  memory, the head of the list, and the linker's symbol end. The kmem spin lock is held across each
  list operation, so an operation is one step here.
\<close>

section \<open>State and operations\<close>

definition KERNBASE :: u64 where
  "KERNBASE = 0x80000000"

definition PHYSTOP :: u64 where
  "PHYSTOP = KERNBASE + 128 * 1024 * 1024"

record kmem =
  mem :: memory
  freelist :: u64
  kend :: u64

definition kfree :: "kmem \<Rightarrow> u64 \<Rightarrow> kmem kr" where
  "kfree s pa =
     (if pa mod PGSIZE \<noteq> 0 \<or> pa < kend s \<or> pa \<ge> PHYSTOP then Inl (Panic ''kfree'')
      else let m = memset (mem s) pa 1 4096
           in Inr (s\<lparr>mem := put64 m pa (freelist s), freelist := pa\<rparr>))"

definition kalloc :: "kmem \<Rightarrow> u64 \<times> kmem" where
  "kalloc s =
     (let r = freelist s in
      if r \<noteq> 0
      then (r, s\<lparr>freelist := get64 (mem s) r, mem := memset (mem s) r 5 4096\<rparr>)
      else (0, s))"

lemma kfree_okD:
  "kfree s pa = Inr s' \<Longrightarrow> pa mod PGSIZE = 0 \<and> kend s \<le> pa \<and> pa < PHYSTOP"
  by (auto simp: kfree_def split: if_splits)

function freerange_loop :: "kmem \<Rightarrow> u64 \<Rightarrow> u64 \<Rightarrow> kmem kr" where
  "freerange_loop s p pa_end =
     (if p + PGSIZE \<le> pa_end
      then kbind (kfree s p) (\<lambda>s. freerange_loop s (p + PGSIZE) pa_end)
      else Inr s)"
  by pat_completeness auto
termination
proof (relation "measure (\<lambda>(s, p, e). unat (PHYSTOP + PGSIZE - p))", simp)
  fix s p pa_end s'
  assume "kfree s p = Inr (s' :: kmem)"
  then have "p < PHYSTOP" by (auto dest: kfree_okD)
  then have "unat p < 0x88000000" by (simp add: word_less_nat_alt PHYSTOP_def KERNBASE_def)
  then show "((s', p + PGSIZE, pa_end), s, p, pa_end)
      \<in> measure (\<lambda>(s, p, e). unat (PHYSTOP + PGSIZE - p))"
    by (simp add: PHYSTOP_def KERNBASE_def PGSIZE_def unat_sub_if' unat_word_ariths word_size)
qed

definition freerange :: "kmem \<Rightarrow> u64 \<Rightarrow> u64 \<Rightarrow> kmem kr" where
  "freerange s pa_start pa_end = freerange_loop s (PGROUNDUP pa_start) pa_end"

definition kinit :: "kmem \<Rightarrow> kmem kr" where
  "kinit s = freerange s (kend s) PHYSTOP"

section \<open>The free list as a sequence of pages\<close>

definition page_aligned :: "u64 \<Rightarrow> bool" where
  "page_aligned p \<longleftrightarrow> p mod PGSIZE = 0"

definition page_ok :: "kmem \<Rightarrow> u64 \<Rightarrow> bool" where
  "page_ok s p \<longleftrightarrow> page_aligned p \<and> kend s \<le> p \<and> p < PHYSTOP"

fun free_chain :: "memory \<Rightarrow> u64 \<Rightarrow> u64 list \<Rightarrow> bool" where
  "free_chain m h [] \<longleftrightarrow> h = 0"
| "free_chain m h (x # xs) \<longleftrightarrow> h = x \<and> free_chain m (get64 m x) xs"

definition kmem_inv :: "kmem \<Rightarrow> u64 list \<Rightarrow> bool" where
  "kmem_inv s xs \<longleftrightarrow> free_chain (mem s) (freelist s) xs \<and> distinct xs \<and>
     list_all (page_ok s) xs \<and> 0 < kend s"

definition same_on_page :: "memory \<Rightarrow> memory \<Rightarrow> u64 \<Rightarrow> bool" where
  "same_on_page m m' p \<longleftrightarrow> (\<forall>x. PGROUNDDOWN x = p \<longrightarrow> m x = m' x)"

lemma page_aligned_and: "page_aligned p \<longleftrightarrow> p AND 4095 = 0"
  by (simp add: page_aligned_def PGSIZE_def mask12 take_bit_eq_mask [symmetric] take_bit_eq_mod)

lemma page_aligned_unat: "page_aligned p \<longleftrightarrow> unat p mod 4096 = 0"
  by (simp add: page_aligned_def PGSIZE_def word_unat_eq_iff unat_mod)

lemma PGROUNDDOWN_aligned [simp]: "page_aligned p \<Longrightarrow> PGROUNDDOWN p = p"
  using PGROUNDDOWN_add [of p 0] by (simp add: page_aligned_and)

lemma page_aligned_PGROUNDDOWN [simp]: "page_aligned (PGROUNDDOWN a)"
  unfolding page_aligned_unat unat_PGROUNDDOWN by (simp add: minus_mod_eq_mult_div)

lemma in_page_iff:
  assumes "page_aligned p"
  shows "unat (x - p) < 4096 \<longleftrightarrow> PGROUNDDOWN x = p"
proof
  assume "unat (x - p) < 4096"
  then have "x - p < 4096" by (simp add: word_less_nat_alt)
  then have "PGROUNDDOWN (p + (x - p)) = p"
    using assms PGROUNDDOWN_add page_aligned_and by blast
  then show "PGROUNDDOWN x = p" by simp
next
  assume "PGROUNDDOWN x = p"
  then have "x - p = take_bit 12 x" using PGROUNDDOWN_split [of x] by (metis add_diff_cancel_left')
  then show "unat (x - p) < 4096" by (simp add: unat_take_bit12)
qed

lemma same_on_page_refl [simp]: "same_on_page m m p"
  by (simp add: same_on_page_def)

lemma same_on_page_sym: "same_on_page m m' p \<Longrightarrow> same_on_page m' m p"
  by (simp add: same_on_page_def)

lemma same_on_page_trans:
  "same_on_page m m' p \<Longrightarrow> same_on_page m' m'' p \<Longrightarrow> same_on_page m m'' p"
  by (simp add: same_on_page_def)

lemma same_on_page_memset:
  "page_aligned p \<Longrightarrow> p \<noteq> q \<Longrightarrow> same_on_page (memset m p c 4096) m q"
  by (auto simp: same_on_page_def memset_apply in_page_iff)

lemma page_slot:
  assumes "page_aligned p" "unat off \<le> 4088" "k < 8"
  shows "PGROUNDDOWN (p + off + of_nat k) = p"
proof -
  have "unat (off + of_nat k) < 4096"
    using assms by (simp add: unat_word_ariths unat_of_nat64)
  then have "unat ((p + (off + of_nat k)) - p) < 4096" by simp
  then show ?thesis using assms(1) in_page_iff by (metis add.assoc)
qed

lemma get64_same_page:
  assumes "same_on_page m m' p" "page_aligned p" "unat off \<le> 4088"
  shows "get64 m (p + off) = get64 m' (p + off)"
  by (rule get64_cong) (use assms page_slot in \<open>auto simp: same_on_page_def\<close>)

lemma same_on_page_put64:
  assumes "page_aligned p" "unat off \<le> 4088" "p \<noteq> q"
  shows "same_on_page (put64 m (p + off) v) m q"
  unfolding same_on_page_def
proof (intro allI impI)
  fix x
  assume x: "PGROUNDDOWN x = q"
  have "8 \<le> unat (x - (p + off))"
  proof (rule ccontr)
    assume "\<not> 8 \<le> unat (x - (p + off))"
    then have k: "unat (x - (p + off)) < 8" by simp
    then have "x = p + off + of_nat (unat (x - (p + off)))"
      using eq_add_of_nat_iff [of "unat (x - (p + off))" x "p + off"] by simp
    then show False using page_slot [OF assms(1,2) k] x assms(3) by metis
  qed
  then show "put64 m (p + off) v x = m x" by (rule put64_other)
qed

lemma free_chain_cong:
  "free_chain m h xs \<Longrightarrow> (\<And>x. x \<in> set xs \<Longrightarrow> get64 m x = get64 m' x) \<Longrightarrow> free_chain m' h xs"
proof (induction xs arbitrary: h)
  case (Cons x xs)
  then show ?case by (metis free_chain.simps(2) list.set_intros(1,2))
qed simp

lemma free_chain_same_pages:
  assumes "free_chain m h xs" "list_all page_aligned xs"
    "\<And>x. x \<in> set xs \<Longrightarrow> same_on_page m m' x"
  shows "free_chain m' h xs"
proof (rule free_chain_cong [OF assms(1)])
  fix x
  assume "x \<in> set xs"
  then show "get64 m x = get64 m' x"
    using assms(2,3) get64_same_page [of m m' x 0] by (simp add: list_all_iff)
qed

section \<open>Each operation on the sequence of free pages\<close>

lemma page_ok_cong: "kend s' = kend s \<Longrightarrow> page_ok s' p = page_ok s p"
  by (simp add: page_ok_def)

lemma kalloc_empty: "kmem_inv s [] \<Longrightarrow> kalloc s = (0, s)"
  by (simp add: kmem_inv_def kalloc_def)

lemma kalloc_kend [simp]: "kend (snd (kalloc s)) = kend s"
  by (simp add: kalloc_def Let_def)

lemma kalloc_cons:
  assumes "kmem_inv s (x # xs)"
  shows "\<exists>s'. kalloc s = (x, s') \<and> kmem_inv s' xs \<and> kend s' = kend s \<and>
    mem s' = memset (mem s) x 5 4096"
proof -
  let ?s = "s\<lparr>freelist := get64 (mem s) x, mem := memset (mem s) x 5 4096\<rparr>"
  from assms have x: "freelist s = x" "page_ok s x" "x \<notin> set xs" "0 < kend s"
    and xs: "free_chain (mem s) (get64 (mem s) x) xs" "distinct xs" "list_all (page_ok s) xs"
    by (auto simp: kmem_inv_def)
  then have "x \<noteq> 0" by (auto simp: page_ok_def)
  have "same_on_page (mem s) (memset (mem s) x 5 4096) y" if "y \<in> set xs" for y
    using x that by (intro same_on_page_sym [OF same_on_page_memset]) (auto simp: page_ok_def)
  moreover have "list_all page_aligned xs" using xs(3) by (auto simp: list_all_iff page_ok_def)
  ultimately have "free_chain (memset (mem s) x 5 4096) (get64 (mem s) x) xs"
    using xs(1) free_chain_same_pages by blast
  then have "kmem_inv ?s xs" using xs x by (auto simp: kmem_inv_def list_all_iff page_ok_def)
  moreover have "kalloc s = (x, ?s)" using x \<open>x \<noteq> 0\<close> by (simp add: kalloc_def)
  ultimately show ?thesis by auto
qed

lemma kfree_ok:
  assumes "kmem_inv s xs" "page_ok s pa" "pa \<notin> set xs"
  shows "\<exists>s'. kfree s pa = Inr s' \<and> kmem_inv s' (pa # xs) \<and> kend s' = kend s \<and>
    (\<forall>q. q \<noteq> pa \<longrightarrow> same_on_page (mem s') (mem s) q)"
proof -
  let ?m = "put64 (memset (mem s) pa 1 4096) pa (freelist s)"
  let ?s = "s\<lparr>mem := ?m, freelist := pa\<rparr>"
  from assms(2) have al: "page_aligned pa" by (simp add: page_ok_def)
  have same: "same_on_page ?m (mem s) q" if "q \<noteq> pa" for q
    using same_on_page_put64 [of pa 0 q] same_on_page_memset [of pa q] al that
    by (auto simp: same_on_page_def)
  have "list_all page_aligned xs" using assms(1)
    by (auto simp: kmem_inv_def list_all_iff page_ok_def)
  moreover have "same_on_page (mem s) ?m y" if "y \<in> set xs" for y
    using assms(3) that by (intro same_on_page_sym [OF same]) auto
  ultimately have "free_chain ?m (freelist s) xs"
    using assms(1) free_chain_same_pages by (auto simp: kmem_inv_def)
  then have "kmem_inv ?s (pa # xs)"
    using assms by (auto simp: kmem_inv_def list_all_iff page_ok_def)
  moreover have "kfree s pa = Inr ?s"
    using assms(2) by (auto simp: kfree_def page_ok_def page_aligned_def)
  ultimately show ?thesis using same by auto
qed

lemma kfree_bad: "\<not> page_ok s pa \<Longrightarrow> kfree s pa = Inl (Panic ''kfree'')"
  unfolding kfree_def page_ok_def page_aligned_def by (metis not_le)

lemma PHYSTOP_unat: "unat PHYSTOP = 0x88000000"
  by (simp add: PHYSTOP_def KERNBASE_def)

lemma freerange_loop_spec:
  assumes "kmem_inv s xs" "page_aligned p" "kend s \<le> p" "p \<le> PHYSTOP"
    "\<forall>x \<in> set xs. x < p" "n = (unat PHYSTOP - unat p) div 4096"
  shows "\<exists>s'. freerange_loop s p PHYSTOP = Inr s' \<and> kend s' = kend s \<and>
    kmem_inv s' (rev (map (\<lambda>k. p + of_nat k * PGSIZE) [0..<n]) @ xs)"
  using assms
proof (induction n arbitrary: s xs p)
  case 0
  then have "unat PHYSTOP < unat p + 4096" by (auto simp: PHYSTOP_unat div_eq_0_iff)
  moreover have "unat (p + PGSIZE) = unat p + 4096"
    using 0 by (simp add: PGSIZE_def unat_word_ariths word_le_nat_alt PHYSTOP_unat)
  ultimately have "\<not> p + PGSIZE \<le> PHYSTOP" by (simp add: word_le_nat_alt)
  then show ?case using 0 by (simp add: freerange_loop.simps)
next
  case (Suc n)
  then have room: "unat p + 4096 \<le> 0x88000000"
    by (simp add: PHYSTOP_unat)
  have up: "unat (p + PGSIZE) = unat p + 4096"
    using room by (simp add: PGSIZE_def unat_word_ariths)
  have le: "p + PGSIZE \<le> PHYSTOP" using room up by (simp add: word_le_nat_alt PHYSTOP_unat)
  have ok: "page_ok s p" using Suc.prems room
    by (simp add: page_ok_def word_less_nat_alt PHYSTOP_unat)
  have "p \<notin> set xs" using Suc.prems(5) by auto
  with kfree_ok [OF Suc.prems(1) ok] obtain s1 where
    s1: "kfree s p = Inr s1" "kmem_inv s1 (p # xs)" "kend s1 = kend s" by blast
  have lt: "p < p + PGSIZE" using up by (simp add: word_less_nat_alt)
  have "\<exists>s'. freerange_loop s1 (p + PGSIZE) PHYSTOP = Inr s' \<and> kend s' = kend s1 \<and>
    kmem_inv s' (rev (map (\<lambda>k. p + PGSIZE + of_nat k * PGSIZE) [0..<n]) @ p # xs)"
  proof (rule Suc.IH [OF s1(2)])
    show "page_aligned (p + PGSIZE)" using Suc.prems(2) up by (simp add: page_aligned_unat)
    show "kend s1 \<le> p + PGSIZE" using s1(3) Suc.prems(3) lt by simp
    show "\<forall>x\<in>set (p # xs). x < p + PGSIZE" using Suc.prems(5) lt by auto
    show "n = (unat PHYSTOP - unat (p + PGSIZE)) div 4096"
      using Suc.prems(6) room le_div_geq [of 4096 "unat PHYSTOP - unat p"]
      by (simp add: up PHYSTOP_unat diff_diff_left)
  qed (rule le)
  moreover have "rev (map (\<lambda>k. p + of_nat k * PGSIZE) [0..<Suc n]) @ xs =
      rev (map (\<lambda>k. p + PGSIZE + of_nat k * PGSIZE) [0..<n]) @ p # xs"
    by (simp add: upt_conv_Cons map_Suc_upt [symmetric] algebra_simps del: upt_Suc)
  moreover have "freerange_loop s p PHYSTOP = freerange_loop s1 (p + PGSIZE) PHYSTOP"
    using le s1(1) by (simp add: freerange_loop.simps [of s])
  ultimately show ?case using s1(3) by simp
qed

section \<open>The interface the rest of the kernel relies on\<close>

text \<open>
  A page allocator hands out pages from a pool. The pool is a sequence of pages related to the
  state by pool; usable tells the pages it may be given. Allocation takes a page out of the pool,
  release puts one in, and nothing else changes.
\<close>

locale page_allocator =
  fixes alloc :: "'s \<Rightarrow> u64 \<times> 's"
    and release :: "'s \<Rightarrow> u64 \<Rightarrow> 's kr"
    and pool :: "'s \<Rightarrow> u64 list \<Rightarrow> bool"
    and usable :: "'s \<Rightarrow> u64 \<Rightarrow> bool"
  assumes alloc_nil: "pool s [] \<Longrightarrow> alloc s = (0, s)"
    and alloc_cons: "pool s (x # xs) \<Longrightarrow>
      fst (alloc s) = x \<and> pool (snd (alloc s)) xs \<and> usable (snd (alloc s)) = usable s"
    and release_usable: "pool s xs \<Longrightarrow> usable s x \<Longrightarrow> x \<notin> set xs \<Longrightarrow>
      \<exists>s'. release s x = Inr s' \<and> pool s' (x # xs) \<and> usable s' = usable s"
    and pool_distinct: "pool s xs \<Longrightarrow> distinct xs"
    and pool_usable: "pool s xs \<Longrightarrow> x \<in> set xs \<Longrightarrow> usable s x \<and> x \<noteq> 0"
begin

primrec alloc_many :: "nat \<Rightarrow> 's \<Rightarrow> u64 list \<times> 's" where
  "alloc_many 0 s = ([], s)"
| "alloc_many (Suc n) s =
     (let (x, s1) = alloc s; (xs, s2) = alloc_many n s1 in (x # xs, s2))"

lemma alloc_many_take:
  "pool s xs \<Longrightarrow> n \<le> length xs \<Longrightarrow>
   fst (alloc_many n s) = take n xs \<and> pool (snd (alloc_many n s)) (drop n xs) \<and>
   usable (snd (alloc_many n s)) = usable s"
proof (induction n arbitrary: s xs)
  case 0
  then show ?case by simp
next
  case (Suc n)
  then obtain y ys where xs: "xs = y # ys" by (cases xs) auto
  obtain s1 where s1: "alloc s = (y, s1)" "pool s1 ys" "usable s1 = usable s"
    using alloc_cons [of s y ys] Suc.prems(1) xs by (cases "alloc s") auto
  then show ?case using Suc.IH [of s1 ys] Suc.prems(2) xs by (simp add: split_beta)
qed

lemma alloc_many_distinct:
  assumes "pool s xs" "n \<le> length xs"
  shows "distinct (fst (alloc_many n s)) \<and> 0 \<notin> set (fst (alloc_many n s)) \<and>
    (\<forall>x \<in> set (fst (alloc_many n s)). usable s x)"
  using alloc_many_take [OF assms] pool_distinct [OF assms(1)] pool_usable [OF assms(1)]
  by (auto dest: in_set_takeD intro: distinct_take)

lemma release_alloc:
  assumes "pool s xs" "usable s x" "x \<notin> set xs"
  shows "\<exists>s' s''. release s x = Inr s' \<and> alloc s' = (x, s'') \<and> pool s'' xs"
proof -
  from release_usable [OF assms] obtain s' where s': "release s x = Inr s'" "pool s' (x # xs)"
    by blast
  with alloc_cons [OF s'(2)] have "alloc s' = (x, snd (alloc s'))" "pool (snd (alloc s')) xs"
    by (metis prod.collapse, simp)
  with s' show ?thesis by blast
qed

end

interpretation ka: page_allocator kalloc kfree kmem_inv page_ok
proof unfold_locales
  show "kalloc s = (0, s)" if "kmem_inv s []" for s
    using that by (rule kalloc_empty)
  show "fst (kalloc s) = x \<and> kmem_inv (snd (kalloc s)) xs \<and>
      page_ok (snd (kalloc s)) = page_ok s" if "kmem_inv s (x # xs)" for s x xs
    using kalloc_cons [OF that] by (auto simp: fun_eq_iff page_ok_def)
  show "\<exists>s'. kfree s x = Inr s' \<and> kmem_inv s' (x # xs) \<and> page_ok s' = page_ok s"
    if "kmem_inv s xs" "page_ok s x" "x \<notin> set xs" for s xs x
    using kfree_ok [OF that] by (auto simp: fun_eq_iff page_ok_def)
  show "distinct xs" if "kmem_inv s xs" for s xs
    using that by (simp add: kmem_inv_def)
  show "page_ok s x \<and> x \<noteq> 0" if "kmem_inv s xs" "x \<in> set xs" for s xs x
    using that by (auto simp: kmem_inv_def list_all_iff page_ok_def)
qed

section \<open>Booting, and a small concrete state\<close>

lemma PGROUNDUP_le:
  assumes "a \<le> PHYSTOP"
  shows "a \<le> PGROUNDUP a" "PGROUNDUP a \<le> PHYSTOP" "unat (PGROUNDUP a) = (unat a + 4095) div 4096 * 4096"
proof -
  show eq: "unat (PGROUNDUP a) = (unat a + 4095) div 4096 * 4096"
    using assms by (intro unat_PGROUNDUP) (simp add: word_le_nat_alt PHYSTOP_unat)
  show "a \<le> PGROUNDUP a" unfolding word_le_nat_alt eq by linarith
  have "(unat a + 4095) div 4096 \<le> 0x88000"
    using assms by (simp add: word_le_nat_alt PHYSTOP_unat)
  then show "PGROUNDUP a \<le> PHYSTOP" unfolding word_le_nat_alt eq PHYSTOP_unat by linarith
qed

lemma kinit_pages:
  assumes "0 < kend s" "kend s \<le> PHYSTOP" "freelist s = 0"
    and n: "n = (unat PHYSTOP - unat (PGROUNDUP (kend s))) div 4096"
  shows "\<exists>s'. kinit s = Inr s' \<and> kend s' = kend s \<and>
    kmem_inv s' (rev (map (\<lambda>k. PGROUNDUP (kend s) + of_nat k * PGSIZE) [0..<n]))"
proof -
  have "kmem_inv s []" using assms by (simp add: kmem_inv_def)
  moreover have "page_aligned (PGROUNDUP (kend s))" by (simp add: PGROUNDUP_eq)
  ultimately show ?thesis
    using freerange_loop_spec [of s "[]" "PGROUNDUP (kend s)" n] PGROUNDUP_le [OF assms(2)] n
    by (simp add: kinit_def freerange_def)
qed

text \<open>Zeroed memory with the kernel's end eight pages below the top of RAM, after kinit.\<close>

definition boot_kmem :: kmem where
  "boot_kmem = \<lparr>mem = (\<lambda>_. 0), freelist = 0, kend = 0x87FF8000\<rparr>"

definition sample_kmem :: kmem where
  "sample_kmem = (case kinit boot_kmem of Inr s \<Rightarrow> s | Inl _ \<Rightarrow> boot_kmem)"

definition sample_pages :: "u64 list" where
  "sample_pages = [0x87FFF000, 0x87FFE000, 0x87FFD000, 0x87FFC000,
     0x87FFB000, 0x87FFA000, 0x87FF9000, 0x87FF8000]"

lemma sample_kmem: "kinit boot_kmem = Inr sample_kmem" "kend sample_kmem = 0x87FF8000"
  "kmem_inv sample_kmem sample_pages"
proof -
  have up: "PGROUNDUP (kend boot_kmem) = 0x87FF8000"
    by (simp add: boot_kmem_def PGROUNDUP_def PGSIZE_def)
  have "0 < kend boot_kmem" "kend boot_kmem \<le> PHYSTOP" "freelist boot_kmem = 0"
    by (simp_all add: boot_kmem_def PHYSTOP_def KERNBASE_def)
  from kinit_pages [OF this refl] obtain s where s: "kinit boot_kmem = Inr s"
    "kend s = kend boot_kmem"
    "kmem_inv s (rev (map (\<lambda>k. 0x87FF8000 + of_nat k * PGSIZE) [0..<8]))"
    unfolding up by (auto simp: PHYSTOP_unat)
  moreover have "rev (map (\<lambda>k. 0x87FF8000 + of_nat k * PGSIZE) [0..<8]) = sample_pages"
    by (simp add: sample_pages_def upt_rec PGSIZE_def)
  ultimately show "kinit boot_kmem = Inr sample_kmem" "kend sample_kmem = 0x87FF8000"
    "kmem_inv sample_kmem sample_pages"
    by (simp_all add: sample_kmem_def boot_kmem_def)
qed

section \<open>Properties\<close>

text \<open>
  C26. Booting the allocator: after kinit the free list holds every whole page between the end of the
  kernel and the top of RAM, each exactly once, and nothing else.
\<close>

theorem kinit_frees_all_memory:
  assumes "0 < kend s" "kend s \<le> PHYSTOP" "freelist s = 0"
  shows "\<exists>s' xs. kinit s = Inr s' \<and> kmem_inv s' xs \<and> distinct xs \<and>
    set xs = {p. page_aligned p \<and> kend s \<le> p \<and> p < PHYSTOP}"
proof -
  let ?b = "PGROUNDUP (kend s)"
  define n where "n = (unat PHYSTOP - unat ?b) div 4096"
  obtain s' where s': "kinit s = Inr s'" "kmem_inv s' (rev (map (\<lambda>k. ?b + of_nat k * PGSIZE) [0..<n]))"
    "kend s' = kend s"
    using kinit_pages [OF assms n_def] by blast
  let ?xs = "rev (map (\<lambda>k. ?b + of_nat k * PGSIZE) [0..<n])"
  have "p \<in> set ?xs" if p: "page_aligned p" "kend s \<le> p" "p < PHYSTOP" for p
  proof -
    define k where "k = (unat p - unat ?b) div 4096"
    obtain i j where ij: "unat p = 4096 * i" "unat ?b = 4096 * j"
      using p(1) PGROUNDUP_le(3) [OF assms(2)] by (auto simp: page_aligned_unat)
    have "unat (kend s) \<le> unat p" using p(2) by (simp add: word_le_nat_alt)
    then have b: "j \<le> i" using ij PGROUNDUP_le(3) [OF assms(2)] by auto
    then have k: "k = i - j" using ij by (simp add: k_def diff_mult_distrib2 [symmetric])
    have i: "i < 0x88000" using p(3) ij by (simp add: word_less_nat_alt PHYSTOP_unat)
    have kn: "k < n" using ij b k i by (simp add: n_def PHYSTOP_unat)
    have "unat (of_nat k :: u64) = k" using i k by (intro unat_of_nat64) simp
    moreover have "i = j + k" using k b by simp
    ultimately have "unat p = unat (?b + of_nat k * PGSIZE)"
      using ij i by (simp only: unat_word_ariths PGSIZE_def) simp
    then have "p = ?b + of_nat k * PGSIZE" by (simp add: word_unat_eq_iff)
    then show ?thesis using kn by auto
  qed
  moreover have "page_aligned p \<and> kend s \<le> p \<and> p < PHYSTOP" if "p \<in> set ?xs" for p
    using that s'(2,3) by (auto simp: kmem_inv_def list_all_iff page_ok_def)
  ultimately have "set ?xs = {p. page_aligned p \<and> kend s \<le> p \<and> p < PHYSTOP}" by blast
  moreover have "distinct ?xs" using s'(2) by (simp add: kmem_inv_def)
  ultimately show ?thesis using s' by blast
qed

theorem kinit_frees_all_memory_witness:
  "\<exists>s' xs. kinit boot_kmem = Inr s' \<and> kmem_inv s' xs \<and> distinct xs \<and>
    set xs = {p. page_aligned p \<and> 0x87FF8000 \<le> p \<and> p < PHYSTOP}"
  using kinit_frees_all_memory [of boot_kmem] by (simp add: boot_kmem_def PHYSTOP_def KERNBASE_def)

text \<open>
  C25. No double allocation: n calls of kalloc in a row return n different pages of the allocator's
  range, none of them null, as long as n pages are free; what is left on the list is what was there
  without them.
\<close>

theorem kalloc_distinct_pages:
  assumes "kmem_inv s xs" "n \<le> length xs"
  shows "distinct (fst (ka.alloc_many n s)) \<and> 0 \<notin> set (fst (ka.alloc_many n s)) \<and>
    (\<forall>x \<in> set (fst (ka.alloc_many n s)). page_ok s x) \<and> length (fst (ka.alloc_many n s)) = n \<and>
    (\<exists>ys. kmem_inv (snd (ka.alloc_many n s)) ys \<and> set ys = set xs - set (fst (ka.alloc_many n s)))"
proof -
  have "distinct xs" using assms(1) by (simp add: kmem_inv_def)
  then have "set (drop n xs) = set xs - set (take n xs)"
    by (metis append_take_drop_id distinct_append Diff_disjoint Un_Diff_cancel2 Diff_triv
      inf_commute set_append sup_bot_left Un_Diff Diff_cancel)
  then show ?thesis
    using ka.alloc_many_take [OF assms] ka.alloc_many_distinct [OF assms] assms(2) by auto
qed

theorem kalloc_distinct_pages_witness:
  "distinct (fst (ka.alloc_many 3 sample_kmem)) \<and> length (fst (ka.alloc_many 3 sample_kmem)) = 3"
  using kalloc_distinct_pages [OF sample_kmem(3), of 3] by (simp add: sample_pages_def)

text \<open>
  C34. Freeing then allocating: kfree of a page that is in use succeeds and the next kalloc returns
  that page, leaving the free list as it was before; every other page of memory is untouched.
\<close>

theorem kfree_then_kalloc:
  assumes "kmem_inv s xs" "page_ok s pa" "pa \<notin> set xs"
  shows "\<exists>s' s''. kfree s pa = Inr s' \<and> kalloc s' = (pa, s'') \<and> kmem_inv s'' xs \<and>
    (\<forall>q. q \<noteq> pa \<longrightarrow> same_on_page (mem s'') (mem s) q)"
proof -
  obtain s' where s': "kfree s pa = Inr s'" "kmem_inv s' (pa # xs)"
    "\<And>q. q \<noteq> pa \<Longrightarrow> same_on_page (mem s') (mem s) q"
    using kfree_ok [OF assms] by blast
  obtain s'' where s'': "kalloc s' = (pa, s'')" "kmem_inv s'' xs" "mem s'' = memset (mem s') pa 5 4096"
    using kalloc_cons [OF s'(2)] by blast
  have "same_on_page (mem s'') (mem s) q" if "q \<noteq> pa" for q
    using same_on_page_trans [OF same_on_page_memset s'(3)] that assms(2) s''(3)
    by (auto simp: page_ok_def)
  then show ?thesis using s' s'' by blast
qed

theorem kfree_then_kalloc_witness:
  "\<exists>s' s''. kfree boot_kmem 0x87FF9000 = Inr s' \<and> kalloc s' = (0x87FF9000, s'') \<and>
     kmem_inv s'' [] \<and> (\<forall>q. q \<noteq> 0x87FF9000 \<longrightarrow> same_on_page (mem s'') (mem boot_kmem) q)"
proof (rule kfree_then_kalloc)
  show "kmem_inv boot_kmem []" by (simp add: kmem_inv_def boot_kmem_def)
  show "page_ok boot_kmem 0x87FF9000"
    by (simp add: page_ok_def page_aligned_def PGSIZE_def boot_kmem_def PHYSTOP_def KERNBASE_def)
qed simp

text \<open>
  kfree panics exactly on an address that is not page aligned, below the end of the kernel, or
  not below the top of RAM.
\<close>

theorem kfree_panics_iff:
  "kfree s pa = Inl e \<longleftrightarrow> e = Panic ''kfree'' \<and> \<not> page_ok s pa"
  by (auto simp: kfree_def page_ok_def page_aligned_def Let_def not_less not_le)

end
