(* ===== verification/Xv6_Paging.thy ===== *)
theory Xv6_Paging
  imports Xv6_Kalloc
begin

text \<open>
  Sv39 page tables: the PTE and address-layout macros of riscv.h and memlayout.h, and walk,
  walkaddr, mappages and kvmmap of vm.c. A page table is a tree of pages in physical memory; its
  leaf entries are abstracted to a function from virtual addresses to PTEs, and each operation is
  shown to change that function as intended and nothing else.
\<close>

section \<open>PTEs and addresses\<close>

definition PTE_V :: u64 where "PTE_V = 1"

definition PTE_R :: u64 where "PTE_R = 2"

definition PTE_W :: u64 where "PTE_W = 4"

definition PTE_X :: u64 where "PTE_X = 8"

definition PTE_U :: u64 where "PTE_U = 16"

definition PA2PTE :: "u64 \<Rightarrow> u64" where
  "PA2PTE pa = push_bit 10 (drop_bit 12 pa)"

definition PTE2PA :: "u64 \<Rightarrow> u64" where
  "PTE2PA pte = push_bit 12 (drop_bit 10 pte)"

definition PTE_FLAGS :: "u64 \<Rightarrow> u64" where
  "PTE_FLAGS pte = pte AND 0x3FF"

definition PX :: "nat \<Rightarrow> u64 \<Rightarrow> u64" where
  "PX level va = drop_bit (12 + 9 * level) va AND 0x1FF"

definition MAXVA :: u64 where
  "MAXVA = push_bit (9 + 9 + 9 + 12 - 1) 1"

definition TRAMPOLINE :: u64 where "TRAMPOLINE = MAXVA - PGSIZE"

definition KSTACK :: "nat \<Rightarrow> u64" where
  "KSTACK p = TRAMPOLINE - (of_nat p + 1) * 2 * PGSIZE"

definition TRAPFRAME :: u64 where "TRAPFRAME = TRAMPOLINE - PGSIZE"

definition FRY :: u64 where "FRY = TRAPFRAME - PGSIZE"

definition SHRIMP :: u64 where "SHRIMP = FRY - PGSIZE"

definition HEAP :: u64 where "HEAP = SHRIMP - PGSIZE"

definition STACK :: u64 where "STACK = HEAP - PGSIZE"

definition GUARD_PAGE :: u64 where "GUARD_PAGE = STACK - PGSIZE"

definition DATA :: u64 where "DATA = GUARD_PAGE - PGSIZE"

definition TEXT :: u64 where "TEXT = DATA - PGSIZE"

section \<open>walk, walkaddr, mappages\<close>

text \<open>The address of entry PX(level, va) of the page-table page at pt.\<close>

definition pte_slot :: "u64 \<Rightarrow> nat \<Rightarrow> u64 \<Rightarrow> u64" where
  "pte_slot pt level va = pt + 8 * PX level va"

fun walk_from :: "nat \<Rightarrow> kmem \<Rightarrow> u64 \<Rightarrow> u64 \<Rightarrow> bool \<Rightarrow> u64 \<times> kmem" where
  "walk_from 0 s pt va alloc = (pte_slot pt 0 va, s)"
| "walk_from (Suc level) s pt va alloc =
     (let pa = pte_slot pt (Suc level) va; pte = get64 (mem s) pa in
      if pte AND PTE_V \<noteq> 0 then walk_from level s (PTE2PA pte) va alloc
      else if \<not> alloc then (0, s)
      else (case kalloc s of (np, s1) \<Rightarrow>
        if np = 0 then (0, s1)
        else let m = memset (mem s1) np 0 4096;
                 s2 = s1\<lparr>mem := put64 m pa (PA2PTE np OR PTE_V)\<rparr>
             in walk_from level s2 np va alloc))"

definition walk :: "kmem \<Rightarrow> u64 \<Rightarrow> u64 \<Rightarrow> bool \<Rightarrow> (u64 \<times> kmem) kr" where
  "walk s pt va alloc =
     (if va \<ge> MAXVA then Inl (Panic ''walk'') else Inr (walk_from 2 s pt va alloc))"

definition walkaddr :: "kmem \<Rightarrow> u64 \<Rightarrow> u64 \<Rightarrow> u64 kr" where
  "walkaddr s pt va =
     (if va \<ge> MAXVA then Inr 0
      else kbind (walk s pt va False) (\<lambda>(pte, s).
        if pte = 0 then Inr 0
        else let e = get64 (mem s) pte in
          if e AND PTE_V = 0 then Inr 0
          else if e AND PTE_U = 0 then Inr 0
          else Inr (PTE2PA e)))"

lemma walk_lt_MAXVA: "walk s pt va alloc = Inr r \<Longrightarrow> va < MAXVA"
  by (auto simp: walk_def split: if_splits)

lemma unat_MAXVA: "unat MAXVA = 2 ^ 38"
  by (simp add: MAXVA_def)

text \<open>
  A page loop steps by PGSIZE and calls walk on each address, so it stops below MAXVA at the
  latest.
\<close>

lemma page_loop_measure:
  "va < MAXVA \<Longrightarrow> unat (MAXVA - va) < unat (MAXVA + PGSIZE - va)"
  by (simp add: MAXVA_def PGSIZE_def word_less_nat_alt unat_sub_if' unat_word_ariths word_size)

function mappages_loop :: "kmem \<Rightarrow> u64 \<Rightarrow> u64 \<Rightarrow> u64 \<Rightarrow> u64 \<Rightarrow> u64 \<Rightarrow> (int \<times> kmem) kr" where
  "mappages_loop s pt a la pa perm =
     kbind (walk s pt a True) (\<lambda>(pte, s).
       if pte = 0 then Inr (-1, s)
       else if get64 (mem s) pte AND PTE_V \<noteq> 0 then Inl (Panic ''mappages: remap'')
       else let s = s\<lparr>mem := put64 (mem s) pte (PA2PTE pa OR perm OR PTE_V)\<rparr> in
         if a = la then Inr (0, s)
         else mappages_loop s pt (a + PGSIZE) la (pa + PGSIZE) perm)"
  by pat_completeness auto
termination
  by (relation "measure (\<lambda>(s, pt, a, l, pa, perm). unat (MAXVA + PGSIZE - a))")
    (auto dest!: walk_lt_MAXVA intro: page_loop_measure)

declare mappages_loop.simps [simp del]

definition mappages :: "kmem \<Rightarrow> u64 \<Rightarrow> u64 \<Rightarrow> u64 \<Rightarrow> u64 \<Rightarrow> u64 \<Rightarrow> (int \<times> kmem) kr" where
  "mappages s pt va sz pa perm =
     (if sz = 0 then Inl (Panic ''mappages: size'')
      else mappages_loop s pt (PGROUNDDOWN va) (PGROUNDDOWN (va + sz - 1)) pa perm)"

definition kvmmap :: "kmem \<Rightarrow> u64 \<Rightarrow> u64 \<Rightarrow> u64 \<Rightarrow> u64 \<Rightarrow> u64 \<Rightarrow> kmem kr" where
  "kvmmap s kpgtbl va pa sz perm =
     kbind (mappages s kpgtbl va sz pa perm) (\<lambda>(r, s).
       if r \<noteq> 0 then Inl (Panic ''kvmmap'') else Inr s)"

section \<open>Bit-level facts\<close>

lemma PX_take_bit: "PX l va = take_bit 9 (drop_bit (12 + 9 * l) va)"
  by (simp add: PX_def take_bit_eq_mask mask_eq_exp_minus_1)

lemma PX_bit: "bit (PX l va) n \<longleftrightarrow> n < 9 \<and> bit va (12 + 9 * l + n)"
  by (simp add: PX_take_bit bit_take_bit_iff bit_drop_bit_eq)

lemma PX_less: "unat (PX l va) < 512"
  by (simp add: PX_take_bit take_bit_eq_mod unat_mod)

lemma slot_off: "unat (8 * PX l va) \<le> 4088"
  using PX_less [of l va] by (simp add: unat_word_ariths)

lemma slot_off_eq: "8 * PX l va = 8 * PX l' va' \<longleftrightarrow> PX l va = PX l' va'"
proof
  assume "8 * PX l va = 8 * PX l' va'"
  then have "unat (8 * PX l va) = unat (8 * PX l' va')" by simp
  then have "8 * unat (PX l va) = 8 * unat (PX l' va')"
    using PX_less [of l va] PX_less [of l' va'] by (simp add: unat_word_ariths)
  then show "PX l va = PX l' va'" by (simp add: word_unat_eq_iff)
qed simp

lemma PTE2PA_PA2PTE:
  assumes "page_aligned pa" "f < 1024"
  shows "PTE2PA (PA2PTE pa OR f) = pa"
proof (rule bit_word_eqI)
  fix n
  assume n: "n < LENGTH(64)"
  have pab: "12 \<le> k" if "bit pa k" for k
    using that assms(1) PGROUNDDOWN_aligned PGROUNDDOWN_bit by metis
  have fb: "\<not> bit f k" if "10 \<le> k" for k
  proof -
    have "f = take_bit 10 f"
      using assms(2) by (simp add: word_unat_eq_iff take_bit_eq_mod unat_mod word_less_nat_alt)
    then show ?thesis using that by (metis bit_take_bit_iff not_le)
  qed
  show "bit (PTE2PA (PA2PTE pa OR f)) n \<longleftrightarrow> bit pa n"
    using n pab [of n] fb [of "n - 2"]
    by (auto simp: PTE2PA_def PA2PTE_def bit_push_bit_iff bit_drop_bit_eq bit_or_iff)
qed

section \<open>The tree of page-table pages\<close>

definition pt_next :: "memory \<Rightarrow> u64 \<Rightarrow> nat \<Rightarrow> u64 \<Rightarrow> u64 option" where
  "pt_next m p l va =
     (let e = get64 m (pte_slot p l va) in if e AND PTE_V \<noteq> 0 then Some (PTE2PA e) else None)"

text \<open>
  The page-table page at depth d below the root on the way to va: depth 0 is the root (level 2 of
  the code), depth 2 the page of leaf entries (level 0).
\<close>

fun pt_node :: "memory \<Rightarrow> u64 \<Rightarrow> nat \<Rightarrow> u64 \<Rightarrow> u64 option" where
  "pt_node m pt 0 va = Some pt"
| "pt_node m pt (Suc d) va = Option.bind (pt_node m pt d va) (\<lambda>p. pt_next m p (2 - d) va)"

definition pt_path :: "nat \<Rightarrow> u64 \<Rightarrow> u64 list" where
  "pt_path d va = map (\<lambda>i. PX (2 - i) va) [0..<d]"

text \<open>The leaf entry of va; 0 where a page-table page is missing.\<close>

definition pt_leaf :: "memory \<Rightarrow> u64 \<Rightarrow> u64 \<Rightarrow> u64" where
  "pt_leaf m pt va = (case pt_node m pt 2 va of None \<Rightarrow> 0 | Some p \<Rightarrow> get64 m (pte_slot p 0 va))"

text \<open>The view of a whole page table: walk refuses addresses from MAXVA on, so they have no entry.\<close>

definition ptview :: "memory \<Rightarrow> u64 \<Rightarrow> u64 \<Rightarrow> u64" where
  "ptview m pt = (\<lambda>va. if va < MAXVA then pt_leaf m pt va else 0)"

definition ptinv :: "kmem \<Rightarrow> u64 \<Rightarrow> u64 list \<Rightarrow> bool" where
  "ptinv s pt xs \<longleftrightarrow> kmem_inv s xs \<and>
     (\<forall>d \<le> 2. \<forall>va p. pt_node (mem s) pt d va = Some p \<longrightarrow> page_ok s p \<and> p \<notin> set xs) \<and>
     (\<forall>d \<le> 2. \<forall>d' \<le> 2. \<forall>va va' p. pt_node (mem s) pt d va = Some p \<longrightarrow>
        pt_node (mem s) pt d' va' = Some p \<longrightarrow> d = d' \<and> pt_path d va = pt_path d va')"

definition outside :: "memory \<Rightarrow> u64 \<Rightarrow> u64 list \<Rightarrow> u64 \<Rightarrow> bool" where
  "outside m pt xs q \<longleftrightarrow> (\<forall>d \<le> 2. \<forall>va. pt_node m pt d va \<noteq> Some q) \<and> q \<notin> set xs"

text \<open>
  What a page-table operation may do to memory: use free pages, and change page-table pages. Every
  other page keeps its content and stays outside.
\<close>

definition pt_ext :: "kmem \<Rightarrow> kmem \<Rightarrow> u64 \<Rightarrow> u64 list \<Rightarrow> u64 list \<Rightarrow> bool" where
  "pt_ext s s' pt xs xs' \<longleftrightarrow> ptinv s' pt xs' \<and> kend s' = kend s \<and> (\<exists>ys. xs = ys @ xs') \<and>
     (\<forall>q. outside (mem s) pt xs q \<longrightarrow>
        outside (mem s') pt xs' q \<and> same_on_page (mem s) (mem s') q)"

lemma pt_ext_refl: "ptinv s pt xs \<Longrightarrow> pt_ext s s pt xs xs"
  by (simp add: pt_ext_def)

lemma pt_ext_trans:
  "pt_ext s s1 pt xs xs1 \<Longrightarrow> pt_ext s1 s2 pt xs1 xs2 \<Longrightarrow> pt_ext s s2 pt xs xs2"
  unfolding pt_ext_def using same_on_page_trans by fastforce

lemma pt_extD:
  assumes "pt_ext s s' pt xs xs'"
  shows "ptinv s' pt xs'" "kend s' = kend s"
    "outside (mem s) pt xs q \<Longrightarrow> outside (mem s') pt xs' q"
    "outside (mem s) pt xs q \<Longrightarrow> same_on_page (mem s) (mem s') q"
  using assms by (auto simp: pt_ext_def)

lemma pt_path_Suc:
  "pt_path (Suc d) va = pt_path (Suc d) va' \<longleftrightarrow>
     pt_path d va = pt_path d va' \<and> PX (2 - d) va = PX (2 - d) va'"
  by (simp add: pt_path_def)

lemma pt_path_take: "e \<le> d \<Longrightarrow> pt_path d va = pt_path d va' \<Longrightarrow> pt_path e va = pt_path e va'"
  by (auto simp: pt_path_def)

lemma pt_next_cong: "PX l va = PX l va' \<Longrightarrow> pt_next m p l va = pt_next m p l va'"
  by (simp add: pt_next_def pte_slot_def)

lemma pt_node_path: "pt_path d va = pt_path d va' \<Longrightarrow> pt_node m pt d va = pt_node m pt d va'"
proof (induction d)
  case (Suc d)
  then have "pt_next m p (2 - d) va = pt_next m p (2 - d) va'" for p
    by (intro pt_next_cong) (simp add: pt_path_Suc)
  with Suc show ?case by (simp add: pt_path_Suc)
qed simp

lemma pt_node_None: "e \<le> d \<Longrightarrow> pt_node m pt e va = None \<Longrightarrow> pt_node m pt d va = None"
proof (induction d)
  case (Suc d)
  then show ?case by (cases "e = Suc d") auto
qed simp

lemma ptinvD:
  assumes "ptinv s pt xs"
  shows ptinv_kmem: "kmem_inv s xs"
    and ptinv_ok: "d \<le> 2 \<Longrightarrow> pt_node (mem s) pt d va = Some p \<Longrightarrow> page_ok s p \<and> p \<notin> set xs"
    and ptinv_inj: "d \<le> 2 \<Longrightarrow> d' \<le> 2 \<Longrightarrow> pt_node (mem s) pt d va = Some p \<Longrightarrow>
      pt_node (mem s) pt d' va' = Some p \<Longrightarrow> d = d' \<and> pt_path d va = pt_path d va'"
  using assms unfolding ptinv_def by blast+

lemma get64_slot_same_page:
  "same_on_page m m' p \<Longrightarrow> page_aligned p \<Longrightarrow> get64 m (pte_slot p l va) = get64 m' (pte_slot p l va)"
  unfolding pte_slot_def by (rule get64_same_page) (simp_all add: slot_off)

lemma pt_next_same_page:
  "same_on_page m m' p \<Longrightarrow> page_aligned p \<Longrightarrow> pt_next m p l va = pt_next m' p l va"
  by (simp add: pt_next_def get64_slot_same_page)

lemma get64_slot_put64:
  assumes "page_aligned p"
  shows "get64 (put64 m (pte_slot p l va) v) (pte_slot p l' va') =
    (if PX l' va' = PX l va then v else get64 m (pte_slot p l' va'))"
proof (cases "PX l' va' = PX l va")
  case False
  let ?i = "unat (PX l va)" and ?j = "unat (PX l' va')"
  have ij: "?i \<noteq> ?j" "?i < 512" "?j < 512"
    using False PX_less by (auto simp: word_unat_eq_iff)
  have u: "unat (8 * PX l va) = 8 * ?i" "unat (8 * PX l' va') = 8 * ?j"
    using PX_less [of l va] PX_less [of l' va'] by (simp_all add: unat_word_ariths)
  have gap: "8 \<le> unat (8 * PX l va - 8 * PX l' va') \<and> 8 \<le> unat (8 * PX l' va' - 8 * PX l va)"
    using ij unfolding unat_sub_if' u by (cases "?i < ?j") auto
  show ?thesis
    using False gap get64_put64_other [of "pte_slot p l' va'" "pte_slot p l va" m v]
    by (simp add: pte_slot_def)
qed (simp add: pte_slot_def)

lemma same_on_page_slot_put64:
  "page_aligned p \<Longrightarrow> p \<noteq> q \<Longrightarrow> same_on_page (put64 m (pte_slot p l va) v) m q"
  unfolding pte_slot_def by (rule same_on_page_put64) (simp_all add: slot_off)

lemma get64_zero_page:
  assumes "page_aligned y"
  shows "get64 (memset m y 0 4096) (pte_slot y l va) = 0"
proof -
  have "memset m y 0 4096 (pte_slot y l va + of_nat k) = 0" if "k < 8" for k
    unfolding pte_slot_def memset_apply
    using iffD2 [OF in_page_iff [OF assms] page_slot [OF assms slot_off that, of l va]]
    by (simp del: add_diff_cancel_left')
  then have "get64 (memset m y 0 4096) (pte_slot y l va) = get64 (\<lambda>_. 0) (pte_slot y l va)"
    by (intro get64_cong) simp
  then show ?thesis by (simp add: get64_def)
qed

section \<open>Linking a new page-table page\<close>

text \<open>m' is m with the zeroed page y linked from entry PX(l, va) of the page p.\<close>

definition pt_link :: "memory \<Rightarrow> memory \<Rightarrow> u64 \<Rightarrow> nat \<Rightarrow> u64 \<Rightarrow> u64 \<Rightarrow> bool" where
  "pt_link m m' p l va y \<longleftrightarrow>
     (\<forall>q. q \<noteq> y \<longrightarrow> q \<noteq> p \<longrightarrow> same_on_page m m' q) \<and>
     (\<forall>l' va'. pt_next m' p l' va' = (if PX l' va' = PX l va then Some y else pt_next m p l' va')) \<and>
     (\<forall>l' va'. get64 m' (pte_slot y l' va') = 0)"

lemma pt_link_zero: "pt_link m m' p l va y \<Longrightarrow> pt_next m' y l' va' = None"
  by (simp add: pt_link_def pt_next_def)

lemma pt_link_put64:
  assumes "page_aligned p" "page_aligned y" "p \<noteq> y"
    and "m1 = memset (memset m y 5 4096) y 0 4096"
    and v: "v AND PTE_V \<noteq> 0" "PTE2PA v = y"
  shows "pt_link m (put64 m1 (pte_slot p l va) v) p l va y"
proof -
  have m1: "same_on_page m m1 q" if "q \<noteq> y" for q
    unfolding assms(4) using that assms(2)
    by (intro same_on_page_sym [OF same_on_page_trans [OF same_on_page_memset same_on_page_memset]]) auto
  have "same_on_page m (put64 m1 (pte_slot p l va) v) q" if "q \<noteq> y" "q \<noteq> p" for q
    using same_on_page_trans [OF m1 [OF that(1)] same_on_page_sym [OF same_on_page_slot_put64]]
      assms(1) that(2) by metis
  moreover have "get64 (put64 m1 (pte_slot p l va) v) (pte_slot y l' va') = 0" for l' va'
    using get64_slot_same_page [OF same_on_page_slot_put64 [OF assms(1,3)] assms(2)]
      get64_zero_page [OF assms(2)] unfolding assms(4) by simp
  moreover have "get64 m1 (pte_slot p l' va') = get64 m (pte_slot p l' va')" for l' va'
    using get64_slot_same_page [OF m1 assms(1)] assms(3) by metis
  ultimately show ?thesis
    using assms(1) v by (simp add: pt_link_def pt_next_def get64_slot_put64 Let_def)
qed

lemma pt_link_node:
  assumes inv: "ptinv s pt (y # xs)" and d: "d \<le> 1" and p: "pt_node (mem s) pt d va = Some p"
    and link: "pt_link (mem s) m' p (2 - d) va y" and e: "e \<le> 2"
  shows "pt_node m' pt e va' =
    (if d < e \<and> pt_path (Suc d) va' = pt_path (Suc d) va then (if e = Suc d then Some y else None)
     else pt_node (mem s) pt e va')"
  using e
proof (induction e)
  case (Suc e)
  let ?m = "mem s"
  have step: "pt_next m' q (2 - e) va' = pt_next ?m q (2 - e) va'"
    if "pt_node ?m pt e va' = Some q" "q \<noteq> p" for q
  proof -
    have "page_ok s q \<and> q \<noteq> y" using ptinv_ok [OF inv _ that(1)] Suc.prems by auto
    then show ?thesis
      using link that(2) pt_next_same_page [of ?m m' q] by (auto simp: pt_link_def page_ok_def)
  qed
  have at_p: "e = d \<and> pt_path d va' = pt_path d va" if "pt_node ?m pt e va' = Some p"
    using ptinv_inj [OF inv _ _ that p] Suc.prems d by auto
  consider "e < d" | "e = d" | "d < e" by linarith
  then show ?case
  proof cases
    case 1
    then show ?thesis using Suc step at_p
      by (cases "pt_node ?m pt e va'") (auto split: if_splits)
  next
    case 2
    then have IH: "pt_node m' pt e va' = pt_node ?m pt e va'" using Suc by simp
    show ?thesis
    proof (cases "pt_node ?m pt e va' = Some p")
      case True
      then show ?thesis using 2 at_p IH link by (auto simp: pt_path_Suc pt_link_def)
    next
      case False
      then have "pt_path d va' \<noteq> pt_path d va" using p 2 pt_node_path by metis
      then show ?thesis using 2 IH step False
        by (cases "pt_node ?m pt e va'") (auto simp: pt_path_Suc)
    qed
  next
    case 3
    then show ?thesis using Suc step at_p pt_link_zero [OF link]
      by (cases "pt_node ?m pt e va'") auto
  qed
qed simp

lemma pt_link_leaf:
  assumes inv: "ptinv s pt (y # xs)" and d: "d \<le> 1" and p: "pt_node (mem s) pt d va = Some p"
    and none: "pt_next (mem s) p (2 - d) va = None"
    and link: "pt_link (mem s) m' p (2 - d) va y"
  shows "pt_leaf m' pt va' = pt_leaf (mem s) pt va'"
proof (cases "pt_path (Suc d) va' = pt_path (Suc d) va")
  case True
  have "pt_node (mem s) pt (Suc d) va = None" using p none by simp
  then have "pt_node (mem s) pt (Suc d) va' = None"
    using pt_node_path [OF True, of "mem s" pt] by (rule trans [rotated])
  then have "pt_node (mem s) pt 2 va' = None"
    using d by (simp add: pt_node_None [of "Suc d"])
  moreover have "pt_node m' pt 2 va' = (if 2 = Suc d then Some y else None)"
    using pt_link_node [OF inv d p link, of 2 va'] True d by simp
  moreover have "get64 m' (pte_slot y 0 va') = 0" using link by (simp add: pt_link_def)
  ultimately show ?thesis by (simp add: pt_leaf_def)
next
  case False
  then have same: "pt_node m' pt 2 va' = pt_node (mem s) pt 2 va'"
    using pt_link_node [OF inv d p link, of 2 va'] by simp
  show ?thesis
  proof (cases "pt_node (mem s) pt 2 va'")
    case (Some q)
    have q: "page_ok s q" "q \<noteq> y" using ptinv_ok [OF inv _ Some] by auto
    have "q \<noteq> p"
    proof
      assume "q = p"
      then show False using ptinv_inj [OF inv _ _ Some, of d va] p d by simp
    qed
    then have "same_on_page (mem s) m' q" using link q(2) by (simp add: pt_link_def)
    then show ?thesis
      using same Some q(1) get64_slot_same_page [of "mem s" m' q 0 va']
      by (simp add: pt_leaf_def page_ok_def)
  qed (simp add: same pt_leaf_def)
qed

lemma kmem_inv_frame:
  assumes "kmem_inv s xs" "freelist s' = freelist s" "kend s' = kend s"
    and "\<And>x. x \<in> set xs \<Longrightarrow> same_on_page (mem s) (mem s') x"
  shows "kmem_inv s' xs"
proof -
  have "list_all page_aligned xs" using assms(1) by (auto simp: kmem_inv_def page_ok_def list_all_iff)
  then have "free_chain (mem s') (freelist s) xs"
    using assms(1,4) free_chain_same_pages by (auto simp: kmem_inv_def)
  then show ?thesis using assms by (simp add: kmem_inv_def page_ok_def list_all_iff)
qed

lemma pt_link_ext:
  assumes inv: "ptinv s pt (y # xs)" and d: "d \<le> 1" and p: "pt_node (mem s) pt d va = Some p"
    and link: "pt_link (mem s) (mem s') p (2 - d) va y"
    and s': "kmem_inv s' xs" "kend s' = kend s"
  shows "pt_ext s s' pt (y # xs) xs"
proof -
  note node = pt_link_node [OF inv d p link]
  have y: "page_ok s y" "y \<notin> set xs" using ptinv_kmem [OF inv] by (auto simp: kmem_inv_def)
  have new: "pt_node (mem s') pt e va' = Some q \<Longrightarrow> e \<le> 2 \<Longrightarrow>
      (q = y \<and> e = Suc d \<and> pt_path e va' = pt_path e va) \<or>
      (q \<noteq> y \<and> pt_node (mem s) pt e va' = Some q)" for e va' q
    using node [of e va'] ptinv_ok [OF inv, of e va' q] by (auto split: if_splits)
  have "page_ok s' q \<and> q \<notin> set xs" if "e \<le> 2" "pt_node (mem s') pt e va' = Some q" for e va' q
    using new [OF that(2,1)] y ptinv_ok [OF inv that(1)] s'(2) by (auto simp: page_ok_def)
  moreover have "e = e' \<and> pt_path e v = pt_path e v'"
    if "e \<le> 2" "e' \<le> 2" "pt_node (mem s') pt e v = Some q" "pt_node (mem s') pt e' v' = Some q"
    for e e' v v' q
    using new [OF that(3,1)] new [OF that(4,2)] ptinv_inj [OF inv that(1,2)] by auto
  ultimately have "ptinv s' pt xs" using s'(1) unfolding ptinv_def by blast
  moreover have "outside (mem s') pt xs q \<and> same_on_page (mem s) (mem s') q"
    if "outside (mem s) pt (y # xs) q" for q
  proof
    show "outside (mem s') pt xs q"
      using that new unfolding outside_def by (metis list.set_intros(1,2))
    have "q \<noteq> p" using that p d unfolding outside_def by (metis le_trans one_le_numeral)
    moreover have "q \<noteq> y" using that by (auto simp: outside_def)
    ultimately show "same_on_page (mem s) (mem s') q" using link unfolding pt_link_def by blast
  qed
  ultimately show ?thesis using s'(2) by (auto simp: pt_ext_def)
qed

section \<open>walk\<close>

lemma walk_from_noalloc:
  assumes "d \<le> 2" "pt_node (mem s) pt d va = Some p"
  shows "walk_from (2 - d) s p va False =
    (case pt_node (mem s) pt 2 va of None \<Rightarrow> 0 | Some q \<Rightarrow> pte_slot q 0 va, s)"
  using assms
proof (induction "2 - d" arbitrary: d p)
  case 0
  then have "d = 2" by simp
  with 0 show ?case by simp
next
  case (Suc l)
  then have d: "2 - d = Suc l" "l = 2 - Suc d" "Suc d \<le> 2" by auto
  show ?case
  proof (cases "pt_next (mem s) p (Suc l) va")
    case None
    then have "pt_node (mem s) pt (Suc d) va = None" using Suc.prems d(1) by simp
    then have "pt_node (mem s) pt 2 va = None" using d(3) by (simp add: pt_node_None [of "Suc d"])
    then show ?thesis using None d(1) by (simp add: pt_next_def Let_def split: if_splits)
  next
    case (Some q)
    then have "pt_node (mem s) pt (Suc d) va = Some q" using Suc.prems d(1) by simp
    from Suc.hyps(1) [OF d(2,3) this] show ?thesis
      using Some d by (simp add: pt_next_def Let_def split: if_splits)
  qed
qed

lemma slot_nonzero: "page_ok s q \<Longrightarrow> 0 < kend s \<Longrightarrow> pte_slot q l va \<noteq> 0"
proof
  assume q: "page_ok s q" "0 < kend s" and "pte_slot q l va = 0"
  then have "unat (q + 8 * PX l va) = 0" by (simp add: pte_slot_def)
  moreover have "unat q < 2 ^ 32" "0 < unat q"
    using q by (auto simp: page_ok_def PHYSTOP_def KERNBASE_def word_less_nat_alt word_le_nat_alt)
  ultimately show False using slot_off [of l va] by (simp add: unat_word_ariths)
qed

lemma or_PTE_V: "(x OR PTE_V) AND PTE_V = PTE_V"
  by (rule bit_word_eqI) (auto simp: bit_and_iff bit_or_iff)

lemma PTE_V_nonzero: "(x OR PTE_V) AND PTE_V \<noteq> 0"
  unfolding or_PTE_V by (simp add: PTE_V_def)

text \<open>One allocating step of walk: the page at the head of the free list becomes the next node.\<close>

definition link_page :: "kmem \<Rightarrow> u64 \<Rightarrow> nat \<Rightarrow> u64 \<Rightarrow> u64 \<Rightarrow> kmem" where
  "link_page s p l va y = s\<lparr>mem := put64 (memset (mem s) y 0 4096) (pte_slot p l va) (PA2PTE y OR PTE_V)\<rparr>"

lemma walk_alloc_step:
  assumes inv: "ptinv s pt (y # ys)" and d: "d \<le> 1" and node: "pt_node (mem s) pt d va = Some p"
    and none: "pt_next (mem s) p (2 - d) va = None"
  shows "\<exists>s1. kalloc s = (y, s1) \<and> y \<noteq> 0 \<and> pt_ext s (link_page s1 p (2 - d) va y) pt (y # ys) ys \<and>
    pt_leaf (mem (link_page s1 p (2 - d) va y)) pt = pt_leaf (mem s) pt \<and>
    pt_node (mem (link_page s1 p (2 - d) va y)) pt (Suc d) va = Some y"
proof -
  obtain s1 where s1: "kalloc s = (y, s1)" "kmem_inv s1 ys" "kend s1 = kend s"
    "mem s1 = memset (mem s) y 5 4096"
    using kalloc_cons ptinv_kmem [OF inv] by blast
  let ?s2 = "link_page s1 p (2 - d) va y"
  have y: "page_ok s y" "y \<notin> set ys" "0 < kend s" "list_all (page_ok s) ys"
    using ptinv_kmem [OF inv] by (auto simp: kmem_inv_def)
  have p: "page_ok s p" "p \<noteq> y" "p \<notin> set ys" using ptinv_ok [OF inv _ node] d by auto
  have link: "pt_link (mem s) (mem ?s2) p (2 - d) va y"
    unfolding link_page_def using y(1) p s1(4) PTE_V_nonzero
    by (auto simp: page_ok_def PTE2PA_PA2PTE PTE_V_def intro!: pt_link_put64)
  have "kmem_inv ?s2 ys"
    by (rule kmem_inv_frame [OF s1(2)]) (use y p in \<open>auto simp: link_page_def page_ok_def list_all_iff
        intro!: same_on_page_sym [OF same_on_page_trans
          [OF same_on_page_slot_put64 same_on_page_memset]]\<close>)
  then have "pt_ext s ?s2 pt (y # ys) ys"
    using s1(3) by (intro pt_link_ext [OF inv d node link]) (simp_all add: link_page_def)
  moreover have "pt_node (mem ?s2) pt (Suc d) va = Some y"
    using pt_link_node [OF inv d node link, of "Suc d" va] d by simp
  moreover have "pt_leaf (mem ?s2) pt = pt_leaf (mem s) pt"
    using pt_link_leaf [OF inv d node none link] by auto
  ultimately show ?thesis using s1(1) y(1,3) by (auto simp: page_ok_def)
qed

lemma walk_from_alloc:
  assumes "ptinv s pt xs" "d \<le> 2" "pt_node (mem s) pt d va = Some p"
  shows "\<exists>a s' xs'. walk_from (2 - d) s p va True = (a, s') \<and> pt_ext s s' pt xs xs' \<and>
    pt_leaf (mem s') pt = pt_leaf (mem s) pt \<and> length xs \<le> length xs' + (2 - d) \<and>
    (if a = 0 then length xs < 2 - d
     else \<exists>q. pt_node (mem s') pt 2 va = Some q \<and> a = pte_slot q 0 va)"
  using assms
proof (induction "2 - d" arbitrary: s xs d p)
  case 0
  then have d2: "d = 2" by simp
  have "pte_slot p 0 va \<noteq> 0"
    using slot_nonzero ptinv_ok [OF 0(2,3,4)] ptinv_kmem [OF 0(2)] by (auto simp: kmem_inv_def)
  with d2 0 show ?case by (auto intro: pt_ext_refl)
next
  case (Suc l)
  then have d: "2 - d = Suc l" "l = 2 - Suc d" "Suc d \<le> 2" "d \<le> 1" by auto
  note IH = Suc.hyps(1) [OF d(2) _ d(3), folded d(2)]
  let ?e = "get64 (mem s) (pte_slot p (Suc l) va)"
  show ?case
  proof (cases "?e AND PTE_V \<noteq> 0")
    case True
    then have "pt_node (mem s) pt (Suc d) va = Some (PTE2PA ?e)"
      using Suc.prems d(1) by (simp add: pt_next_def Let_def)
    from IH [OF Suc.prems(1) this] show ?thesis using True d(1) by (fastforce split: if_splits)
  next
    case False
    then have none: "pt_next (mem s) p (2 - d) va = None" by (simp add: pt_next_def d(1))
    show ?thesis
    proof (cases xs)
      case Nil
      then show ?thesis using False d(1) kalloc_empty ptinv_kmem [OF Suc.prems(1)]
          pt_ext_refl [OF Suc.prems(1)] by (auto simp: Let_def)
    next
      case (Cons y ys)
      from walk_alloc_step [OF Suc.prems(1) [unfolded Cons] d(4) Suc.prems(3) none] d(1)
      obtain s1 s2 where s1: "kalloc s = (y, s1)" "y \<noteq> 0" "s2 = link_page s1 p (Suc l) va y"
        and ext: "pt_ext s s2 pt xs ys" and view: "pt_leaf (mem s2) pt = pt_leaf (mem s) pt"
        and node: "pt_node (mem s2) pt (Suc d) va = Some y" unfolding Cons by auto
      from IH [OF pt_extD(1) [OF ext] node] obtain a s' xs' where r:
        "walk_from l s2 y va True = (a, s')" "pt_ext s2 s' pt ys xs'"
        "pt_leaf (mem s') pt = pt_leaf (mem s2) pt" "length ys \<le> length xs' + l"
        "if a = 0 then length ys < l
         else \<exists>q. pt_node (mem s') pt 2 va = Some q \<and> a = pte_slot q 0 va" by blast
      have "walk_from (2 - d) s p va True = (a, s')"
        using False r(1) s1 d(1) by (simp add: link_page_def Let_def)
      then show ?thesis using r(3,4,5) view pt_ext_trans [OF ext r(2)] Cons d(1)
        by (intro exI [of _ a] exI [of _ s'] exI [of _ xs']) (auto split: if_splits)
    qed
  qed
qed

section \<open>Writing a leaf entry\<close>

lemma lt_MAXVA_bit: "va < MAXVA \<Longrightarrow> bit va n \<Longrightarrow> n < 38"
proof (rule ccontr)
  assume va: "va < MAXVA" "bit va n" "\<not> n < 38"
  then have "va = take_bit 38 va"
    by (simp add: word_unat_eq_iff take_bit_eq_mod unat_mod word_less_nat_alt unat_MAXVA)
  with va show False by (metis bit_take_bit_iff)
qed

lemma same_page_MAXVA: "PGROUNDDOWN va = PGROUNDDOWN va' \<Longrightarrow> va < MAXVA \<longleftrightarrow> va' < MAXVA"
proof -
  assume "PGROUNDDOWN va = PGROUNDDOWN va'"
  then have "unat va - unat va mod 4096 = unat va' - unat va' mod 4096"
    by (metis unat_PGROUNDDOWN)
  then have "unat va div 4096 = unat va' div 4096" by (simp add: minus_mod_eq_div_mult)
  moreover have "x < 2 ^ 38 \<longleftrightarrow> x div 4096 < 2 ^ 26" for x :: nat
    by (simp add: less_mult_imp_div_less div_less_iff_less_mult)
  ultimately show ?thesis unfolding word_less_nat_alt unat_MAXVA by metis
qed

lemma pt_path_page:
  assumes "va < MAXVA" "va' < MAXVA"
  shows "pt_path 3 va = pt_path 3 va' \<longleftrightarrow> PGROUNDDOWN va = PGROUNDDOWN va'"
proof -
  have eq: "pt_path 3 va = pt_path 3 va' \<longleftrightarrow> (\<forall>l < 3. PX l va = PX l va')"
    by (auto simp: pt_path_def upt_rec less_Suc_eq numeral_3_eq_3 numeral_2_eq_2)
  show ?thesis unfolding eq
  proof
    assume px: "\<forall>l < 3. PX l va = PX l va'"
    have "bit va n = bit va' n" if "12 \<le> n" "n < 38" for n
    proof -
      have l: "(n - 12) div 9 < 3" "(n - 12) mod 9 < 9" "12 + 9 * ((n - 12) div 9) + (n - 12) mod 9 = n"
        using that by auto
      then show ?thesis
        using px PX_bit [of "(n - 12) div 9" va "(n - 12) mod 9"]
          PX_bit [of "(n - 12) div 9" va' "(n - 12) mod 9"] by auto
    qed
    then have "bit va n = bit va' n" if "12 \<le> n" for n
      using that assms lt_MAXVA_bit by blast
    then show "PGROUNDDOWN va = PGROUNDDOWN va'" by (intro bit_word_eqI) auto
  next
    assume pg: "PGROUNDDOWN va = PGROUNDDOWN va'"
    have "bit va n = bit va' n" if "12 \<le> n" for n
      using pg that by (metis PGROUNDDOWN_bit)
    then show "\<forall>l < 3. PX l va = PX l va'" by (auto intro!: bit_word_eqI simp: PX_bit)
  qed
qed

lemma ptinv_cong:
  assumes inv: "ptinv s pt xs" and "kmem_inv s' xs" "kend s' = kend s"
    and node: "\<And>e va. e \<le> 2 \<Longrightarrow> pt_node (mem s') pt e va = pt_node (mem s) pt e va"
  shows "ptinv s' pt xs"
  unfolding ptinv_def
proof (intro conjI allI impI)
  fix d d' va va' p
  assume d: "d \<le> (2::nat)" and p: "pt_node (mem s') pt d va = Some p"
  then show "page_ok s' p" "p \<notin> set xs"
    using ptinv_ok [OF inv d] node assms(3) by (auto simp: page_ok_def)
  assume d': "d' \<le> (2::nat)" and p': "pt_node (mem s') pt d' va' = Some p"
  then show "d = d'" "pt_path d va = pt_path d va'"
    using ptinv_inj [OF inv d d', of va p va'] d p node by auto
qed (fact assms(2))

lemma pt_leaf_put64:
  assumes inv: "ptinv s pt xs" and p: "pt_node (mem s) pt 2 va = Some p"
    and s': "s' = s\<lparr>mem := put64 (mem s) (pte_slot p 0 va) v\<rparr>"
  shows "pt_ext s s' pt xs xs"
    and "pt_leaf (mem s') pt va' = (if pt_path 3 va' = pt_path 3 va then v else pt_leaf (mem s) pt va')"
proof -
  have ok: "page_ok s p" "p \<notin> set xs" using ptinv_ok [OF inv _ p] by auto
  then have same: "same_on_page (mem s) (mem s') q" if "q \<noteq> p" for q
    using that by (auto simp: s' page_ok_def intro!: same_on_page_sym [OF same_on_page_slot_put64])
  have node: "pt_node (mem s') pt e v' = pt_node (mem s) pt e v'" if "e \<le> 2" for e v'
    using that
  proof (induction e)
    case (Suc e)
    show ?case
    proof (cases "pt_node (mem s) pt e v'")
      case (Some q)
      then have "q \<noteq> p" using ptinv_inj [OF inv _ _ Some, of 2 va] p Suc.prems by fastforce
      then show ?thesis
        using Suc Some pt_next_same_page [OF same] ptinv_ok [OF inv _ Some] by (auto simp: page_ok_def)
    qed (use Suc in simp)
  qed simp
  have "kmem_inv s' xs"
    by (rule kmem_inv_frame [OF ptinv_kmem [OF inv]]) (simp add: s', simp add: s', use ok same in metis)
  then have "ptinv s' pt xs"
    by (rule ptinv_cong [OF inv]) (simp_all add: node, simp add: s')
  moreover have "q \<noteq> p" if "outside (mem s) pt xs q" for q
    using that p by (auto simp: outside_def)
  moreover have "kend s' = kend s" by (simp add: s')
  ultimately show "pt_ext s s' pt xs xs"
    using node same by (simp add: pt_ext_def outside_def)
  show "pt_leaf (mem s') pt va' = (if pt_path 3 va' = pt_path 3 va then v else pt_leaf (mem s) pt va')"
  proof (cases "pt_node (mem s) pt 2 va' = Some p")
    case True
    then have "pt_path 2 va' = pt_path 2 va" using ptinv_inj [OF inv _ _ True p] by simp
    then have "pt_path 3 va' = pt_path 3 va \<longleftrightarrow> PX 0 va' = PX 0 va"
      using pt_path_Suc [of 2 va' va] by (simp add: numeral_3_eq_3 numeral_2_eq_2)
    then show ?thesis
      using True ok get64_slot_put64 [of p "mem s" 0 va v 0 va'] node [of 2 va']
      by (simp add: pt_leaf_def page_ok_def) (simp add: s')
  next
    case False
    then have "pt_path 3 va' \<noteq> pt_path 3 va"
      using p pt_node_path [of 2 va' va "mem s" pt] pt_path_take [of 2 3 va' va] by auto
    then show ?thesis
      using False get64_slot_same_page [OF same] ptinv_ok [OF inv, of 2 va']
      by (auto simp: pt_leaf_def node page_ok_def split: option.splits)
  qed
qed

lemma ptview_put64:
  assumes "ptinv s pt xs" "pt_node (mem s) pt 2 va = Some p" "va < MAXVA"
    and "s' = s\<lparr>mem := put64 (mem s) (pte_slot p 0 va) v\<rparr>"
  shows "ptview (mem s') pt =
    (\<lambda>va'. if PGROUNDDOWN va' = PGROUNDDOWN va then v else ptview (mem s) pt va')"
proof
  fix va'
  show "ptview (mem s') pt va' =
      (if PGROUNDDOWN va' = PGROUNDDOWN va then v else ptview (mem s) pt va')"
    using pt_leaf_put64(2) [OF assms(1,2,4)] pt_path_page [OF _ assms(3), of va'] assms(3)
      same_page_MAXVA [of va' va] by (simp add: ptview_def)
qed

text \<open>walk as a whole, without and with allocation.\<close>

lemma walk_lookup:
  assumes "ptinv s pt xs" "va < MAXVA"
  shows "\<exists>a. walk s pt va False = Inr (a, s) \<and>
    (a = 0 \<and> ptview (mem s) pt va = 0 \<or>
     a \<noteq> 0 \<and> get64 (mem s) a = ptview (mem s) pt va \<and>
     (\<exists>q. pt_node (mem s) pt 2 va = Some q \<and> a = pte_slot q 0 va))"
proof (cases "pt_node (mem s) pt 2 va")
  case None
  then show ?thesis
    using walk_from_noalloc [of 0 s pt va pt] assms by (simp add: walk_def ptview_def pt_leaf_def)
next
  case (Some q)
  then have "pte_slot q 0 va \<noteq> 0"
    using slot_nonzero ptinv_ok [OF assms(1) _ Some] ptinv_kmem [OF assms(1)]
    by (auto simp: kmem_inv_def)
  then show ?thesis
    using Some walk_from_noalloc [of 0 s pt va pt] assms by (simp add: walk_def ptview_def pt_leaf_def)
qed

lemma walk_create:
  assumes "ptinv s pt xs" "va < MAXVA"
  obtains a s' xs' where "walk s pt va True = Inr (a, s')" "pt_ext s s' pt xs xs'"
    "ptview (mem s') pt = ptview (mem s) pt" "length xs \<le> length xs' + 2"
    "a = 0 \<Longrightarrow> length xs < 2"
    "a \<noteq> 0 \<Longrightarrow> \<exists>q. pt_node (mem s') pt 2 va = Some q \<and> a = pte_slot q 0 va"
    "a \<noteq> 0 \<Longrightarrow> get64 (mem s') a = ptview (mem s) pt va"
proof -
  obtain a s' xs' where r: "walk_from 2 s pt va True = (a, s')" "pt_ext s s' pt xs xs'"
    "pt_leaf (mem s') pt = pt_leaf (mem s) pt" "length xs \<le> length xs' + 2"
    "if a = 0 then length xs < 2 else \<exists>q. pt_node (mem s') pt 2 va = Some q \<and> a = pte_slot q 0 va"
    using walk_from_alloc [OF assms(1), of 0 va pt, unfolded minus_nat.diff_0] by auto
  have "get64 (mem s') a = ptview (mem s) pt va" if "a \<noteq> 0"
    using that r(5) fun_cong [OF r(3), of va] assms(2) by (auto simp: ptview_def pt_leaf_def)
  moreover have "ptview (mem s') pt = ptview (mem s) pt"
    using r(3) by (simp add: ptview_def cong: if_cong)
  moreover have "walk s pt va True = Inr (a, s')" using r(1) assms(2) by (simp add: walk_def)
  ultimately show thesis using r(2,4,5) by (intro that [of a s' xs']) (simp_all split: if_splits)
qed

section \<open>mappages\<close>

text \<open>The view after the first j pages of a mapping at a to pa have been entered.\<close>

fun map_pages :: "nat \<Rightarrow> u64 \<Rightarrow> u64 \<Rightarrow> u64 \<Rightarrow> (u64 \<Rightarrow> u64) \<Rightarrow> u64 \<Rightarrow> u64" where
  "map_pages 0 a pa perm v = v"
| "map_pages (Suc j) a pa perm v =
     map_pages j (a + PGSIZE) (pa + PGSIZE) perm
       (\<lambda>va. if PGROUNDDOWN va = a then PA2PTE pa OR perm OR PTE_V else v va)"

lemma page_offset_inj:
  assumes "unat a + 4096 * n < 2 ^ 64" "i \<le> n" "k \<le> n"
  shows "a + of_nat i * PGSIZE = a + of_nat k * PGSIZE \<longleftrightarrow> i = k"
proof -
  have "unat (of_nat j * PGSIZE) = j * 4096" if "j \<le> n" for j
    using that assms(1) by (simp add: PGSIZE_def unat_word_ariths unat_of_nat64)
  then have "of_nat i * PGSIZE = of_nat k * PGSIZE \<longleftrightarrow> i * 4096 = k * 4096"
    using assms(2,3) by (metis word_unat_eq_iff)
  then show ?thesis by simp
qed

lemma map_pages_eq:
  assumes "unat a + 4096 * j < 2 ^ 64"
  shows "map_pages j a pa perm v va =
    (if \<exists>k < j. PGROUNDDOWN va = a + of_nat k * PGSIZE
     then PA2PTE (pa + (PGROUNDDOWN va - a)) OR perm OR PTE_V else v va)"
  using assms
proof (induction j arbitrary: a pa v)
  case (Suc j)
  have u: "unat (a + PGSIZE) + 4096 * j < 2 ^ 64"
    using Suc.prems by (simp add: PGSIZE_def unat_word_ariths)
  have "(\<exists>k < Suc j. PGROUNDDOWN va = a + of_nat k * PGSIZE) \<longleftrightarrow>
      PGROUNDDOWN va = a \<or> (\<exists>k < j. PGROUNDDOWN va = a + PGSIZE + of_nat k * PGSIZE)"
    by (auto simp: Ex_less_Suc2 algebra_simps)
  moreover have "\<not> (\<exists>k < j. a = a + PGSIZE + of_nat k * PGSIZE)"
    using page_offset_inj [OF Suc.prems, of 0 "Suc k" for k] by (auto simp: algebra_simps)
  ultimately show ?case unfolding map_pages.simps Suc.IH [OF u] by (auto simp: add_diff_eq diff_add_eq)
qed simp

text \<open>One turn of the loop: either memory for the page table runs out, or the page is entered.\<close>

lemma mappages_turn:
  assumes "ptinv s pt xs" "page_aligned a" "a < MAXVA" "ptview (mem s) pt a AND PTE_V = 0"
  obtains (full) s1 xs1 where "\<And>la. mappages_loop s pt a la pa perm = Inr (-1, s1)"
      "pt_ext s s1 pt xs xs1" "ptview (mem s1) pt = ptview (mem s) pt" "length xs < 2"
      "length xs \<le> length xs1 + 2"
    | (mapped) s1 xs1 where "\<And>la. mappages_loop s pt a la pa perm =
        (if a = la then Inr (0, s1) else mappages_loop s1 pt (a + PGSIZE) la (pa + PGSIZE) perm)"
      "pt_ext s s1 pt xs xs1" "length xs \<le> length xs1 + 2"
      "ptview (mem s1) pt =
        (\<lambda>va. if PGROUNDDOWN va = a then PA2PTE pa OR perm OR PTE_V else ptview (mem s) pt va)"
proof -
  obtain q s1 xs1 where w: "walk s pt a True = Inr (q, s1)" "pt_ext s s1 pt xs xs1"
    "ptview (mem s1) pt = ptview (mem s) pt" "length xs \<le> length xs1 + 2" "q = 0 \<Longrightarrow> length xs < 2"
    "q \<noteq> 0 \<Longrightarrow> \<exists>p. pt_node (mem s1) pt 2 a = Some p \<and> q = pte_slot p 0 a"
    "q \<noteq> 0 \<Longrightarrow> get64 (mem s1) q = ptview (mem s) pt a"
    using walk_create [OF assms(1,3)] by metis
  show thesis
  proof (cases "q = 0")
    case True
    with w show thesis by (intro full [of s1 xs1]) (simp_all add: mappages_loop.simps)
  next
    case False
    then obtain p where p: "pt_node (mem s1) pt 2 a = Some p" "q = pte_slot p 0 a" using w(6) by blast
    define s2 where "s2 = s1\<lparr>mem := put64 (mem s1) (pte_slot p 0 a) (PA2PTE pa OR perm OR PTE_V)\<rparr>"
    show thesis
    proof (rule mapped [of s2 xs1])
      show "mappages_loop s pt a la pa perm =
          (if a = la then Inr (0, s2) else mappages_loop s2 pt (a + PGSIZE) la (pa + PGSIZE) perm)" for la
        using w(1,7) False assms(4) p(2) by (subst mappages_loop.simps) (simp add: s2_def Let_def)
      show "pt_ext s s2 pt xs xs1"
        by (rule pt_ext_trans [OF w(2) pt_leaf_put64(1) [OF pt_extD(1) [OF w(2)] p(1) s2_def]])
      show "ptview (mem s2) pt =
          (\<lambda>va. if PGROUNDDOWN va = a then PA2PTE pa OR perm OR PTE_V else ptview (mem s) pt va)"
        using ptview_put64 [OF pt_extD(1) [OF w(2)] p(1) assms(3) s2_def] w(3) assms(2)
        by (simp add: PGROUNDDOWN_aligned cong: if_cong)
    qed (fact w(4))
  qed
qed

lemma page_aligned_add: "page_aligned a \<Longrightarrow> page_aligned (a + of_nat k * PGSIZE)"
  unfolding page_aligned_and PGSIZE_def
  by (simp add: page_aligned_and [symmetric] page_aligned_unat unat_word_ariths mod_mod_cancel mod_simps)

lemma mappages_loop_spec:
  assumes "ptinv s pt xs" "page_aligned a" "la = a + of_nat n * PGSIZE"
    and "unat a + 4096 * n < 2 ^ 38"
    and "\<And>k. k \<le> n \<Longrightarrow> ptview (mem s) pt (a + of_nat k * PGSIZE) AND PTE_V = 0"
  shows "\<exists>j s' xs'. mappages_loop s pt a la pa perm = Inr (if j = Suc n then 0 else -1, s') \<and>
    j \<le> Suc n \<and> pt_ext s s' pt xs xs' \<and> length xs \<le> length xs' + 2 * Suc n \<and>
    (2 * Suc n \<le> length xs \<longrightarrow> j = Suc n) \<and>
    ptview (mem s') pt = map_pages j a pa perm (ptview (mem s) pt)"
  using assms
proof (induction n arbitrary: s xs a pa)
  case (0 s xs a pa)
  then have a: "la = a" "a < MAXVA" by (simp_all add: word_less_nat_alt unat_MAXVA)
  have un: "ptview (mem s) pt a AND PTE_V = 0" using 0(5) [of 0] by simp
  show ?case
  proof (cases rule: mappages_turn [OF 0(1,2) a(2) un, of pa perm, case_names full mapped])
    case (full s1 xs1)
    then show ?thesis by (intro exI [of _ 0] exI [of _ s1] exI [of _ xs1]) simp
  next
    case (mapped s1 xs1)
    then show ?thesis using a by (intro exI [of _ 1] exI [of _ s1] exI [of _ xs1]) simp
  qed
next
  case (Suc n s xs a pa)
  have a: "a < MAXVA" "unat (a + PGSIZE) + 4096 * n < 2 ^ 38"
    using Suc.prems(4) by (simp_all add: word_less_nat_alt unat_MAXVA PGSIZE_def unat_word_ariths)
  have nla: "a \<noteq> la" using page_offset_inj [of a "Suc n" 0 "Suc n"] Suc.prems(3,4) by simp
  have un: "ptview (mem s) pt a AND PTE_V = 0" using Suc.prems(5) [of 0] by simp
  show ?case
  proof (cases rule: mappages_turn [OF Suc.prems(1,2) a(1) un, of pa perm, case_names full mapped])
    case (full s1 xs1)
    then show ?thesis by (intro exI [of _ 0] exI [of _ s1] exI [of _ xs1]) simp
  next
    case (mapped s1 xs1)
    have "ptview (mem s1) pt (a + PGSIZE + of_nat k * PGSIZE) AND PTE_V = 0" if "k \<le> n" for k
    proof -
      have eq: "a + PGSIZE + of_nat k * PGSIZE = a + of_nat (Suc k) * PGSIZE" by (simp add: algebra_simps)
      then have "PGROUNDDOWN (a + PGSIZE + of_nat k * PGSIZE) = a + of_nat (Suc k) * PGSIZE"
        using page_aligned_add [OF Suc.prems(2)] PGROUNDDOWN_aligned by metis
      moreover have "a + of_nat (Suc k) * PGSIZE \<noteq> a"
        using page_offset_inj [of a "Suc n" "Suc k" 0] Suc.prems(4) that by simp
      ultimately show ?thesis
        using Suc.prems(5) [of "Suc k"] that unfolding mapped(4) eq by simp
    qed
    moreover have "page_aligned (a + PGSIZE)" using page_aligned_add [OF Suc.prems(2), of 1] by simp
    ultimately obtain j s' xs' where r:
      "mappages_loop s1 pt (a + PGSIZE) la (pa + PGSIZE) perm = Inr (if j = Suc n then 0 else -1, s')"
      "j \<le> Suc n" "pt_ext s1 s' pt xs1 xs'" "length xs1 \<le> length xs' + 2 * Suc n"
      "2 * Suc n \<le> length xs1 \<longrightarrow> j = Suc n"
      "ptview (mem s') pt = map_pages j (a + PGSIZE) (pa + PGSIZE) perm (ptview (mem s1) pt)"
      using Suc.IH [OF pt_extD(1) [OF mapped(2)], of "a + PGSIZE" "pa + PGSIZE"] Suc.prems(3) a(2)
      by (auto simp: algebra_simps)
    then show ?thesis using nla mapped(1,3,4) pt_ext_trans [OF mapped(2) r(3)]
      by (intro exI [of _ "Suc j"] exI [of _ s'] exI [of _ xs']) auto
  qed
qed

section \<open>Ranges of pages\<close>

definition in_range :: "u64 \<Rightarrow> nat \<Rightarrow> u64 \<Rightarrow> bool" where
  "in_range a n x \<longleftrightarrow> unat (x - a) < 4096 * n"

lemma in_range_0 [simp]: "\<not> in_range a 0 x"
  by (simp add: in_range_def)

lemma in_range_Suc:
  assumes "page_aligned a" "4096 * Suc n < 2 ^ 64"
  shows "in_range a (Suc n) x \<longleftrightarrow> PGROUNDDOWN x = a \<or> in_range (a + PGSIZE) n x"
proof (cases "unat (x - a) < 4096")
  case True
  then show ?thesis using in_page_iff [OF assms(1), of x] by (simp add: in_range_def)
next
  case False
  then show ?thesis
    using split_range(1) [of 4096 "4096 * Suc n" x a] in_page_iff [OF assms(1), of x] assms(2)
    by (simp add: in_range_def PGSIZE_def)
qed

lemma in_range_Suc_last:
  assumes "page_aligned a" "4096 * Suc n < 2 ^ 64"
  shows "in_range a (Suc n) x \<longleftrightarrow> in_range a n x \<or> PGROUNDDOWN x = a + of_nat n * PGSIZE"
proof -
  have "unat (x - (a + of_nat n * PGSIZE)) < 4096 \<longleftrightarrow> PGROUNDDOWN x = a + of_nat n * PGSIZE"
    by (rule in_page_iff [OF page_aligned_add [OF assms(1)]])
  moreover have "of_nat n * PGSIZE = of_nat (4096 * n)" by (simp add: PGSIZE_def)
  ultimately show ?thesis
    using split_range(1) [of "4096 * n" "4096 * Suc n" x a] assms(2)
    by (cases "unat (x - a) < 4096 * n") (auto simp: in_range_def)
qed

lemma aligned_step:
  assumes "page_aligned a" "unat a + 4096 * Suc n \<le> 2 ^ 38"
  shows "page_aligned (a + PGSIZE)" "unat (a + PGSIZE) + 4096 * n \<le> 2 ^ 38" "a < a + of_nat (Suc n) * PGSIZE"
    "a + of_nat (Suc n) * PGSIZE = a + PGSIZE + of_nat n * PGSIZE" "a < MAXVA"
proof -
  show "page_aligned (a + PGSIZE)" using page_aligned_add [OF assms(1), of 1] by simp
  show "unat (a + PGSIZE) + 4096 * n \<le> 2 ^ 38"
    using assms(2) by (simp add: PGSIZE_def unat_word_ariths)
  show "a + of_nat (Suc n) * PGSIZE = a + PGSIZE + of_nat n * PGSIZE" by (simp add: algebra_simps)
  have "unat (of_nat (4096 * Suc n) :: u64) = 4096 * Suc n"
    using assms(2) by (intro unat_of_nat64) simp
  moreover have "of_nat (Suc n) * PGSIZE = of_nat (4096 * Suc n)" by (simp add: PGSIZE_def)
  ultimately have "unat (a + of_nat (Suc n) * PGSIZE) = unat a + 4096 * Suc n"
    using assms(2) by (simp only: unat_word_ariths) simp
  then show "a < a + of_nat (Suc n) * PGSIZE" by (simp add: word_less_nat_alt)
  show "a < MAXVA" using assms(2) by (simp add: word_less_nat_alt unat_MAXVA)
qed

lemma in_range_pages:
  assumes "page_aligned a" "4096 * n < 2 ^ 64"
  shows "(\<exists>k < n. PGROUNDDOWN x = a + of_nat k * PGSIZE) \<longleftrightarrow> in_range a n x"
  using assms(2)
proof (induction n)
  case (Suc n)
  then have IH: "(\<exists>k < n. PGROUNDDOWN x = a + of_nat k * PGSIZE) \<longleftrightarrow> in_range a n x" by simp
  show ?case
    unfolding in_range_Suc_last [OF assms(1) Suc.prems] less_Suc_eq IH [symmetric] by blast
qed simp

lemma mappages_range:
  assumes "ptinv s pt xs" "page_aligned va" "0 < n" "unat va + 4096 * n \<le> 2 ^ 38"
    and "\<forall>k < n. ptview (mem s) pt (va + of_nat k * PGSIZE) AND PTE_V = 0" "2 * n \<le> length xs"
  shows "\<exists>s' xs'. mappages s pt va (of_nat n * PGSIZE) pa perm = Inr (0, s') \<and> pt_ext s s' pt xs xs' \<and>
    ptview (mem s') pt = (\<lambda>x. if in_range va n x then PA2PTE (pa + (PGROUNDDOWN x - va)) OR perm OR PTE_V
      else ptview (mem s) pt x)"
proof -
  obtain j where n: "n = Suc j" using assms(3) by (cases n) auto
  have len: "unat (of_nat n * PGSIZE :: u64) = 4096 * n"
    using assms(4) by (simp add: PGSIZE_def unat_word_ariths unat_of_nat64)
  have nz: "of_nat n * PGSIZE \<noteq> (0 :: u64)" using len assms(3) by (metis mult_is_0 neq0_conv unat_0 zero_neq_numeral)
  have la: "PGROUNDDOWN (va + of_nat n * PGSIZE - 1) = va + of_nat j * PGSIZE"
  proof -
    have "va + of_nat n * PGSIZE - 1 = (va + of_nat j * PGSIZE) + 4095"
      by (simp add: n PGSIZE_def algebra_simps)
    then show ?thesis
      using in_page_iff [OF page_aligned_add [OF assms(2)], of "va + of_nat n * PGSIZE - 1" j] by simp
  qed
  have j: "unat va + 4096 * j < 2 ^ 38" "\<And>k. k \<le> j \<Longrightarrow> ptview (mem s) pt (va + of_nat k * PGSIZE) AND PTE_V = 0"
    using assms(4,5) n by simp_all
  obtain k s' xs' where r: "mappages_loop s pt va (va + of_nat j * PGSIZE) pa perm =
      Inr (if k = Suc j then 0 else -1, s')" "pt_ext s s' pt xs xs'" "2 * Suc j \<le> length xs \<longrightarrow> k = Suc j"
    "ptview (mem s') pt = map_pages k va pa perm (ptview (mem s) pt)"
    using mappages_loop_spec [OF assms(1,2) refl j, of pa perm] by blast
  have k: "k = n" using r(3) assms(6) n by simp
  have "ptview (mem s') pt x = (if in_range va n x then PA2PTE (pa + (PGROUNDDOWN x - va)) OR perm OR PTE_V
      else ptview (mem s) pt x)" for x
    using map_pages_eq [of va n pa perm "ptview (mem s) pt" x] in_range_pages [OF assms(2), of n x] assms(4)
    unfolding r(4) k by simp
  moreover have "mappages s pt va (of_nat n * PGSIZE) pa perm = Inr (0, s')"
    using r(1) k n nz la assms(2) by (simp add: mappages_def PGROUNDDOWN_aligned)
  ultimately show ?thesis using r(2) by blast
qed

end
