(* ===== verification/Xv6_Vm.thy ===== *)
theory Xv6_Vm
  imports Xv6_Paging
begin

text \<open>
  User address spaces: the rest of vm.c (uvmunmap to copyinstr, kvmmake) and proc_mapstacks of
  proc.c. A kernel buffer handed to copyout is a list of bytes, and copyin and copyinstr return the
  bytes they store in theirs. Running off the end of memory that kalloc could not provide is the
  error value Fault.
\<close>

section \<open>The kernel page table\<close>

definition UART0 :: u64 where "UART0 = 0x10000000"

definition VIRTIO0 :: u64 where "VIRTIO0 = 0x10001000"

definition PLIC :: u64 where "PLIC = 0x0c000000"

definition NPROC :: nat where "NPROC = 64"

definition proc_mapstacks :: "kmem \<Rightarrow> u64 \<Rightarrow> kmem kr" where
  "proc_mapstacks s kpgtbl =
     kfold (\<lambda>p s. case kalloc s of (pa, s) \<Rightarrow>
       if pa = 0 then Inl (Panic ''kalloc'')
       else kvmmap s kpgtbl (KSTACK p) pa PGSIZE (PTE_R OR PTE_W)) [0..<NPROC] s"

text \<open>etext and trampoline are addresses the linker provides.\<close>

definition kvmmake :: "kmem \<Rightarrow> u64 \<Rightarrow> u64 \<Rightarrow> (u64 \<times> kmem) kr" where
  "kvmmake s etext trampoline =
     (case kalloc s of (kpgtbl, s) \<Rightarrow>
      if kpgtbl = 0 then Inl (Fault ''memset'')
      else let s = s\<lparr>mem := memset (mem s) kpgtbl 0 4096\<rparr> in
        kbind (kvmmap s kpgtbl UART0 UART0 PGSIZE (PTE_R OR PTE_W)) (\<lambda>s.
        kbind (kvmmap s kpgtbl VIRTIO0 VIRTIO0 PGSIZE (PTE_R OR PTE_W)) (\<lambda>s.
        kbind (kvmmap s kpgtbl PLIC PLIC 0x400000 (PTE_R OR PTE_W)) (\<lambda>s.
        kbind (kvmmap s kpgtbl KERNBASE KERNBASE (etext - KERNBASE) (PTE_R OR PTE_X)) (\<lambda>s.
        kbind (kvmmap s kpgtbl etext etext (PHYSTOP - etext) (PTE_R OR PTE_W)) (\<lambda>s.
        kbind (kvmmap s kpgtbl TRAMPOLINE trampoline PGSIZE (PTE_R OR PTE_X)) (\<lambda>s.
        kbind (proc_mapstacks s kpgtbl) (\<lambda>s. Inr (kpgtbl, s)))))))))"

section \<open>User page tables\<close>

function uvmunmap_loop :: "kmem \<Rightarrow> u64 \<Rightarrow> u64 \<Rightarrow> u64 \<Rightarrow> bool \<Rightarrow> kmem kr" where
  "uvmunmap_loop s pt a a_end do_free =
     (if a < a_end
      then kbind (walk s pt a False) (\<lambda>(pte, s).
        if pte = 0 then Inl (Panic ''uvmunmap: walk'')
        else if get64 (mem s) pte AND PTE_V = 0 then Inl (Panic ''uvmunmap: not mapped'')
        else if PTE_FLAGS (get64 (mem s) pte) = PTE_V then Inl (Panic ''uvmunmap: not a leaf'')
        else kbind (if do_free then kfree s (PTE2PA (get64 (mem s) pte)) else Inr s) (\<lambda>s.
          let s = s\<lparr>mem := put64 (mem s) pte 0\<rparr>
          in uvmunmap_loop s pt (a + PGSIZE) a_end do_free))
      else Inr s)"
  by pat_completeness auto
termination
  by (relation "measure (\<lambda>(s, pt, a, e, f). unat (MAXVA + PGSIZE - a))")
    (auto dest!: walk_lt_MAXVA intro: page_loop_measure)

declare uvmunmap_loop.simps [simp del]

definition uvmunmap :: "kmem \<Rightarrow> u64 \<Rightarrow> u64 \<Rightarrow> u64 \<Rightarrow> bool \<Rightarrow> kmem kr" where
  "uvmunmap s pt va npages do_free =
     (if va mod PGSIZE \<noteq> 0 then Inl (Panic ''uvmunmap: not aligned'')
      else uvmunmap_loop s pt va (va + npages * PGSIZE) do_free)"

definition uvmcreate :: "kmem \<Rightarrow> u64 \<times> kmem" where
  "uvmcreate s =
     (case kalloc s of (pagetable, s) \<Rightarrow>
      if pagetable = 0 then (0, s)
      else (pagetable, s\<lparr>mem := memset (mem s) pagetable 0 4096\<rparr>))"

text \<open>The initial code is a constant array of the kernel, here the list of its bytes.\<close>

definition store_bytes :: "memory \<Rightarrow> u64 \<Rightarrow> byte list \<Rightarrow> memory" where
  "store_bytes m dst bs = fold (\<lambda>i m. m(dst + of_nat i := bs ! i)) [0..<length bs] m"

definition uvmfirst :: "kmem \<Rightarrow> u64 \<Rightarrow> byte list \<Rightarrow> kmem kr" where
  "uvmfirst s pt src =
     (if length src \<ge> 4096 then Inl (Panic ''uvmfirst: more than a page'')
      else case kalloc s of (mm, s) \<Rightarrow>
        if mm = 0 then Inl (Fault ''memset'')
        else let s = s\<lparr>mem := memset (mem s) mm 0 4096\<rparr> in
          kbind (mappages s pt 0 PGSIZE mm (PTE_W OR PTE_R OR PTE_X OR PTE_U)) (\<lambda>(_, s).
            Inr (s\<lparr>mem := store_bytes (mem s) mm src\<rparr>)))"

definition uvmdealloc :: "kmem \<Rightarrow> u64 \<Rightarrow> u64 \<Rightarrow> u64 \<Rightarrow> (u64 \<times> kmem) kr" where
  "uvmdealloc s pt oldsz newsz =
     (if newsz \<ge> oldsz then Inr (oldsz, s)
      else if PGROUNDUP newsz < PGROUNDUP oldsz
      then let npages = int_of_u64 ((PGROUNDUP oldsz - PGROUNDUP newsz) div PGSIZE) in
        kbind (uvmunmap s pt (PGROUNDUP newsz) (of_int npages) True) (\<lambda>s. Inr (newsz, s))
      else Inr (newsz, s))"

lemma PGROUNDDOWN_idem: "PGROUNDDOWN (PGROUNDDOWN a) = PGROUNDDOWN a"
  by (rule bit_word_eqI) auto

lemma mappages_lt_MAXVA: "mappages s pt va sz pa perm = Inr r \<Longrightarrow> va < MAXVA"
proof -
  assume "mappages s pt va sz pa perm = Inr r"
  then obtain r' where "walk s pt (PGROUNDDOWN va) True = Inr r'"
    by (auto simp: mappages_def mappages_loop.simps kr_simps split: if_splits)
  from walk_lt_MAXVA [OF this] show ?thesis
    using same_page_MAXVA [OF PGROUNDDOWN_idem] by blast
qed

function uvmalloc_loop ::
  "kmem \<Rightarrow> u64 \<Rightarrow> u64 \<Rightarrow> u64 \<Rightarrow> u64 \<Rightarrow> u64 \<Rightarrow> (u64 \<times> kmem) kr" where
  "uvmalloc_loop s pt a oldsz newsz xperm =
     (if a < newsz
      then (case kalloc s of (mm, s) \<Rightarrow>
        if mm = 0
        then kbind (uvmdealloc s pt a oldsz) (\<lambda>(_, s). Inr (0, s))
        else let s = s\<lparr>mem := memset (mem s) mm 0 4096\<rparr> in
          kbind (mappages s pt a PGSIZE mm (PTE_R OR PTE_U OR xperm)) (\<lambda>(r, s).
            if r \<noteq> 0
            then kbind (kfree s mm) (\<lambda>s. kbind (uvmdealloc s pt a oldsz) (\<lambda>(_, s). Inr (0, s)))
            else uvmalloc_loop s pt (a + PGSIZE) oldsz newsz xperm))
      else Inr (newsz, s))"
  by pat_completeness auto
termination
  by (relation "measure (\<lambda>(s, pt, a, oldsz, newsz, xperm). unat (MAXVA + PGSIZE - a))")
    (auto dest!: mappages_lt_MAXVA intro: page_loop_measure)

declare uvmalloc_loop.simps [simp del]

definition uvmalloc :: "kmem \<Rightarrow> u64 \<Rightarrow> u64 \<Rightarrow> u64 \<Rightarrow> u64 \<Rightarrow> (u64 \<times> kmem) kr" where
  "uvmalloc s pt oldsz newsz xperm =
     (if newsz < oldsz then Inr (oldsz, s)
      else uvmalloc_loop s pt (PGROUNDUP oldsz) (PGROUNDUP oldsz) newsz xperm)"

primrec freewalk :: "nat \<Rightarrow> kmem \<Rightarrow> u64 \<Rightarrow> kmem kr" where
  "freewalk 0 s pagetable = Inl (Fault ''freewalk: depth'')"
| "freewalk (Suc depth) s pagetable =
     kbind (kfold (\<lambda>i s.
       let slot = pagetable + 8 * of_nat i; pte = get64 (mem s) slot in
       if pte AND PTE_V \<noteq> 0 \<and> pte AND (PTE_R OR PTE_W OR PTE_X) = 0
       then kbind (freewalk depth s (PTE2PA pte)) (\<lambda>s. Inr (s\<lparr>mem := put64 (mem s) slot 0\<rparr>))
       else Inr s) [0..<512] s) (\<lambda>s.
     kfree s pagetable)"

text \<open>Sv39 page tables have three levels.\<close>

definition uvmfree :: "kmem \<Rightarrow> u64 \<Rightarrow> u64 \<Rightarrow> kmem kr" where
  "uvmfree s pt sz =
     kbind (if sz > 0 then uvmunmap s pt 0 (PGROUNDUP sz div PGSIZE) True else Inr s) (\<lambda>s.
       freewalk 3 s pt)"

function uvmcopy_loop :: "kmem \<Rightarrow> u64 \<Rightarrow> u64 \<Rightarrow> u64 \<Rightarrow> u64 \<Rightarrow> (int \<times> kmem) kr" where
  "uvmcopy_loop s old new i sz =
     (if i < sz
      then kbind (walk s old i False) (\<lambda>(pte, s).
        if pte = 0 then Inl (Panic ''uvmcopy: pte should exist'')
        else let e = get64 (mem s) pte in
        if e AND PTE_V = 0 then Inl (Panic ''uvmcopy: page not present'')
        else (case kalloc s of (mm, s) \<Rightarrow>
          if mm = 0 then kbind (uvmunmap s new 0 (i div PGSIZE) True) (\<lambda>s. Inr (-1, s))
          else let s = s\<lparr>mem := memmove (mem s) mm (PTE2PA e) 4096\<rparr> in
            kbind (mappages s new i PGSIZE mm (PTE_FLAGS e)) (\<lambda>(r, s).
              if r \<noteq> 0
              then kbind (kfree s mm) (\<lambda>s.
                   kbind (uvmunmap s new 0 (i div PGSIZE) True) (\<lambda>s. Inr (-1, s)))
              else uvmcopy_loop s old new (i + PGSIZE) sz)))
      else Inr (0, s))"
  by pat_completeness auto
termination
  by (relation "measure (\<lambda>(s, old, new, i, sz). unat (MAXVA + PGSIZE - i))")
    (auto dest!: walk_lt_MAXVA intro: page_loop_measure)

declare uvmcopy_loop.simps [simp del]

definition uvmcopy :: "kmem \<Rightarrow> u64 \<Rightarrow> u64 \<Rightarrow> u64 \<Rightarrow> (int \<times> kmem) kr" where
  "uvmcopy s old new sz = uvmcopy_loop s old new 0 sz"

definition uvmclear :: "kmem \<Rightarrow> u64 \<Rightarrow> u64 \<Rightarrow> kmem kr" where
  "uvmclear s pt va =
     kbind (walk s pt va False) (\<lambda>(pte, s).
       if pte = 0 then Inl (Panic ''uvmclear'')
       else Inr (s\<lparr>mem := put64 (mem s) pte (get64 (mem s) pte AND NOT PTE_U)\<rparr>))"

section \<open>Copying between kernel and user memory\<close>

lemma page_room: "0 < unat (PGSIZE - (va - PGROUNDDOWN va))"
proof -
  have "va - PGROUNDDOWN va = take_bit 12 va" by (metis PGROUNDDOWN_split add_diff_cancel_left')
  moreover have "unat (take_bit 12 va) < 4096" by (simp add: unat_take_bit12)
  ultimately show ?thesis by (simp add: PGSIZE_def unat_sub_if' word_size)
qed

function copyout :: "kmem \<Rightarrow> u64 \<Rightarrow> u64 \<Rightarrow> byte list \<Rightarrow> (int \<times> kmem) kr" where
  "copyout s pt dstva src =
     (if length src > 0
      then let va0 = PGROUNDDOWN dstva in
        kbind (walkaddr s pt va0) (\<lambda>pa0.
          if pa0 = 0 then Inr (-1, s)
          else let n = unat (PGSIZE - (dstva - va0));
                   n = (if n > length src then length src else n);
                   s = s\<lparr>mem := store_bytes (mem s) (pa0 + (dstva - va0)) (take n src)\<rparr>
               in copyout s pt (va0 + PGSIZE) (drop n src))
      else Inr (0, s))"
  by pat_completeness auto
termination
  by (relation "measure (\<lambda>(s, pt, dstva, src). length src)") (use page_room in auto)

declare copyout.simps [simp del]

definition load_bytes :: "memory \<Rightarrow> u64 \<Rightarrow> nat \<Rightarrow> byte list" where
  "load_bytes m src n = map (\<lambda>i. m (src + of_nat i)) [0..<n]"

function copyin :: "kmem \<Rightarrow> u64 \<Rightarrow> u64 \<Rightarrow> nat \<Rightarrow> (int \<times> byte list) kr" where
  "copyin s pt srcva len =
     (if len > 0
      then let va0 = PGROUNDDOWN srcva in
        kbind (walkaddr s pt va0) (\<lambda>pa0.
          if pa0 = 0 then Inr (-1, [])
          else let n = unat (PGSIZE - (srcva - va0));
                   n = (if n > len then len else n)
               in kbind (copyin s pt (va0 + PGSIZE) (len - n)) (\<lambda>(r, bs).
                    Inr (r, load_bytes (mem s) (pa0 + (srcva - va0)) n @ bs)))
      else Inr (0, []))"
  by pat_completeness auto
termination
  by (relation "measure (\<lambda>(s, pt, srcva, len). len)") (use page_room in auto)

declare copyin.simps [simp del]

text \<open>The inner loop of copyinstr on the bytes of one page: what it stores, and got_null.\<close>

fun copyinstr_page :: "memory \<Rightarrow> u64 \<Rightarrow> nat \<Rightarrow> byte list \<times> bool" where
  "copyinstr_page m p 0 = ([], False)"
| "copyinstr_page m p (Suc n) =
     (if m p = 0 then ([0], True)
      else case copyinstr_page m (p + 1) n of (bs, got_null) \<Rightarrow> (m p # bs, got_null))"

function copyinstr :: "kmem \<Rightarrow> u64 \<Rightarrow> u64 \<Rightarrow> nat \<Rightarrow> (int \<times> byte list) kr" where
  "copyinstr s pt srcva mx =
     (if mx > 0
      then let va0 = PGROUNDDOWN srcva in
        kbind (walkaddr s pt va0) (\<lambda>pa0.
          if pa0 = 0 then Inr (-1, [])
          else let n = unat (PGSIZE - (srcva - va0));
                   n = (if n > mx then mx else n)
               in case copyinstr_page (mem s) (pa0 + (srcva - va0)) n of (bs, got_null) \<Rightarrow>
                    if got_null then Inr (0, bs)
                    else kbind (copyinstr s pt (va0 + PGSIZE) (mx - n)) (\<lambda>(r, bs').
                      Inr (r, bs @ bs')))
      else Inr (-1, []))"
  by pat_completeness auto
termination
  by (relation "measure (\<lambda>(s, pt, srcva, mx). mx)") (use page_room in auto)

declare copyinstr.simps [simp del]

section \<open>User memory as the program sees it\<close>

text \<open>
  The physical page behind a user address (0 if there is none), and the user memory of a page table:
  a partial function from virtual addresses to bytes.
\<close>

definition upa :: "memory \<Rightarrow> u64 \<Rightarrow> u64 \<Rightarrow> u64" where
  "upa m pt va = (let e = ptview m pt va in
     if e AND PTE_V = 0 \<or> e AND PTE_U = 0 then 0 else PTE2PA e)"

definition umem :: "memory \<Rightarrow> u64 \<Rightarrow> u64 \<rightharpoonup> byte" where
  "umem m pt va =
     (if upa m pt va = 0 then None else Some (m (upa m pt va + (va - PGROUNDDOWN va))))"

lemma ptview_page:
  assumes page: "PGROUNDDOWN va = PGROUNDDOWN va'"
  shows "ptview m pt va = ptview m pt va'"
proof (cases "va < MAXVA")
  case True
  then have va': "va' < MAXVA" using page same_page_MAXVA by blast
  then have path: "pt_path 3 va = pt_path 3 va'" using pt_path_page True page by blast
  then have "pt_path 2 va = pt_path 2 va'" "PX 0 va = PX 0 va'"
    using pt_path_Suc [of 2 va va'] by (simp_all add: numeral_3_eq_3 numeral_2_eq_2)
  then have "pt_leaf m pt va = pt_leaf m pt va'"
    using pt_node_path [of 2 va va' m pt]
    by (simp add: pt_leaf_def pte_slot_def split: option.splits)
  then show ?thesis using True va' by (simp add: ptview_def)
qed (use same_page_MAXVA [OF page] in \<open>simp add: ptview_def\<close>)

lemma upa_page: "PGROUNDDOWN va = PGROUNDDOWN va' \<Longrightarrow> upa m pt va = upa m pt va'"
  using ptview_page [of va va' m pt] by (simp add: upa_def)

lemma walkaddr_upa:
  assumes "ptinv s pt xs"
  shows "walkaddr s pt va = Inr (upa (mem s) pt va)"
proof (cases "va < MAXVA")
  case True
  from walk_lookup [OF assms True] show ?thesis
    using True by (auto simp: walkaddr_def upa_def Let_def not_le)
next
  case False
  then have "ptview (mem s) pt va = 0" by (simp add: ptview_def)
  moreover have "MAXVA \<le> va" using False by simp
  ultimately show ?thesis by (simp add: walkaddr_def upa_def)
qed

text \<open>The part of a copy that falls in the page of va.\<close>

definition room :: "u64 \<Rightarrow> nat" where
  "room va = unat (PGSIZE - (va - PGROUNDDOWN va))"

lemma room_pos: "0 < room va"
  by (simp add: room_def page_room)

lemma room_eq: "room va = 4096 - unat (va - PGROUNDDOWN va)" "unat (va - PGROUNDDOWN va) < 4096"
proof -
  have "va - PGROUNDDOWN va = take_bit 12 va" by (metis PGROUNDDOWN_split add_diff_cancel_left')
  then show "unat (va - PGROUNDDOWN va) < 4096" by (simp add: unat_take_bit12)
  then show "room va = 4096 - unat (va - PGROUNDDOWN va)"
    by (simp add: room_def PGSIZE_def unat_sub_if' word_size)
qed

lemma room_next: "PGROUNDDOWN va + PGSIZE = va + of_nat (room va)"
  by (simp add: room_def)

lemma room_off:
  assumes "i < room va"
  shows "unat (va - PGROUNDDOWN va + of_nat i) = unat (va - PGROUNDDOWN va) + i"
  using assms room_eq [of va] by (simp add: unat_word_ariths unat_of_nat64)

lemma room_page:
  assumes "i < room va"
  shows "PGROUNDDOWN (va + of_nat i) = PGROUNDDOWN va"
proof -
  have "unat ((va + of_nat i) - PGROUNDDOWN va) < 4096"
    using room_off [OF assms] room_eq [of va] assms by (simp add: algebra_simps)
  then show ?thesis using in_page_iff [OF page_aligned_PGROUNDDOWN] by blast
qed

lemma umem_room:
  "i < room va \<Longrightarrow> umem m pt (va + of_nat i) =
     (if upa m pt va = 0 then None else Some (m (upa m pt va + (va - PGROUNDDOWN va) + of_nat i)))"
  using upa_page [OF room_page] by (simp add: umem_def room_page algebra_simps)

section \<open>What the copy functions do to user memory\<close>

definition ubytes :: "memory \<Rightarrow> u64 \<Rightarrow> u64 \<Rightarrow> nat \<Rightarrow> byte option list" where
  "ubytes m pt va n = map (\<lambda>i. umem m pt (va + of_nat i)) [0..<n]"

lemma length_ubytes [simp]: "length (ubytes m pt va n) = n"
  by (simp add: ubytes_def)

lemma ubytes_add: "ubytes m pt va (k + n) = ubytes m pt va k @ ubytes m pt (va + of_nat k) n"
proof -
  have "[0..<k + n] = [0..<k] @ map ((+) k) [0..<n]"
    using upt_add_eq_append [of 0 k n] map_add_upt [of k n]
    by (metis (no_types, lifting) ext add.commute zero_le)
  then show ?thesis by (simp add: ubytes_def add.assoc)
qed

lemma ubytes_room:
  assumes "k \<le> room va"
  shows "ubytes m pt va k = (if upa m pt va = 0 then replicate k None
    else map Some (load_bytes m (upa m pt va + (va - PGROUNDDOWN va)) k))"
  using assms by (auto simp: ubytes_def load_bytes_def umem_room intro!: nth_equalityI)

lemma copyin_spec:
  assumes "ptinv s pt xs"
  shows "\<exists>r bs. copyin s pt va len = Inr (r, bs) \<and>
    (if None \<in> set (ubytes (mem s) pt va len) then r = -1
     else r = 0 \<and> map Some bs = ubytes (mem s) pt va len)"
  using assms
proof (induction s pt va len rule: copyin.induct)
  case (1 s pt va len)
  let ?p = "upa (mem s) pt va" and ?o = "va - PGROUNDDOWN va"
  have w: "walkaddr s pt (PGROUNDDOWN va) = Inr ?p"
    using walkaddr_upa [OF 1(2)] upa_page [OF PGROUNDDOWN_idem] by metis
  consider "len = 0" | "len > 0" "?p = 0" | "len > 0" "?p \<noteq> 0" by blast
  then show ?case
  proof cases
    case 1
    then show ?thesis by (simp add: copyin.simps ubytes_def)
  next
    case 2
    then have "None \<in> set (ubytes (mem s) pt va (1 + (len - 1)))"
      unfolding ubytes_add using ubytes_room [of 1 va] room_pos [of va] by simp
    with 2 w show ?thesis by (simp add: copyin.simps Let_def)
  next
    case 3
    define n where "n = (if room va > len then len else room va)"
    have n: "n \<le> room va" "n \<le> len" by (simp_all add: n_def)
    obtain r bs where r: "copyin s pt (PGROUNDDOWN va + PGSIZE) (len - n) = Inr (r, bs)"
      "if None \<in> set (ubytes (mem s) pt (PGROUNDDOWN va + PGSIZE) (len - n)) then r = -1
       else r = 0 \<and> map Some bs = ubytes (mem s) pt (PGROUNDDOWN va + PGSIZE) (len - n)"
      using 1(1) [OF 3(1) refl w 3(2) refl n_def [unfolded room_def] 1(2)] by blast
    have c: "copyin s pt va len = Inr (r, load_bytes (mem s) (?p + ?o) n @ bs)"
      using 3 w r(1) by (subst copyin.simps) (simp add: Let_def flip: room_def n_def)
    have "ubytes (mem s) pt (PGROUNDDOWN va + PGSIZE) (len - n) = ubytes (mem s) pt (va + of_nat n) (len - n)"
      by (auto simp: n_def room_next ubytes_def)
    moreover have "ubytes (mem s) pt va len = map Some (load_bytes (mem s) (?p + ?o) n) @
        ubytes (mem s) pt (va + of_nat n) (len - n)"
      using ubytes_add [of "mem s" pt va n "len - n"] ubytes_room [OF n(1)] 3(2) n(2) by simp
    ultimately show ?thesis using c r(2) by auto
  qed
qed

text \<open>bs is a NUL-terminated string of at most mx bytes in user memory at va.\<close>

definition ustr :: "memory \<Rightarrow> u64 \<Rightarrow> u64 \<Rightarrow> nat \<Rightarrow> byte list \<Rightarrow> bool" where
  "ustr m pt va mx bs \<longleftrightarrow> bs \<noteq> [] \<and> last bs = 0 \<and> 0 \<notin> set (butlast bs) \<and> length bs \<le> mx \<and>
     ubytes m pt va (length bs) = map Some bs"

lemma take_ubytes: "take k (ubytes m pt va n) = ubytes m pt va (min k n)"
  by (simp add: ubytes_def take_map min_def)

lemma ustr_append:
  assumes "0 \<notin> set bs" "length bs = n" "n \<le> mx" "ubytes m pt va n = map Some bs"
  shows "ustr m pt va mx cs \<longleftrightarrow> (\<exists>cs'. cs = bs @ cs' \<and> ustr m pt (va + of_nat n) (mx - n) cs')"
proof
  assume u: "ustr m pt va mx cs"
  show "\<exists>cs'. cs = bs @ cs' \<and> ustr m pt (va + of_nat n) (mx - n) cs'"
  proof (cases "length cs \<le> n")
    case True
    then have "map Some (take (length cs) bs) = map Some cs"
      using u take_ubytes [of "length cs" m pt va n] assms(4)
      by (simp add: ustr_def take_map min_def)
    then have "cs = take (length cs) bs" by (simp add: inj_map_eq_map)
    then have "last cs \<in> set bs" using u by (metis in_set_takeD last_in_set ustr_def)
    then show ?thesis using u assms(1) by (simp add: ustr_def)
  next
    case False
    then obtain k where k: "length cs = n + k" "0 < k" by (metis less_imp_add_positive not_le)
    have "map Some cs = map Some bs @ ubytes m pt (va + of_nat n) k"
      using u assms(4) ubytes_add [of m pt va n k] by (simp add: ustr_def k)
    then have "map Some (take n cs) = map Some bs" "map Some (drop n cs) = ubytes m pt (va + of_nat n) k"
      using assms(2) by (simp_all add: take_map [symmetric] drop_map [symmetric])
    then have bs: "take n cs = bs" "ubytes m pt (va + of_nat n) k = map Some (drop n cs)"
      by (simp_all add: inj_map_eq_map)
    obtain cs' where cs: "cs = bs @ cs'" using bs(1) by (metis append_take_drop_id)
    then show ?thesis using u bs(2) k assms(2) by (auto simp: ustr_def butlast_append)
  qed
next
  assume "\<exists>cs'. cs = bs @ cs' \<and> ustr m pt (va + of_nat n) (mx - n) cs'"
  then show "ustr m pt va mx cs"
    using assms ubytes_add [of m pt va n] by (auto simp: ustr_def butlast_append)
qed

lemma load_bytes_simps:
  "load_bytes m p 0 = []" "load_bytes m p (Suc n) = m p # load_bytes m (p + 1) n"
  by (simp_all add: load_bytes_def upt_conv_Cons map_Suc_upt [symmetric] algebra_simps del: upt_Suc)

lemma copyinstr_page_null:
  "copyinstr_page m p n = (bs, True) \<Longrightarrow>
     bs \<noteq> [] \<and> last bs = 0 \<and> 0 \<notin> set (butlast bs) \<and> length bs \<le> n \<and> load_bytes m p (length bs) = bs"
  by (induction m p n arbitrary: bs rule: copyinstr_page.induct)
    (auto simp: load_bytes_simps split: if_splits prod.splits)

lemma copyinstr_page_none:
  "copyinstr_page m p n = (bs, False) \<Longrightarrow> bs = load_bytes m p n \<and> 0 \<notin> set bs"
  by (induction m p n arbitrary: bs rule: copyinstr_page.induct)
    (auto simp: load_bytes_simps split: if_splits prod.splits)

lemma length_load_bytes [simp]: "length (load_bytes m p n) = n"
  by (simp add: load_bytes_def)

lemma copyinstr_spec:
  assumes "ptinv s pt xs"
  shows "\<exists>r bs. copyinstr s pt va mx = Inr (r, bs) \<and>
    (r = 0 \<and> ustr (mem s) pt va mx bs \<or> r = -1 \<and> (\<forall>cs. \<not> ustr (mem s) pt va mx cs))"
  using assms
proof (induction s pt va mx rule: copyinstr.induct)
  case (1 s pt va mx)
  let ?p = "upa (mem s) pt va" and ?o = "va - PGROUNDDOWN va"
  have w: "walkaddr s pt (PGROUNDDOWN va) = Inr ?p"
    using walkaddr_upa [OF 1(2)] upa_page [OF PGROUNDDOWN_idem] by metis
  define n where "n = (if room va > mx then mx else room va)"
  have n: "n \<le> room va" "n \<le> mx" by (simp_all add: n_def)
  obtain bs g where pg: "copyinstr_page (mem s) (?p + ?o) n = (bs, g)" by fastforce
  have step: "mx > 0 \<Longrightarrow> copyinstr s pt va mx = (if ?p = 0 then Inr (-1, [])
      else if g then Inr (0, bs)
      else kbind (copyinstr s pt (PGROUNDDOWN va + PGSIZE) (mx - n)) (\<lambda>(r, bs'). Inr (r, bs @ bs')))"
    using w pg by (subst copyinstr.simps) (simp add: Let_def flip: room_def n_def)
  consider "mx = 0" | "mx > 0" "?p = 0" | "mx > 0" "?p \<noteq> 0" g | "mx > 0" "?p \<noteq> 0" "\<not> g" by blast
  then show ?case
  proof cases
    case 1
    then show ?thesis by (auto simp: copyinstr.simps ustr_def)
  next
    case 2
    have "\<not> ustr (mem s) pt va mx cs" for cs
    proof
      assume "ustr (mem s) pt va mx cs"
      then obtain c cs' where "ubytes (mem s) pt va (1 + length cs') = map Some (c # cs')"
        by (cases cs) (auto simp: ustr_def)
      then show False
        unfolding ubytes_add using ubytes_room [of 1 va "mem s" pt] room_pos [of va] 2(2) by simp
    qed
    then show ?thesis using 2 step by simp
  next
    case 3
    then have b: "bs \<noteq> []" "last bs = 0" "0 \<notin> set (butlast bs)" "length bs \<le> n"
      "load_bytes (mem s) (?p + ?o) (length bs) = bs"
      using copyinstr_page_null pg by auto
    then have "ustr (mem s) pt va mx bs"
      using ubytes_room [of "length bs" va] n 3(2) by (simp add: ustr_def)
    then show ?thesis using 3 step by simp
  next
    case 4
    then have b: "bs = load_bytes (mem s) (?p + ?o) n" "0 \<notin> set bs"
      using copyinstr_page_none pg by auto
    then have ub: "ubytes (mem s) pt va n = map Some bs" "length bs = n"
      using ubytes_room [OF n(1)] 4(2) by simp_all
    have next0: "PGROUNDDOWN va + PGSIZE = va + of_nat n \<or> mx - n = 0"
      by (simp add: n_def room_next)
    have us: "ustr (mem s) pt (PGROUNDDOWN va + PGSIZE) (mx - n) = ustr (mem s) pt (va + of_nat n) (mx - n)"
      using next0 by (auto simp: fun_eq_iff ustr_def)
    obtain r bs' where r: "copyinstr s pt (PGROUNDDOWN va + PGSIZE) (mx - n) = Inr (r, bs')"
      "r = 0 \<and> ustr (mem s) pt (va + of_nat n) (mx - n) bs' \<or>
       r = -1 \<and> (\<forall>cs. \<not> ustr (mem s) pt (va + of_nat n) (mx - n) cs)"
      using 1(1) [OF 4(1) refl w 4(2) refl n_def [unfolded room_def] pg [symmetric] 4(3) 1(2)] us by auto
    then show ?thesis using step 4 ustr_append [OF b(2) ub(2) n(2) ub(1)] by auto
  qed
qed

section \<open>Address spaces\<close>

text \<open>
  The user pages of an address space are pages of the allocator's range that are neither free nor
  part of the page table, and no page is mapped twice.
\<close>

definition uspace_inv :: "kmem \<Rightarrow> u64 \<Rightarrow> u64 list \<Rightarrow> bool" where
  "uspace_inv s pt xs \<longleftrightarrow> ptinv s pt xs \<and>
     (\<forall>va. upa (mem s) pt va \<noteq> 0 \<longrightarrow>
        page_ok s (upa (mem s) pt va) \<and> outside (mem s) pt xs (upa (mem s) pt va)) \<and>
     (\<forall>va va'. upa (mem s) pt va \<noteq> 0 \<longrightarrow> upa (mem s) pt va = upa (mem s) pt va' \<longrightarrow>
        PGROUNDDOWN va = PGROUNDDOWN va')"

lemma uspace_invD:
  assumes "uspace_inv s pt xs"
  shows uspace_ptinv: "ptinv s pt xs"
    and uspace_page: "upa (mem s) pt va \<noteq> 0 \<Longrightarrow>
      page_ok s (upa (mem s) pt va) \<and> outside (mem s) pt xs (upa (mem s) pt va)"
    and uspace_inj: "upa (mem s) pt va \<noteq> 0 \<Longrightarrow> upa (mem s) pt va = upa (mem s) pt va' \<Longrightarrow>
      PGROUNDDOWN va = PGROUNDDOWN va'"
  using assms unfolding uspace_inv_def by blast+

text \<open>A change of one page q that is not a page-table page keeps the page table.\<close>

lemma page_change:
  assumes inv: "ptinv s pt xs" and q: "\<forall>e \<le> 2. \<forall>va. pt_node (mem s) pt e va \<noteq> Some q"
    and same: "\<forall>p. p \<noteq> q \<longrightarrow> same_on_page (mem s) m' p"
  shows "e \<le> 2 \<Longrightarrow> pt_node m' pt e va = pt_node (mem s) pt e va"
    and "ptview m' pt = ptview (mem s) pt"
    and "kmem_inv s' xs' \<Longrightarrow> kend s' = kend s \<Longrightarrow> mem s' = m' \<Longrightarrow> set xs' \<subseteq> insert q (set xs) \<Longrightarrow>
      ptinv s' pt xs'"
proof -
  have node_ok: "p \<noteq> q \<and> page_aligned p" if "e \<le> 2" "pt_node (mem s) pt e va = Some p" for e va p
    using q ptinv_ok [OF inv that] that by (auto simp: page_ok_def)
  show node: "pt_node m' pt e va = pt_node (mem s) pt e va" if "e \<le> 2" for e va
    using that
  proof (induction e)
    case (Suc e)
    show ?case
    proof (cases "pt_node (mem s) pt e va")
      case (Some p)
      then show ?thesis
        using Suc node_ok [OF _ Some] pt_next_same_page [of "mem s" m' p] same by simp
    qed (use Suc in simp)
  qed simp
  show "ptview m' pt = ptview (mem s) pt"
  proof
    fix va
    show "ptview m' pt va = ptview (mem s) pt va"
    proof (cases "pt_node (mem s) pt 2 va")
      case (Some p)
      then show ?thesis
        using node_ok [OF _ Some] node [of 2 va] get64_slot_same_page [of "mem s" m' p] same
        by (simp add: ptview_def pt_leaf_def)
    qed (simp add: ptview_def pt_leaf_def node)
  qed
  assume s': "kmem_inv s' xs'" "kend s' = kend s" "mem s' = m'" "set xs' \<subseteq> insert q (set xs)"
  show "ptinv s' pt xs'"
    unfolding ptinv_def
  proof (intro conjI allI impI)
    fix d d' va va' p
    assume d: "d \<le> (2::nat)" and "pt_node (mem s') pt d va = Some p"
    then have p: "pt_node (mem s) pt d va = Some p" by (simp add: s'(3) node)
    then show "page_ok s' p" "p \<notin> set xs'"
      using ptinv_ok [OF inv d p] node_ok [OF d p] s'(2,4) by (auto simp: page_ok_def)
    assume d': "d' \<le> (2::nat)" and "pt_node (mem s') pt d' va' = Some p"
    then have p': "pt_node (mem s) pt d' va' = Some p" by (simp add: s'(3) node)
    show "d = d'" "pt_path d va = pt_path d va'" using ptinv_inj [OF inv d d' p p'] by auto
  qed (fact s'(1))
qed

lemma outside_change:
  assumes inv: "ptinv s pt xs" and q1: "outside (mem s) pt xs q"
    and q2: "\<forall>p. p \<noteq> q \<longrightarrow> same_on_page (mem s) m' p"
  shows "e \<le> 2 \<Longrightarrow> pt_node m' pt e va = pt_node (mem s) pt e va"
    and "ptview m' pt = ptview (mem s) pt"
    and "ptinv (s\<lparr>mem := m'\<rparr>) pt xs"
proof -
  have q: "\<forall>e \<le> 2. \<forall>va. pt_node (mem s) pt e va \<noteq> Some q" using q1 by (simp add: outside_def)
  note page = page_change [OF inv q q2]
  show "e \<le> 2 \<Longrightarrow> pt_node m' pt e va = pt_node (mem s) pt e va" by (rule page(1))
  show "ptview m' pt = ptview (mem s) pt" by (rule page(2))
  have "kmem_inv (s\<lparr>mem := m'\<rparr>) xs"
  proof (rule kmem_inv_frame [OF ptinv_kmem [OF inv]])
    fix x
    assume "x \<in> set xs"
    then have "x \<noteq> q" using q1 by (auto simp: outside_def)
    then show "same_on_page (mem s) (mem (s\<lparr>mem := m'\<rparr>)) x" using q2 by simp
  qed simp_all
  then show "ptinv (s\<lparr>mem := m'\<rparr>) pt xs" by (rule page(3)) auto
qed

lemma store_bytes_apply:
  assumes "length bs \<le> 2 ^ 64"
  shows "store_bytes m d bs x = (if unat (x - d) < length bs then bs ! unat (x - d) else m x)"
proof -
  have "fold (\<lambda>i m. m(d + of_nat i := bs ! i)) [0..<k] m x =
      (if unat (x - d) < k then bs ! unat (x - d) else m x)" if "k \<le> length bs" for k
    using that
  proof (induction k)
    case (Suc k)
    have "x = d + of_nat k \<longleftrightarrow> unat (x - d) = k"
      using Suc.prems assms eq_add_of_nat_iff [of k x d] by simp
    then show ?case using Suc by auto
  qed simp
  then show ?thesis by (simp add: store_bytes_def)
qed

lemma room_add_diff: "unat (x - va) < n \<Longrightarrow> n \<le> room va \<Longrightarrow> PGROUNDDOWN x = PGROUNDDOWN va"
  using room_page [of "unat (x - va)" va] by simp

lemma copyout_chunk:
  assumes inv: "uspace_inv s pt xs" and va: "upa (mem s) pt va \<noteq> 0" and len: "length bs \<le> room va"
    and m': "m' = store_bytes (mem s) (upa (mem s) pt va + (va - PGROUNDDOWN va)) bs"
  shows "uspace_inv (s\<lparr>mem := m'\<rparr>) pt xs" and "upa m' pt = upa (mem s) pt"
    and "umem m' pt x = (if unat (x - va) < length bs then Some (bs ! unat (x - va)) else umem (mem s) pt x)"
    and "q \<noteq> upa (mem s) pt va \<Longrightarrow> same_on_page (mem s) m' q"
proof -
  let ?p = "upa (mem s) pt va" and ?o = "va - PGROUNDDOWN va"
  have p: "page_ok s ?p" "outside (mem s) pt xs ?p" using uspace_page [OF inv va] by auto
  have apply': "m' y = (if unat (y - (?p + ?o)) < length bs then bs ! unat (y - (?p + ?o)) else mem s y)" for y
    unfolding m' using len room_eq [of va] by (subst store_bytes_apply) auto
  show same: "same_on_page (mem s) m' q" if "q \<noteq> ?p" for q
    unfolding same_on_page_def
  proof (intro allI impI)
    fix y
    assume "PGROUNDDOWN y = q"
    moreover have "PGROUNDDOWN y = ?p" if y: "unat (y - (?p + ?o)) < length bs"
    proof -
      have "unat (?o + of_nat (unat (y - (?p + ?o)))) < 4096"
        using room_off [of "unat (y - (?p + ?o))" va] y len room_eq [of va] by simp
      then show ?thesis using in_page_iff [of ?p y] p(1) by (simp add: page_ok_def)
    qed
    ultimately show "mem s y = m' y" using that apply' by auto
  qed
  have "\<forall>q. q \<noteq> ?p \<longrightarrow> same_on_page (mem s) m' q" using same by blast
  note change = outside_change [OF uspace_ptinv [OF inv] p(2) this]
  show up: "upa m' pt = upa (mem s) pt" unfolding upa_def [abs_def] change(2) by (rule refl)
  show "uspace_inv (s\<lparr>mem := m'\<rparr>) pt xs"
    unfolding uspace_inv_def
  proof (intro conjI allI impI)
    fix va va'
    assume "upa (mem (s\<lparr>mem := m'\<rparr>)) pt va \<noteq> 0"
    then have u: "upa (mem s) pt va \<noteq> 0" by (simp add: up)
    then show "page_ok (s\<lparr>mem := m'\<rparr>) (upa (mem (s\<lparr>mem := m'\<rparr>)) pt va)"
      "outside (mem (s\<lparr>mem := m'\<rparr>)) pt xs (upa (mem (s\<lparr>mem := m'\<rparr>)) pt va)"
      using uspace_page [OF inv u] by (simp_all add: up page_ok_def outside_def change(1))
    assume "upa (mem (s\<lparr>mem := m'\<rparr>)) pt va = upa (mem (s\<lparr>mem := m'\<rparr>)) pt va'"
    then show "PGROUNDDOWN va = PGROUNDDOWN va'" using uspace_inj [OF inv u] by (simp add: up)
  qed (fact change(3))
  show "umem m' pt x = (if unat (x - va) < length bs then Some (bs ! unat (x - va)) else umem (mem s) pt x)"
  proof (cases "upa (mem s) pt x = ?p")
    case True
    then have "PGROUNDDOWN x = PGROUNDDOWN va" using uspace_inj [OF inv] va by metis
    then show ?thesis using True va apply' [of "?p + (x - PGROUNDDOWN x)"] by (simp add: umem_def up)
  next
    case False
    then have far: "\<not> unat (x - va) < length bs"
      using room_add_diff [OF _ len] upa_page by metis
    have "m' (upa (mem s) pt x + (x - PGROUNDDOWN x)) = mem s (upa (mem s) pt x + (x - PGROUNDDOWN x))"
      if "upa (mem s) pt x \<noteq> 0"
    proof -
      have "PGROUNDDOWN (upa (mem s) pt x + (x - PGROUNDDOWN x)) = upa (mem s) pt x"
        using in_page_iff [of "upa (mem s) pt x" "upa (mem s) pt x + (x - PGROUNDDOWN x)"]
          uspace_page [OF inv that] room_eq [of x] by (simp add: page_ok_def)
      then show ?thesis using same [OF False] unfolding same_on_page_def by metis
    qed
    then show ?thesis using far by (simp add: umem_def up)
  qed
qed

definition overwrite :: "(u64 \<rightharpoonup> byte) \<Rightarrow> u64 \<Rightarrow> byte list \<Rightarrow> (u64 \<rightharpoonup> byte)" where
  "overwrite um va bs = (\<lambda>x. if unat (x - va) < length bs then Some (bs ! unat (x - va)) else um x)"

lemma overwrite_Nil: "overwrite um va [] = um"
  by (simp add: overwrite_def)

lemma overwrite_split:
  assumes "n \<le> length bs" "length bs < 2 ^ 64"
  shows "overwrite (overwrite um va (take n bs)) (va + of_nat n) (drop n bs) = overwrite um va bs"
proof
  fix x
  have "\<not> unat (x - (va + of_nat n)) < length bs - n" if "unat (x - va) < n"
    using unat_diff_of_nat [of n "x - va"] that assms by (auto simp: diff_diff_eq)
  then show "overwrite (overwrite um va (take n bs)) (va + of_nat n) (drop n bs) x = overwrite um va bs x"
    using split_range [OF assms(1,2), of x va] assms(1)
    by (cases "unat (x - va) < n") (auto simp: overwrite_def)
qed

lemma ubytes_None_cong:
  "upa m' pt = upa m pt \<Longrightarrow> None \<in> set (ubytes m' pt va n) \<longleftrightarrow> None \<in> set (ubytes m pt va n)"
  by (auto simp: ubytes_def umem_def image_iff split: if_splits)

lemma copyout_spec:
  assumes "uspace_inv s pt xs" "length src < 2 ^ 64"
  shows "\<exists>r s'. copyout s pt va src = Inr (r, s') \<and> uspace_inv s' pt xs \<and>
    upa (mem s') pt = upa (mem s) pt \<and> kend s' = kend s \<and> freelist s' = freelist s \<and>
    (\<forall>q. q \<notin> range (upa (mem s) pt) \<longrightarrow> same_on_page (mem s) (mem s') q) \<and>
    (if None \<in> set (ubytes (mem s) pt va (length src)) then r = -1
     else r = 0 \<and> umem (mem s') pt = overwrite (umem (mem s) pt) va src)"
  using assms
proof (induction s pt va src rule: copyout.induct)
  case (1 s pt va src)
  note IH = 1(1) and inv = 1(2) and len = 1(3)
  let ?p = "upa (mem s) pt va" and ?o = "va - PGROUNDDOWN va"
  have w: "walkaddr s pt (PGROUNDDOWN va) = Inr ?p"
    using walkaddr_upa [OF uspace_ptinv [OF inv]] upa_page [OF PGROUNDDOWN_idem] by metis
  consider (nil) "src = []" | (unmapped) "length src > 0" "?p = 0" | (mapped) "length src > 0" "?p \<noteq> 0"
    by blast
  then show ?case
  proof cases
    case nil
    then show ?thesis using inv by (simp add: copyout.simps ubytes_def overwrite_def)
  next
    case unmapped
    then have "None \<in> set (ubytes (mem s) pt va (1 + (length src - 1)))"
      unfolding ubytes_add using ubytes_room [of 1 va] room_pos [of va] by simp
    with unmapped w inv show ?thesis by (simp add: copyout.simps Let_def)
  next
    case mapped
    define n where "n = (if room va > length src then length src else room va)"
    have n: "n \<le> room va" "n \<le> length src" by (simp_all add: n_def)
    define s1 where "s1 = s\<lparr>mem := store_bytes (mem s) (?p + ?o) (take n src)\<rparr>"
    have chunk: "uspace_inv s1 pt xs" "upa (mem s1) pt = upa (mem s) pt"
      "umem (mem s1) pt = overwrite (umem (mem s) pt) va (take n src)"
      "\<And>q. q \<noteq> ?p \<Longrightarrow> same_on_page (mem s) (mem s1) q"
      using copyout_chunk [OF inv mapped(2) _ refl, of "take n src"] n
      by (simp_all add: s1_def overwrite_def fun_eq_iff)
    have len': "length (drop n src) < 2 ^ 64" using len by simp
    obtain r s' where r: "copyout s1 pt (PGROUNDDOWN va + PGSIZE) (drop n src) = Inr (r, s')"
      "uspace_inv s' pt xs" "upa (mem s') pt = upa (mem s1) pt" "kend s' = kend s1" "freelist s' = freelist s1"
      "\<forall>q. q \<notin> range (upa (mem s1) pt) \<longrightarrow> same_on_page (mem s1) (mem s') q"
      "if None \<in> set (ubytes (mem s1) pt (PGROUNDDOWN va + PGSIZE) (length (drop n src))) then r = -1
       else r = 0 \<and> umem (mem s') pt = overwrite (umem (mem s1) pt) (PGROUNDDOWN va + PGSIZE) (drop n src)"
      using IH [OF mapped(1) refl w mapped(2) refl n_def [unfolded room_def] s1_def chunk(1) len'] by blast
    have c: "copyout s pt va src = Inr (r, s')"
      using mapped w r(1) by (subst copyout.simps) (simp add: Let_def s1_def flip: room_def n_def)
    have nx: "PGROUNDDOWN va + PGSIZE = va + of_nat n \<or> drop n src = []" by (simp add: n_def room_next)
    have none: "None \<in> set (ubytes (mem s) pt va (length src)) \<longleftrightarrow>
        None \<in> set (ubytes (mem s1) pt (PGROUNDDOWN va + PGSIZE) (length (drop n src)))"
      using ubytes_add [of "mem s" pt va n "length src - n"] ubytes_room [OF n(1)] mapped(2) n(2) nx
        ubytes_None_cong [OF chunk(2)] by (auto simp: ubytes_def)
    have "overwrite (umem (mem s1) pt) (PGROUNDDOWN va + PGSIZE) (drop n src) = overwrite (umem (mem s) pt) va src"
      using nx
    proof
      assume "drop n src = []"
      then show ?thesis using chunk(3) by (simp add: overwrite_Nil)
    qed (use overwrite_split [OF n(2) len] chunk(3) in simp)
    moreover have "same_on_page (mem s) (mem s') q" if "q \<notin> range (upa (mem s) pt)" for q
      using that chunk(2,4) r(6) by (metis rangeI same_on_page_trans)
    moreover have "kend s1 = kend s" "freelist s1 = freelist s" by (simp_all add: s1_def)
    ultimately show ?thesis using c r(2-5,7) none chunk(2) by auto
  qed
qed

end
