(* ===== verification/Xv6_Uvm.thy ===== *)
theory Xv6_Uvm
  imports Xv6_Vm
begin

text \<open>
  How uvmalloc, uvmdealloc, uvmunmap, uvmcopy and freewalk change the address space of a process:
  which user addresses are mapped, what they hold, and which pages are free.
\<close>

section \<open>Single pages\<close>

definition unused :: "kmem \<Rightarrow> u64 \<Rightarrow> u64 list \<Rightarrow> u64 \<Rightarrow> bool" where
  "unused s pt xs q \<longleftrightarrow> page_ok s q \<and> outside (mem s) pt xs q \<and> q \<notin> range (upa (mem s) pt)"

lemma page_ok_nonzero: "page_ok s q \<Longrightarrow> 0 < kend s \<Longrightarrow> q \<noteq> 0"
  by (auto simp: page_ok_def)

lemma uspace_kend: "uspace_inv s pt xs \<Longrightarrow> 0 < kend s"
  using ptinv_kmem [OF uspace_ptinv, of s pt xs] by (simp add: kmem_inv_def)

lemma uspace_inv_cong:
  assumes inv: "uspace_inv s pt xs" and "ptinv s' pt xs'" "kend s' = kend s"
    and up: "upa (mem s') pt = upa (mem s) pt"
    and out: "\<And>q. outside (mem s) pt xs q \<Longrightarrow> outside (mem s') pt xs' q"
  shows "uspace_inv s' pt xs'"
  unfolding uspace_inv_def up
proof (intro conjI allI impI)
  fix va va'
  assume u: "upa (mem s) pt va \<noteq> 0"
  then show "page_ok s' (upa (mem s) pt va)" "outside (mem s') pt xs' (upa (mem s) pt va)"
    using uspace_page [OF inv u] out assms(3) by (auto simp: page_ok_def)
  assume "upa (mem s) pt va = upa (mem s) pt va'"
  then show "PGROUNDDOWN va = PGROUNDDOWN va'" by (rule uspace_inj [OF inv u])
qed (fact assms(2))

lemma page_off: "page_aligned p \<Longrightarrow> PGROUNDDOWN (p + (x - PGROUNDDOWN x)) = p"
  using in_page_iff [of p "p + (x - PGROUNDDOWN x)"] room_eq [of x] by simp

lemma umem_same:
  assumes "upa m' pt = upa m pt"
    and "\<And>va. upa m pt va \<noteq> 0 \<Longrightarrow> same_on_page m m' (upa m pt va) \<and> page_aligned (upa m pt va)"
  shows "umem m' pt = umem m pt"
proof
  fix va
  have "PGROUNDDOWN (upa m pt va + (va - PGROUNDDOWN va)) = upa m pt va" if "upa m pt va \<noteq> 0"
    using page_off assms(2) [OF that] by blast
  then show "umem m' pt va = umem m pt va"
    using assms unfolding umem_def same_on_page_def by metis
qed

text \<open>
  What holds between two states of an address space when user memory has not changed: the map is
  the same, and so is every user page. It is what a failed operation leaves.
\<close>

definition uspace_same :: "kmem \<Rightarrow> kmem \<Rightarrow> u64 \<Rightarrow> bool" where
  "uspace_same s s' pt \<longleftrightarrow> ptview (mem s') pt = ptview (mem s) pt \<and>
     upa (mem s') pt = upa (mem s) pt \<and> umem (mem s') pt = umem (mem s) pt \<and> kend s' = kend s"

lemma pt_ext_uspace:
  assumes inv: "uspace_inv s pt xs" and ext: "pt_ext s s' pt xs xs'"
    and view: "ptview (mem s') pt = ptview (mem s) pt"
  shows "uspace_inv s' pt xs'" "uspace_same s s' pt"
    "unused s pt xs q \<Longrightarrow> unused s' pt xs' q \<and> same_on_page (mem s) (mem s') q"
proof -
  have up: "upa (mem s') pt = upa (mem s) pt" unfolding upa_def [abs_def] view by (rule refl)
  have ok: "page_ok s' q = page_ok s q" for q using pt_extD(2) [OF ext] by (simp add: page_ok_def)
  show "uspace_inv s' pt xs'"
    by (rule uspace_inv_cong [OF inv pt_extD(1,2) [OF ext] up]) (rule pt_extD(3) [OF ext])
  have "umem (mem s') pt = umem (mem s) pt"
    using uspace_page [OF inv] pt_extD(4) [OF ext] by (intro umem_same [OF up]) (auto simp: page_ok_def)
  then show "uspace_same s s' pt" using view up pt_extD(2) [OF ext] by (simp add: uspace_same_def)
  show "unused s pt xs q \<Longrightarrow> unused s' pt xs' q \<and> same_on_page (mem s) (mem s') q"
    using pt_extD(3,4) [OF ext] by (auto simp: unused_def up ok)
qed

lemma outside_change_uspace:
  assumes inv: "uspace_inv s pt xs" and q: "unused s pt xs q"
    and same: "\<forall>p. p \<noteq> q \<longrightarrow> same_on_page (mem s) m' p"
  shows "uspace_inv (s\<lparr>mem := m'\<rparr>) pt xs" "uspace_same s (s\<lparr>mem := m'\<rparr>) pt"
    "unused s pt xs p \<Longrightarrow> unused (s\<lparr>mem := m'\<rparr>) pt xs p"
proof -
  have out: "outside (mem s) pt xs q" using q by (simp add: unused_def)
  note change = outside_change [OF uspace_ptinv [OF inv] out same]
  have up: "upa m' pt = upa (mem s) pt" unfolding upa_def [abs_def] change(2) by (rule refl)
  have o: "outside m' pt xs p = outside (mem s) pt xs p" for p
    by (simp add: outside_def change(1))
  have ok: "page_ok (s\<lparr>mem := m'\<rparr>) p = page_ok s p" for p by (simp add: page_ok_def)
  show "uspace_inv (s\<lparr>mem := m'\<rparr>) pt xs"
    by (rule uspace_inv_cong [OF inv change(3)]) (simp_all add: up o)
  have "same_on_page (mem s) m' (upa (mem s) pt va)" for va
    using same q unfolding unused_def by (metis rangeI)
  then have "umem m' pt = umem (mem s) pt"
    using uspace_page [OF inv] by (intro umem_same [OF up]) (auto simp: page_ok_def)
  then show "uspace_same s (s\<lparr>mem := m'\<rparr>) pt" using up change(2) by (simp add: uspace_same_def)
  show "unused s pt xs p \<Longrightarrow> unused (s\<lparr>mem := m'\<rparr>) pt xs p"
    by (simp add: unused_def up o ok)
qed

lemma uspace_same_trans: "uspace_same s s1 pt \<Longrightarrow> uspace_same s1 s2 pt \<Longrightarrow> uspace_same s s2 pt"
  by (simp add: uspace_same_def)

lemma umem_change:
  assumes inv: "uspace_inv s pt xs" and up: "upa m' pt = upa (mem s) pt"
    and q: "q \<notin> range (upa (mem s) pt)" and same: "\<forall>p. p \<noteq> q \<longrightarrow> same_on_page (mem s) m' p"
  shows "umem m' pt = umem (mem s) pt"
proof (rule umem_same [OF up])
  fix va
  assume "upa (mem s) pt va \<noteq> 0"
  moreover have "upa (mem s) pt va \<noteq> q" using q by blast
  ultimately show "same_on_page (mem s) m' (upa (mem s) pt va) \<and> page_aligned (upa (mem s) pt va)"
    using same uspace_page [OF inv] by (simp add: page_ok_def)
qed

lemma uspace_kalloc:
  assumes inv: "uspace_inv s pt (y # ys)"
  obtains s1 where "kalloc s = (y, s1)" "y \<noteq> 0" "uspace_inv s1 pt ys" "uspace_same s s1 pt"
    "unused s1 pt ys y" "\<And>q. q \<noteq> y \<Longrightarrow> same_on_page (mem s) (mem s1) q"
proof -
  note pinv = uspace_ptinv [OF inv]
  obtain s1 where s1: "kalloc s = (y, s1)" "kmem_inv s1 ys" "kend s1 = kend s"
    "mem s1 = memset (mem s) y 5 4096"
    using kalloc_cons ptinv_kmem [OF pinv] by blast
  have y: "page_ok s y" "y \<notin> set ys" using ptinv_kmem [OF pinv] by (auto simp: kmem_inv_def)
  have node: "\<forall>e \<le> 2. \<forall>va. pt_node (mem s) pt e va \<noteq> Some y" using ptinv_ok [OF pinv] by fastforce
  have same: "\<forall>p. p \<noteq> y \<longrightarrow> same_on_page (mem s) (mem s1) p"
    using y(1) by (auto simp: s1(4) page_ok_def intro: same_on_page_sym [OF same_on_page_memset])
  note page = page_change [OF pinv node same]
  have pinv1: "ptinv s1 pt ys" by (rule page(3) [OF s1(2,3)]) auto
  have up: "upa (mem s1) pt = upa (mem s) pt" unfolding upa_def [abs_def] page(2) by (rule refl)
  have out: "outside (mem s1) pt ys q" if "outside (mem s) pt (y # ys) q" for q
    using that page(1) by (simp add: outside_def)
  have ry: "y \<notin> range (upa (mem s) pt)"
    using uspace_page [OF inv] page_ok_nonzero [OF y(1) uspace_kend [OF inv]] by (auto simp: outside_def)
  have um: "umem (mem s1) pt = umem (mem s) pt"
    by (rule umem_change [OF inv up ry same])
  show thesis
  proof (rule that [OF s1(1) page_ok_nonzero [OF y(1) uspace_kend [OF inv]]])
    show "uspace_inv s1 pt ys" by (rule uspace_inv_cong [OF inv pinv1 s1(3) up out])
    show "uspace_same s s1 pt" using page(2) up um s1(3) by (simp add: uspace_same_def)
    show "unused s1 pt ys y"
      using y node page(1) ry s1(3) by (simp add: unused_def outside_def up page_ok_def)
  qed (use same in blast)
qed

lemma uspace_kfree:
  assumes inv: "uspace_inv s pt xs" and q: "unused s pt xs q"
  obtains s1 where "kfree s q = Inr s1" "uspace_inv s1 pt (q # xs)" "uspace_same s s1 pt"
proof -
  note pinv = uspace_ptinv [OF inv]
  have q': "page_ok s q" "q \<notin> set xs" and node: "\<forall>e \<le> 2. \<forall>va. pt_node (mem s) pt e va \<noteq> Some q"
    and rq: "q \<notin> range (upa (mem s) pt)"
    using q by (auto simp: unused_def outside_def)
  obtain s1 where s1: "kfree s q = Inr s1" "kmem_inv s1 (q # xs)" "kend s1 = kend s"
    "\<And>p. p \<noteq> q \<Longrightarrow> same_on_page (mem s1) (mem s) p"
    using kfree_ok [OF ptinv_kmem [OF pinv] q'] by blast
  have same: "\<forall>p. p \<noteq> q \<longrightarrow> same_on_page (mem s) (mem s1) p" using s1(4) same_on_page_sym by blast
  note page = page_change [OF pinv node same]
  have pinv1: "ptinv s1 pt (q # xs)" by (rule page(3) [OF s1(2,3)]) auto
  have up: "upa (mem s1) pt = upa (mem s) pt" unfolding upa_def [abs_def] page(2) by (rule refl)
  have um: "umem (mem s1) pt = umem (mem s) pt"
    by (rule umem_change [OF inv up rq same])
  show thesis
  proof (rule that [OF s1(1)])
    show "uspace_inv s1 pt (q # xs)"
      unfolding uspace_inv_def up
    proof (intro conjI allI impI)
      fix va va'
      assume u: "upa (mem s) pt va \<noteq> 0"
      moreover have "upa (mem s) pt va \<noteq> q" using rq by blast
      ultimately show "page_ok s1 (upa (mem s) pt va)" "outside (mem s1) pt (q # xs) (upa (mem s) pt va)"
        using uspace_page [OF inv u] s1(3) by (simp_all add: page_ok_def outside_def page(1))
      assume "upa (mem s) pt va = upa (mem s) pt va'"
      then show "PGROUNDDOWN va = PGROUNDDOWN va'" by (rule uspace_inj [OF inv u])
    qed (fact pinv1)
    show "uspace_same s s1 pt" using page(2) up um s1(3) by (simp add: uspace_same_def)
  qed
qed

section \<open>Mapping and unmapping a user page\<close>

definition user_pte :: "u64 \<Rightarrow> bool" where
  "user_pte perm \<longleftrightarrow> perm AND PTE_U \<noteq> 0 \<and> perm < 1024"

lemma less_1024: "x < 1024 \<longleftrightarrow> take_bit 10 x = x" for x :: u64
  by (auto simp: word_unat_eq_iff take_bit_eq_mod unat_mod word_less_nat_alt mod_eq_self_iff_div_eq_0 div_eq_0_iff)

lemma or_less_1024: "f < 1024 \<Longrightarrow> g < 1024 \<Longrightarrow> f OR g < (1024 :: u64)"
  by (simp add: less_1024)

lemma and_1023: "x AND 1023 = take_bit 10 x" for x :: u64
  by (simp add: take_bit_eq_mask mask_eq_exp_minus_1)

lemma take_bit_PA2PTE: "take_bit 10 (PA2PTE pa) = 0"
  by (simp add: PA2PTE_def take_bit_push_bit)

lemma flags_or: "f < 1024 \<Longrightarrow> PTE_FLAGS (PA2PTE pa OR f) = f"
  by (simp add: PTE_FLAGS_def and_1023 take_bit_PA2PTE less_1024)

lemma flag_and:
  assumes "f < 1024" "g < 1024"
  shows "(PA2PTE pa OR f) AND g = f AND g"
proof -
  have "take_bit 10 ((PA2PTE pa OR f) AND g) = (PA2PTE pa OR f) AND g"
    using assms(2) less_1024 [of g] by (metis and.commute and.assoc take_bit_eq_mask)
  moreover have "take_bit 10 ((PA2PTE pa OR f) AND g) = f AND g"
    using assms by (simp add: less_1024 take_bit_PA2PTE)
  ultimately show ?thesis by simp
qed

lemma upa_pte:
  assumes "page_aligned pa" "user_pte perm"
  shows "(let e = PA2PTE pa OR perm OR PTE_V in
     if e AND PTE_V = 0 \<or> e AND PTE_U = 0 then 0 else PTE2PA e) = pa"
proof -
  have f: "perm OR PTE_V < 1024" "PTE_V < 1024" "PTE_U < 1024"
    using assms(2) or_less_1024 by (auto simp: user_pte_def PTE_V_def PTE_U_def)
  have "(perm OR PTE_V) AND PTE_V = PTE_V" by (rule or_PTE_V)
  moreover have "(perm OR PTE_V) AND PTE_U = perm AND PTE_U"
    by (simp add: bit.conj_disj_distrib2 PTE_V_def PTE_U_def)
  ultimately show ?thesis
    using assms f by (simp add: Let_def flag_and PTE2PA_PA2PTE user_pte_def) (simp add: PTE_V_def)
qed

lemma mappages_page:
  assumes "page_aligned a"
  shows "mappages s pt a PGSIZE pa perm = mappages_loop s pt a a pa perm"
proof -
  have "PGROUNDDOWN (a + PGSIZE - 1) = a"
    using in_page_iff [OF assms, of "a + PGSIZE - 1"] by (simp add: PGSIZE_def)
  then show ?thesis using assms by (simp add: mappages_def PGROUNDDOWN_aligned) (simp add: PGSIZE_def)
qed

lemma mapped_page_same:
  assumes inv: "uspace_inv s pt xs" and ext: "pt_ext s s' pt xs xs'" and u: "upa (mem s) pt x \<noteq> 0"
  shows "mem s' (upa (mem s) pt x + (x - PGROUNDDOWN x)) = mem s (upa (mem s) pt x + (x - PGROUNDDOWN x))"
proof -
  have "PGROUNDDOWN (upa (mem s) pt x + (x - PGROUNDDOWN x)) = upa (mem s) pt x"
    using page_off uspace_page [OF inv u] by (simp add: page_ok_def)
  then show ?thesis
    using pt_extD(4) [OF ext] uspace_page [OF inv u] unfolding same_on_page_def by metis
qed

lemma uspace_map:
  assumes inv: "uspace_inv s pt xs" and q: "unused s pt xs q" and a: "page_aligned a" "a < MAXVA"
    and un: "ptview (mem s) pt a AND PTE_V = 0" and perm: "user_pte perm"
  obtains (full) s' xs' where "mappages s pt a PGSIZE q perm = Inr (-1, s')" "uspace_inv s' pt xs'"
      "uspace_same s s' pt" "unused s' pt xs' q" "length xs < 2" "pt_ext s s' pt xs xs'"
      "ptview (mem s') pt = ptview (mem s) pt"
    | (mapped) s' xs' where "mappages s pt a PGSIZE q perm = Inr (0, s')" "uspace_inv s' pt xs'"
      "upa (mem s') pt = (\<lambda>x. if PGROUNDDOWN x = a then q else upa (mem s) pt x)"
      "umem (mem s') pt = (\<lambda>x. if PGROUNDDOWN x = a then Some (mem s (q + (x - a))) else umem (mem s) pt x)"
      "length xs \<le> length xs' + 2" "pt_ext s s' pt xs xs'"
      "ptview (mem s') pt = (\<lambda>x. if PGROUNDDOWN x = a then PA2PTE q OR perm OR PTE_V else ptview (mem s) pt x)"
proof (cases rule: mappages_turn [OF uspace_ptinv [OF inv] a un, of q perm, case_names full mapped])
  case (full s1 xs1)
  then show thesis
    using that(1) [of s1 xs1] pt_ext_uspace [OF inv full(2,3)] q mappages_page [OF a(1)] by simp
next
  case (mapped s1 xs1)
  have qok: "page_ok s q" "outside (mem s) pt xs q" "q \<notin> range (upa (mem s) pt)"
    using q by (auto simp: unused_def)
  then have q0: "q \<noteq> 0" using page_ok_nonzero uspace_kend [OF inv] by blast
  have up: "upa (mem s1) pt = (\<lambda>x. if PGROUNDDOWN x = a then q else upa (mem s) pt x)"
    unfolding upa_def [abs_def] mapped(4)
    using upa_pte [OF _ perm, of q] qok(1) by (auto simp: fun_eq_iff page_ok_def)
  show thesis
  proof (rule that(2) [of s1 xs1])
    show "mappages s pt a PGSIZE q perm = Inr (0, s1)" using mapped(1) [of a] mappages_page [OF a(1)] by simp
    show "uspace_inv s1 pt xs1"
      unfolding uspace_inv_def up
    proof (intro conjI allI impI)
      fix va va'
      let ?u = "\<lambda>x. if PGROUNDDOWN x = a then q else upa (mem s) pt x"
      assume u: "?u va \<noteq> 0"
      then show "page_ok s1 (?u va)" "outside (mem s1) pt xs1 (?u va)"
        using uspace_page [OF inv] qok pt_extD(2,3) [OF mapped(2)] by (auto simp: page_ok_def)
      assume "?u va = ?u va'"
      moreover have "upa (mem s) pt va \<noteq> q" "upa (mem s) pt va' \<noteq> q" using qok(3) by auto
      ultimately show "PGROUNDDOWN va = PGROUNDDOWN va'"
        using u uspace_inj [OF inv, of va va'] by (simp split: if_splits)
    qed (fact pt_extD(1) [OF mapped(2)])
    show "umem (mem s1) pt = (\<lambda>x. if PGROUNDDOWN x = a then Some (mem s (q + (x - a))) else umem (mem s) pt x)"
    proof
      fix x
      have "PGROUNDDOWN (q + (x - PGROUNDDOWN x)) = q"
        using page_off qok(1) by (simp add: page_ok_def)
      then have "mem s1 (q + (x - PGROUNDDOWN x)) = mem s (q + (x - PGROUNDDOWN x))"
        using pt_extD(4) [OF mapped(2) qok(2)] unfolding same_on_page_def by metis
      then show "umem (mem s1) pt x =
          (if PGROUNDDOWN x = a then Some (mem s (q + (x - a))) else umem (mem s) pt x)"
        using q0 mapped_page_same [OF inv mapped(2), of x] by (auto simp: umem_def up)
    qed
  qed (fact up mapped(2-4))+
qed

lemma upa_nonzero:
  assumes "upa m pt a \<noteq> 0"
  shows "a < MAXVA" "ptview m pt a AND PTE_V \<noteq> 0" "PTE_FLAGS (ptview m pt a) \<noteq> PTE_V"
    "PTE2PA (ptview m pt a) = upa m pt a"
proof -
  from assms have e: "ptview m pt a AND PTE_V \<noteq> 0" "ptview m pt a AND PTE_U \<noteq> 0"
    by (auto simp: upa_def Let_def)
  then show "ptview m pt a AND PTE_V \<noteq> 0" "PTE2PA (ptview m pt a) = upa m pt a"
    by (simp_all add: upa_def Let_def)
  show "a < MAXVA" using e(1) by (auto simp: ptview_def split: if_splits)
  show "PTE_FLAGS (ptview m pt a) \<noteq> PTE_V"
  proof
    assume "PTE_FLAGS (ptview m pt a) = PTE_V"
    then have "(ptview m pt a AND 1023) AND PTE_U = PTE_V AND PTE_U" by (simp add: PTE_FLAGS_def)
    then show False using e(2) by (simp add: and.assoc PTE_V_def PTE_U_def)
  qed
qed

lemma uspace_unmap:
  assumes inv: "uspace_inv s pt xs" and a: "page_aligned a" and q: "upa (mem s) pt a = q" "q \<noteq> 0"
  obtains s' where "\<And>e. a < e \<Longrightarrow> uvmunmap_loop s pt a e True = uvmunmap_loop s' pt (a + PGSIZE) e True"
    "uspace_inv s' pt (q # xs)" "kend s' = kend s"
    "upa (mem s') pt = (\<lambda>x. if PGROUNDDOWN x = a then 0 else upa (mem s) pt x)"
    "umem (mem s') pt = (\<lambda>x. if PGROUNDDOWN x = a then None else umem (mem s) pt x)"
    "ptview (mem s') pt = (\<lambda>x. if PGROUNDDOWN x = a then 0 else ptview (mem s) pt x)"
proof -
  note pinv = uspace_ptinv [OF inv] and ua = upa_nonzero [of "mem s" pt a, unfolded q(1), OF q(2)]
  have q': "page_ok s q" "q \<notin> set xs" and node: "\<forall>e \<le> 2. \<forall>va. pt_node (mem s) pt e va \<noteq> Some q"
    using uspace_page [OF inv, of a] q by (auto simp: outside_def)
  obtain slot p where w: "walk s pt a False = Inr (slot, s)" "slot \<noteq> 0" "slot = pte_slot p 0 a"
    "get64 (mem s) slot = ptview (mem s) pt a" "pt_node (mem s) pt 2 a = Some p"
    using walk_lookup [OF pinv ua(1)] ua(2) by auto
  obtain s1 where s1: "kfree s q = Inr s1" "kmem_inv s1 (q # xs)" "kend s1 = kend s"
    "\<And>p. p \<noteq> q \<Longrightarrow> same_on_page (mem s1) (mem s) p"
    using kfree_ok [OF ptinv_kmem [OF pinv] q'] by blast
  have same: "\<forall>p. p \<noteq> q \<longrightarrow> same_on_page (mem s) (mem s1) p" using s1(4) same_on_page_sym by blast
  note page = page_change [OF pinv node same]
  have pinv1: "ptinv s1 pt (q # xs)" by (rule page(3) [OF s1(2,3)]) auto
  define s2 where "s2 = s1\<lparr>mem := put64 (mem s1) (pte_slot p 0 a) 0\<rparr>"
  have p1: "pt_node (mem s1) pt 2 a = Some p" using w(5) page(1) by simp
  note ext = pt_leaf_put64(1) [OF pinv1 p1 s2_def]
  have view: "ptview (mem s2) pt = (\<lambda>x. if PGROUNDDOWN x = a then 0 else ptview (mem s) pt x)"
    using ptview_put64 [OF pinv1 p1 ua(1) s2_def] page(2) a by (simp add: PGROUNDDOWN_aligned cong: if_cong)
  have up: "upa (mem s2) pt = (\<lambda>x. if PGROUNDDOWN x = a then 0 else upa (mem s) pt x)"
    unfolding upa_def [abs_def] view by (auto simp: fun_eq_iff)
  have other: "outside (mem s1) pt (q # xs) (upa (mem s) pt x) \<and> upa (mem s) pt x \<noteq> q"
    if "PGROUNDDOWN x \<noteq> a" "upa (mem s) pt x \<noteq> 0" for x
  proof -
    have "upa (mem s) pt x \<noteq> q" using uspace_inj [OF inv that(2), of a] that(1) q a PGROUNDDOWN_aligned by metis
    then show ?thesis using uspace_page [OF inv that(2)] page(1) by (simp add: outside_def)
  qed
  show thesis
  proof (rule that [of s2])
    show "uvmunmap_loop s pt a e True = uvmunmap_loop s2 pt (a + PGSIZE) e True" if "a < e" for e
      using that w ua s1(1) by (subst uvmunmap_loop.simps) (simp add: s2_def Let_def)
    show "uspace_inv s2 pt (q # xs)"
      unfolding uspace_inv_def up
    proof (intro conjI allI impI)
      fix va va'
      let ?u = "\<lambda>x. if PGROUNDDOWN x = a then 0 else upa (mem s) pt x"
      assume u: "?u va \<noteq> 0"
      then have v: "PGROUNDDOWN va \<noteq> a" "upa (mem s) pt va \<noteq> 0" by (auto split: if_splits)
      then show "page_ok s2 (?u va)" "outside (mem s2) pt (q # xs) (?u va)"
        using uspace_page [OF inv v(2)] other [OF v] pt_extD(2,3) [OF ext] s1(3) by (auto simp: page_ok_def)
      assume "?u va = ?u va'"
      then show "PGROUNDDOWN va = PGROUNDDOWN va'"
        using v uspace_inj [OF inv v(2), of va'] by (simp split: if_splits)
    qed (fact pt_extD(1) [OF ext])
    show "umem (mem s2) pt = (\<lambda>x. if PGROUNDDOWN x = a then None else umem (mem s) pt x)"
    proof
      fix x
      have "mem s2 (upa (mem s) pt x + (x - PGROUNDDOWN x)) = mem s (upa (mem s) pt x + (x - PGROUNDDOWN x))"
        if x: "PGROUNDDOWN x \<noteq> a" "upa (mem s) pt x \<noteq> 0"
      proof -
        have "same_on_page (mem s) (mem s2) (upa (mem s) pt x)"
          using other [OF x] same pt_extD(4) [OF ext] same_on_page_trans by metis
        moreover have "PGROUNDDOWN (upa (mem s) pt x + (x - PGROUNDDOWN x)) = upa (mem s) pt x"
          using page_off uspace_page [OF inv x(2)] by (simp add: page_ok_def)
        ultimately show ?thesis unfolding same_on_page_def by metis
      qed
      then show "umem (mem s2) pt x = (if PGROUNDDOWN x = a then None else umem (mem s) pt x)"
        by (simp add: umem_def up)
    qed
  qed (use s1(3) up view in \<open>simp_all add: s2_def\<close>)
qed

section \<open>Ranges of pages\<close>

lemma unmap_loop_spec:
  assumes "uspace_inv s pt xs" "page_aligned a" "unat a + 4096 * n \<le> 2 ^ 38"
    and "\<forall>x. in_range a n x \<longrightarrow> upa (mem s) pt x \<noteq> 0"
  shows "\<exists>s' ys. uvmunmap_loop s pt a (a + of_nat n * PGSIZE) True = Inr s' \<and>
    uspace_inv s' pt (ys @ xs) \<and> length ys = n \<and> set ys = upa (mem s) pt ` {x. in_range a n x} \<and>
    kend s' = kend s \<and>
    upa (mem s') pt = (\<lambda>x. if in_range a n x then 0 else upa (mem s) pt x) \<and>
    umem (mem s') pt = (\<lambda>x. if in_range a n x then None else umem (mem s) pt x) \<and>
    ptview (mem s') pt = (\<lambda>x. if in_range a n x then 0 else ptview (mem s) pt x)"
  using assms
proof (induction n arbitrary: s xs a)
  case 0
  then show ?case by (simp add: uvmunmap_loop.simps)
next
  case (Suc n s xs a)
  note st = aligned_step [OF Suc.prems(2,3)]
  have rng: "in_range a (Suc n) x \<longleftrightarrow> PGROUNDDOWN x = a \<or> in_range (a + PGSIZE) n x" for x
    using in_range_Suc [OF Suc.prems(2)] Suc.prems(3) by simp
  have out: "\<not> (PGROUNDDOWN x = a \<and> in_range (a + PGSIZE) n x)" for x
    using in_page_iff [OF Suc.prems(2), of x] unat_diff_of_nat [of 4096 "x - a"] Suc.prems(3)
    by (auto simp: in_range_def PGSIZE_def diff_diff_eq)
  have q0: "upa (mem s) pt a \<noteq> 0" using Suc.prems(4) rng PGROUNDDOWN_aligned [OF Suc.prems(2)] by metis
  obtain s1 where s1: "\<And>e. a < e \<Longrightarrow> uvmunmap_loop s pt a e True = uvmunmap_loop s1 pt (a + PGSIZE) e True"
    "uspace_inv s1 pt (upa (mem s) pt a # xs)" "kend s1 = kend s"
    "upa (mem s1) pt = (\<lambda>x. if PGROUNDDOWN x = a then 0 else upa (mem s) pt x)"
    "umem (mem s1) pt = (\<lambda>x. if PGROUNDDOWN x = a then None else umem (mem s) pt x)"
    "ptview (mem s1) pt = (\<lambda>x. if PGROUNDDOWN x = a then 0 else ptview (mem s) pt x)"
    by (rule uspace_unmap [OF Suc.prems(1,2) refl q0]) (rule that)
  have mapped: "upa (mem s1) pt x = upa (mem s) pt x" if "in_range (a + PGSIZE) n x" for x
    using that out [of x] by (simp add: s1(4))
  then have "\<forall>x. in_range (a + PGSIZE) n x \<longrightarrow> upa (mem s1) pt x \<noteq> 0"
    using Suc.prems(4) rng by metis
  from Suc.IH [OF s1(2) st(1,2) this] obtain s' ys where r:
    "uvmunmap_loop s1 pt (a + PGSIZE) (a + PGSIZE + of_nat n * PGSIZE) True = Inr s'"
    "uspace_inv s' pt (ys @ upa (mem s) pt a # xs)" "length ys = n"
    "set ys = upa (mem s1) pt ` {x. in_range (a + PGSIZE) n x}" "kend s' = kend s1"
    "upa (mem s') pt = (\<lambda>x. if in_range (a + PGSIZE) n x then 0 else upa (mem s1) pt x)"
    "umem (mem s') pt = (\<lambda>x. if in_range (a + PGSIZE) n x then None else umem (mem s1) pt x)"
    "ptview (mem s') pt = (\<lambda>x. if in_range (a + PGSIZE) n x then 0 else ptview (mem s1) pt x)"
    by blast
  have set: "set (ys @ [upa (mem s) pt a]) = upa (mem s) pt ` {x. in_range a (Suc n) x}"
  proof -
    have "upa (mem s1) pt ` {x. in_range (a + PGSIZE) n x} = upa (mem s) pt ` {x. in_range (a + PGSIZE) n x}"
      by (rule image_cong [OF refl]) (simp add: mapped)
    moreover have "upa (mem s) pt ` {x. PGROUNDDOWN x = a} = {upa (mem s) pt a}"
    proof -
      have "upa (mem s) pt x = upa (mem s) pt a" if "PGROUNDDOWN x = a" for x
        using upa_page [of x a] PGROUNDDOWN_aligned [OF Suc.prems(2)] that by simp
      then have "upa (mem s) pt ` {x. PGROUNDDOWN x = a} = (\<lambda>_. upa (mem s) pt a) ` {x. PGROUNDDOWN x = a}"
        by (intro image_cong [OF refl]) blast
      then show ?thesis using PGROUNDDOWN_aligned [OF Suc.prems(2)] by blast
    qed
    moreover have "{x. in_range a (Suc n) x} = {x. PGROUNDDOWN x = a} \<union> {x. in_range (a + PGSIZE) n x}"
      unfolding rng by (rule Collect_disj_eq)
    ultimately show ?thesis unfolding r(4) set_append by (simp add: image_Un)
  qed
  have "uvmunmap_loop s pt a (a + of_nat (Suc n) * PGSIZE) True = Inr s'"
    using s1(1) [OF st(3)] r(1) unfolding st(4) by simp
  moreover have "uspace_inv s' pt ((ys @ [upa (mem s) pt a]) @ xs)" using r(2) by simp
  moreover have "upa (mem s') pt = (\<lambda>x. if in_range a (Suc n) x then 0 else upa (mem s) pt x)"
    "umem (mem s') pt = (\<lambda>x. if in_range a (Suc n) x then None else umem (mem s) pt x)"
    "ptview (mem s') pt = (\<lambda>x. if in_range a (Suc n) x then 0 else ptview (mem s) pt x)"
    unfolding rng r(6-8) s1(4-6) by (rule ext, simp)+
  moreover have "kend s' = kend s" "length (ys @ [upa (mem s) pt a]) = Suc n" using r(3,5) s1(3) by simp_all
  ultimately show ?case using set by blast
qed

section \<open>An empty address space\<close>

lemma uvmcreate_spec:
  assumes inv: "kmem_inv s (y # ys)"
  shows "\<exists>s'. uvmcreate s = (y, s') \<and> uspace_inv s' y ys \<and> kend s' = kend s \<and>
    ptview (mem s') y = (\<lambda>_. 0) \<and> umem (mem s') y = Map.empty \<and>
    (\<forall>q. q \<noteq> y \<longrightarrow> same_on_page (mem s) (mem s') q)"
proof -
  obtain s1 where s1: "kalloc s = (y, s1)" "kmem_inv s1 ys" "kend s1 = kend s"
    "mem s1 = memset (mem s) y 5 4096"
    using kalloc_cons [OF inv] by blast
  have y: "page_ok s y" "y \<notin> set ys" "0 < kend s" using inv by (auto simp: kmem_inv_def)
  define s2 where "s2 = s1\<lparr>mem := memset (mem s1) y 0 4096\<rparr>"
  have same: "same_on_page (mem s1) (mem s2) q" "same_on_page (mem s) (mem s2) q" if "q \<noteq> y" for q
    using that y(1) s1(4) by (auto simp: s2_def page_ok_def
      intro: same_on_page_sym [OF same_on_page_memset]
        same_on_page_sym [OF same_on_page_trans [OF same_on_page_memset same_on_page_memset]])
  have zero: "pt_next (mem s2) y l va = None" for l va
    using get64_zero_page [of y] y(1) by (simp add: pt_next_def s2_def page_ok_def)
  have none: "pt_node (mem s2) y (Suc d) va = None" for d va
    using pt_node_None [of 1 "Suc d" "mem s2" y va] zero by simp
  have node: "pt_node (mem s2) y d va = Some p \<Longrightarrow> d = 0 \<and> p = y" for d va p
    using none [of _ va] by (cases d) auto
  have view: "ptview (mem s2) y = (\<lambda>_. 0)"
    using none [of 1] by (simp add: ptview_def pt_leaf_def fun_eq_iff numeral_2_eq_2 del: pt_node.simps)
  have up: "upa (mem s2) y = (\<lambda>_. 0)" by (simp add: upa_def [abs_def] view)
  have "kmem_inv s2 ys"
  proof (rule kmem_inv_frame [OF s1(2)])
    fix x
    assume "x \<in> set ys"
    then have "x \<noteq> y" using y(2) by blast
    then show "same_on_page (mem s1) (mem s2) x" by (rule same(1))
  qed (simp_all add: s2_def)
  moreover have "page_ok s2 y" using y(1) s1(3) by (simp add: page_ok_def s2_def)
  moreover have "d = d' \<and> pt_path d va = pt_path d va'"
    if "pt_node (mem s2) y d va = Some p" "pt_node (mem s2) y d' va' = Some p" for d d' va va' p
    using node [OF that(1)] node [OF that(2)] by (simp add: pt_path_def)
  ultimately have "ptinv s2 y ys"
    using node y(2) unfolding ptinv_def by blast
  then have "uspace_inv s2 y ys" by (simp add: uspace_inv_def up)
  moreover have "uvmcreate s = (y, s2)"
    using s1(1) page_ok_nonzero [OF y(1,3)] by (simp add: uvmcreate_def s2_def)
  moreover have "umem (mem s2) y = Map.empty" by (simp add: umem_def [abs_def] up)
  ultimately show ?thesis using view same(2) s1(3) by (auto simp: s2_def)
qed

definition sample_pt :: u64 where "sample_pt = fst (uvmcreate sample_kmem)"

definition sample_uvm :: kmem where "sample_uvm = snd (uvmcreate sample_kmem)"

lemma sample_uvm: "uspace_inv sample_uvm sample_pt (tl sample_pages)"
  "ptview (mem sample_uvm) sample_pt = (\<lambda>_. 0)" "umem (mem sample_uvm) sample_pt = Map.empty"
  "kend sample_uvm = 0x87FF8000"
  using uvmcreate_spec [OF sample_kmem(3) [unfolded sample_pages_def]] sample_kmem(2)
  by (auto simp: sample_pt_def sample_uvm_def sample_pages_def)

section \<open>uvmdealloc and uvmalloc\<close>

lemma of_int_int_of_u64:
  assumes "unat w < 2 ^ 31"
  shows "of_int (int_of_u64 w) = w"
proof -
  have "int (unat w) < int (2 ^ 31)" using assms by (simp only: of_nat_less_iff)
  then have u: "uint w < 2 ^ 31" by simp
  then have "take_bit 32 (uint w) = uint w" by (simp add: take_bit_int_eq_self)
  moreover have "signed_take_bit 31 (uint w) = uint w"
    using u uint_ge_0 [of w] by (intro signed_take_bit_int_eq_self) (linarith, simp)
  ultimately have "int_of_u64 w = uint w"
    by (simp add: int_of_u64_def sint_uint unsigned_ucast_eq)
  then show ?thesis by simp
qed

lemma uvmdealloc_spec:
  assumes inv: "uspace_inv s pt xs" and sz: "newsz \<le> oldsz" "unat oldsz \<le> 2 ^ 38"
    and n: "n = (unat (PGROUNDUP oldsz) - unat (PGROUNDUP newsz)) div 4096"
    and mapped: "\<forall>x. in_range (PGROUNDUP newsz) n x \<longrightarrow> upa (mem s) pt x \<noteq> 0"
  shows "\<exists>s' ys. uvmdealloc s pt oldsz newsz = Inr (newsz, s') \<and> uspace_inv s' pt (ys @ xs) \<and>
    length ys = n \<and> set ys = upa (mem s) pt ` {x. in_range (PGROUNDUP newsz) n x} \<and> kend s' = kend s \<and>
    umem (mem s') pt = (\<lambda>x. if in_range (PGROUNDUP newsz) n x then None else umem (mem s) pt x) \<and>
    ptview (mem s') pt = (\<lambda>x. if in_range (PGROUNDUP newsz) n x then 0 else ptview (mem s) pt x)"
proof -
  let ?o = "PGROUNDUP oldsz" and ?n = "PGROUNDUP newsz"
  have le: "unat newsz \<le> unat oldsz" using sz(1) by (simp add: word_le_nat_alt)
  have uo: "unat ?o = (unat oldsz + 4095) div 4096 * 4096" using sz(2) by (intro unat_PGROUNDUP) simp
  have un: "unat ?n = (unat newsz + 4095) div 4096 * 4096" using sz(2) le by (intro unat_PGROUNDUP) simp
  have mono: "(unat newsz + 4095) div 4096 \<le> (unat oldsz + 4095) div 4096" using le by (intro div_le_mono) simp
  have "(unat oldsz + 4095) div 4096 \<le> (2 ^ 38 + 4095) div 4096" using sz(2) by (intro div_le_mono) simp
  then have top: "(unat oldsz + 4095) div 4096 \<le> 2 ^ 26" by simp
  have n': "unat ?n + 4096 * n = unat ?o" using uo un mono n by simp
  then have bound: "unat ?n + 4096 * n \<le> 2 ^ 38" using uo top by simp
  have al: "page_aligned ?n" by (simp add: PGROUNDUP_eq)
  show ?thesis
  proof (cases "?n < ?o")
    case True
    have "unat ((?o - ?n) div PGSIZE) = n"
      using True n by (simp add: unat_div PGSIZE_def unat_sub less_imp_le)
    moreover have "n < 2 ^ 31" using bound by simp
    ultimately have np: "of_int (int_of_u64 ((?o - ?n) div PGSIZE)) = (of_nat n :: u64)"
      using of_int_int_of_u64 [of "(?o - ?n) div PGSIZE"] by (metis of_nat_unat ucast_id)
    obtain s' ys where r: "uvmunmap_loop s pt ?n (?n + of_nat n * PGSIZE) True = Inr s'"
      "uspace_inv s' pt (ys @ xs)" "length ys = n" "set ys = upa (mem s) pt ` {x. in_range ?n n x}" "kend s' = kend s"
      "umem (mem s') pt = (\<lambda>x. if in_range ?n n x then None else umem (mem s) pt x)"
      "ptview (mem s') pt = (\<lambda>x. if in_range ?n n x then 0 else ptview (mem s) pt x)"
      using unmap_loop_spec [OF inv al bound mapped] by blast
    have "\<not> oldsz \<le> newsz" using True sz(1) by (metis less_irrefl order_antisym)
    then have "uvmdealloc s pt oldsz newsz = Inr (newsz, s')"
      using True r(1) np al by (simp add: uvmdealloc_def uvmunmap_def page_aligned_def Let_def)
    then show ?thesis using r(2-) by blast
  next
    case False
    then have n0: "n = 0" using n' by (simp add: word_less_nat_alt)
    have "uvmdealloc s pt oldsz newsz = Inr (newsz, s)"
      using False sz(1) by (auto simp: uvmdealloc_def)
    then show ?thesis using inv n0 by (intro exI [of _ s] exI [of _ "[]"]) simp
  qed
qed

lemma memset_page_zero:
  assumes inv: "uspace_inv s pt xs" and y: "unused s pt xs y" and s': "s' = s\<lparr>mem := memset (mem s) y 0 4096\<rparr>"
  shows "uspace_inv s' pt xs" "uspace_same s s' pt" "unused s' pt xs y"
    "PGROUNDDOWN x = a \<Longrightarrow> mem s' (y + (x - a)) = 0"
proof -
  have "\<forall>p. p \<noteq> y \<longrightarrow> same_on_page (mem s) (memset (mem s) y 0 4096) p"
    using y by (auto simp: unused_def page_ok_def intro: same_on_page_sym [OF same_on_page_memset])
  note out = outside_change_uspace [OF inv y this]
  show "uspace_inv s' pt xs" "uspace_same s s' pt" "unused s' pt xs y" unfolding s' using out y by blast+
  show "mem s' (y + (x - a)) = 0" if "PGROUNDDOWN x = a"
    using that room_eq(2) [of x] by (auto simp: s' memset_apply)
qed

text \<open>One turn of the loop of uvmalloc: the state in which it fails, or goes on.\<close>

lemma uvmalloc_turn:
  assumes inv: "uspace_inv s pt xs" and a: "page_aligned a" "a < MAXVA" "a < newsz"
    and un: "ptview (mem s) pt a AND PTE_V = 0" and perm: "user_pte (PTE_R OR PTE_U OR xperm)"
  obtains (full) s' xs' where "\<And>oldsz. uvmalloc_loop s pt a oldsz newsz xperm =
        kbind (uvmdealloc s' pt a oldsz) (\<lambda>(_, s). Inr (0, s))"
      "uspace_inv s' pt xs'" "uspace_same s s' pt" "length xs < 3"
    | (go) s' xs' where "\<And>oldsz. uvmalloc_loop s pt a oldsz newsz xperm =
        uvmalloc_loop s' pt (a + PGSIZE) oldsz newsz xperm" "uspace_inv s' pt xs'"
      "umem (mem s') pt = (\<lambda>x. if PGROUNDDOWN x = a then Some 0 else umem (mem s) pt x)"
      "\<And>x. PGROUNDDOWN x = a \<Longrightarrow> upa (mem s') pt x \<noteq> 0"
      "\<And>x. PGROUNDDOWN x \<noteq> a \<Longrightarrow> upa (mem s') pt x = upa (mem s) pt x"
      "\<And>x. PGROUNDDOWN x \<noteq> a \<Longrightarrow> ptview (mem s') pt x = ptview (mem s) pt x"
      "kend s' = kend s" "length xs \<le> length xs' + 3"
proof (cases xs)
  case Nil
  then have "kalloc s = (0, s)" using kalloc_empty ptinv_kmem [OF uspace_ptinv [OF inv]] by simp
  then show thesis using a(3) inv Nil
    by (intro full [of s xs]) (simp_all add: uvmalloc_loop.simps uspace_same_def)
next
  case (Cons y ys)
  obtain s1 where s1: "kalloc s = (y, s1)" "y \<noteq> 0" "uspace_inv s1 pt ys" "uspace_same s s1 pt" "unused s1 pt ys y"
    using uspace_kalloc [OF inv [unfolded Cons]] by metis
  define s2 where "s2 = s1\<lparr>mem := memset (mem s1) y 0 4096\<rparr>"
  note m = memset_page_zero [OF s1(3,5) s2_def]
  have same2: "uspace_same s s2 pt" using s1(4) m(2) by (rule uspace_same_trans)
  then have un2: "ptview (mem s2) pt a AND PTE_V = 0" using un by (simp add: uspace_same_def)
  have loop: "uvmalloc_loop s pt a oldsz newsz xperm =
      kbind (mappages s2 pt a PGSIZE y (PTE_R OR PTE_U OR xperm)) (\<lambda>(r, s).
        if r \<noteq> 0 then kbind (kfree s y) (\<lambda>s. kbind (uvmdealloc s pt a oldsz) (\<lambda>(_, s). Inr (0, s)))
        else uvmalloc_loop s pt (a + PGSIZE) oldsz newsz xperm)" for oldsz
    using s1(1,2) a(3) by (subst uvmalloc_loop.simps) (simp add: s2_def Let_def)
  show thesis
  proof (cases rule: uspace_map [OF m(1,3) a(1,2) un2 perm, case_names full' mapped])
    case (full' s3 xs3)
    obtain s4 where s4: "kfree s3 y = Inr s4" "uspace_inv s4 pt (y # xs3)" "uspace_same s3 s4 pt"
      using uspace_kfree [OF full'(2,4)] by metis
    show thesis
      using full'(5) Cons loop full'(1) s4 uspace_same_trans [OF same2 uspace_same_trans [OF full'(3) s4(3)]]
      by (intro full [of s4 "y # xs3"]) simp_all
  next
    case (mapped s3 xs3)
    have "\<forall>x. PGROUNDDOWN x = a \<longrightarrow> mem s2 (y + (x - a)) = 0" using m(4) by blast
    then show thesis
      using loop mapped(1,2,5) Cons same2 s1(2) pt_extD(2) [OF mapped(6)]
      by (intro go [of s3 xs3]) (simp_all add: mapped(3,4,7) uspace_same_def fun_eq_iff)
  qed
qed

lemma in_range_disjoint:
  assumes "page_aligned a" "unat a + 4096 * (k + n) \<le> 2 ^ 38"
  shows "in_range a (k + n) x \<longleftrightarrow> in_range a k x \<or> in_range (a + of_nat k * PGSIZE) n x"
    and "\<not> (in_range a k x \<and> in_range (a + of_nat k * PGSIZE) n x)"
proof -
  have k: "(of_nat k * PGSIZE :: u64) = of_nat (4096 * k)" by (simp add: PGSIZE_def)
  have d: "unat (x - (a + of_nat (4096 * k))) = (if 4096 * k \<le> unat (x - a) then unat (x - a) - 4096 * k
      else unat (x - a) + 2 ^ 64 - 4096 * k)"
    using unat_diff_of_nat [of "4096 * k" "x - a"] assms(2) by (simp add: diff_diff_eq)
  show "in_range a (k + n) x \<longleftrightarrow> in_range a k x \<or> in_range (a + of_nat k * PGSIZE) n x"
    "\<not> (in_range a k x \<and> in_range (a + of_nat k * PGSIZE) n x)"
    using assms(2) unfolding in_range_def k d by auto
qed

lemma unat_page_offset:
  "unat a + 4096 * k \<le> 2 ^ 38 \<Longrightarrow> unat (a + of_nat k * PGSIZE) = unat a + 4096 * k"
  by (simp add: PGSIZE_def unat_word_ariths unat_of_nat64)

lemma PGROUNDUP_aligned: "page_aligned a \<Longrightarrow> unat a \<le> 2 ^ 38 \<Longrightarrow> PGROUNDUP a = a"
  using unat_PGROUNDUP [of a] by (auto simp: word_unat_eq_iff page_aligned_unat mod_eq_0_iff_dvd elim!: dvdE)

lemma uvmalloc_loop_spec:
  assumes "uspace_inv s pt xs" "page_aligned b" "a = b + of_nat k * PGSIZE" "unat b + 4096 * (k + n) \<le> 2 ^ 38"
    and "unat newsz \<le> unat a + 4096 * n" "0 < n \<longrightarrow> unat a + 4096 * (n - 1) < unat newsz"
    and "user_pte (PTE_R OR PTE_U OR xperm)"
    and "\<forall>x. in_range a n x \<longrightarrow> ptview (mem s) pt x AND PTE_V = 0"
    and "\<forall>x. in_range b k x \<longrightarrow> upa (mem s) pt x \<noteq> 0"
  shows "\<exists>r s' xs'. uvmalloc_loop s pt a b newsz xperm = Inr (r, s') \<and> uspace_inv s' pt xs' \<and> kend s' = kend s \<and>
    (r = newsz \<and> umem (mem s') pt = (\<lambda>x. if in_range a n x then Some 0 else umem (mem s) pt x) \<or>
     r = 0 \<and> length xs < 3 * n \<and> umem (mem s') pt = (\<lambda>x. if in_range b k x then None else umem (mem s) pt x))"
  using assms
proof (induction n arbitrary: s xs a k)
  case 0
  then have "\<not> a < newsz" by (simp add: word_less_nat_alt)
  then show ?case using 0 by (auto simp: uvmalloc_loop.simps)
next
  case (Suc n s xs a k)
  note P = Suc.prems
  have ua: "unat a = unat b + 4096 * k" unfolding P(3) using P(4) by (intro unat_page_offset) simp
  have al: "page_aligned a" unfolding P(3) by (rule page_aligned_add [OF P(2)])
  have a: "a < MAXVA" "a < newsz" using ua P(4,6) by (simp_all add: word_less_nat_alt unat_MAXVA)
  have rng: "in_range a (Suc n) x \<longleftrightarrow> PGROUNDDOWN x = a \<or> in_range (a + PGSIZE) n x" for x
    using in_range_Suc [OF al] P(4) by simp
  have rngb: "in_range b (Suc k) x \<longleftrightarrow> in_range b k x \<or> PGROUNDDOWN x = a" for x
    using in_range_Suc_last [OF P(2)] P(3,4) by simp
  have dis: "\<not> (in_range b (Suc k) x \<and> in_range (a + PGSIZE) n x)" for x
    using in_range_disjoint(2) [OF P(2), of "Suc k" n x] P(3,4) by (simp add: algebra_simps)
  have un: "ptview (mem s) pt a AND PTE_V = 0" using P(8) rng PGROUNDDOWN_aligned [OF al] by metis
  show ?case
  proof (cases rule: uvmalloc_turn [OF P(1) al a un P(7), case_names full go])
    case (full s1 xs1)
    have n: "k = (unat (PGROUNDUP a) - unat (PGROUNDUP b)) div 4096"
      using PGROUNDUP_aligned [OF al] PGROUNDUP_aligned [OF P(2)] ua P(4) by simp
    have b: "PGROUNDUP b = b" using PGROUNDUP_aligned [OF P(2)] P(4) by simp
    obtain s' ys where d: "uvmdealloc s1 pt a b = Inr (b, s')" "uspace_inv s' pt (ys @ xs1)" "kend s' = kend s1"
      "umem (mem s') pt = (\<lambda>x. if in_range b k x then None else umem (mem s1) pt x)"
      using uvmdealloc_spec [OF full(2) _ _ n, unfolded b] ua P(4,9) full(3)
      by (auto simp: word_le_nat_alt uspace_same_def)
    have "uvmalloc_loop s pt a b newsz xperm = Inr (0, s')" using full(1) d(1) by simp
    then show ?thesis using d full(3,4) by (auto simp: uspace_same_def)
  next
    case (go s1 xs1)
    obtain r s' xs' where r: "uvmalloc_loop s1 pt (a + PGSIZE) b newsz xperm = Inr (r, s')" "uspace_inv s' pt xs'"
      "kend s' = kend s1"
      "r = newsz \<and> umem (mem s') pt = (\<lambda>x. if in_range (a + PGSIZE) n x then Some 0 else umem (mem s1) pt x) \<or>
       r = 0 \<and> length xs1 < 3 * n \<and> umem (mem s') pt = (\<lambda>x. if in_range b (Suc k) x then None else umem (mem s1) pt x)"
    proof (rule exE [OF Suc.IH [OF go(2) P(2), of "a + PGSIZE" "Suc k"]])
      show "a + PGSIZE = b + of_nat (Suc k) * PGSIZE" unfolding P(3) by (simp add: algebra_simps)
      have "unat (a + PGSIZE) = unat a + 4096" using ua P(4) by (simp add: PGSIZE_def unat_word_ariths)
      then show "unat newsz \<le> unat (a + PGSIZE) + 4096 * n"
        "0 < n \<longrightarrow> unat (a + PGSIZE) + 4096 * (n - 1) < unat newsz" using P(5,6) by (cases n; simp)+
      show "\<forall>x. in_range (a + PGSIZE) n x \<longrightarrow> ptview (mem s1) pt x AND PTE_V = 0"
        using P(8) rng rngb dis go(6) by metis
      show "\<forall>x. in_range b (Suc k) x \<longrightarrow> upa (mem s1) pt x \<noteq> 0" using P(9) rngb go(4,5) by metis
    qed (use P(4,7) that in \<open>simp_all, blast\<close>)
    have none: "umem (mem s) pt x = None" if "PGROUNDDOWN x = a" for x
      using P(8) rng that by (simp add: umem_def upa_def)
    from r(4) have "r = newsz \<and> umem (mem s') pt = (\<lambda>x. if in_range a (Suc n) x then Some 0 else umem (mem s) pt x) \<or>
        r = 0 \<and> length xs < 3 * Suc n \<and> umem (mem s') pt = (\<lambda>x. if in_range b k x then None else umem (mem s) pt x)"
    proof (elim disjE conjE)
      assume "r = newsz" "umem (mem s') pt = (\<lambda>x. if in_range (a + PGSIZE) n x then Some 0 else umem (mem s1) pt x)"
      then show ?thesis unfolding go(3) rng by auto
    next
      assume "r = 0" "length xs1 < 3 * n"
        "umem (mem s') pt = (\<lambda>x. if in_range b (Suc k) x then None else umem (mem s1) pt x)"
      then show ?thesis using go(8) none unfolding go(3) rngb by (auto simp: fun_eq_iff)
    qed
    then show ?thesis using r(1-3) go(1,7) by auto
  qed
qed

lemma uvmalloc_spec:
  assumes "uspace_inv s pt xs" "oldsz \<le> newsz" "unat newsz \<le> 2 ^ 38 - 4096"
    and "user_pte (PTE_R OR PTE_U OR xperm)"
    and n: "n = (unat (PGROUNDUP newsz) - unat (PGROUNDUP oldsz)) div 4096"
    and "\<forall>x. in_range (PGROUNDUP oldsz) n x \<longrightarrow> ptview (mem s) pt x AND PTE_V = 0"
  shows "\<exists>r s' xs'. uvmalloc s pt oldsz newsz xperm = Inr (r, s') \<and> uspace_inv s' pt xs' \<and>
    (r = newsz \<and> umem (mem s') pt = (\<lambda>x. if in_range (PGROUNDUP oldsz) n x then Some 0 else umem (mem s) pt x) \<or>
     r = 0 \<and> length xs < 3 * n \<and> umem (mem s') pt = umem (mem s) pt)"
proof -
  let ?b = "PGROUNDUP oldsz"
  have le: "unat oldsz \<le> unat newsz" using assms(2) by (simp add: word_le_nat_alt)
  have uo: "unat ?b = (unat oldsz + 4095) div 4096 * 4096" using assms(3) le by (intro unat_PGROUNDUP) simp
  have un: "unat (PGROUNDUP newsz) = (unat newsz + 4095) div 4096 * 4096" using assms(3) by (intro unat_PGROUNDUP) simp
  have mono: "(unat oldsz + 4095) div 4096 \<le> (unat newsz + 4095) div 4096" using le by (intro div_le_mono) simp
  then have n': "unat ?b + 4096 * n = unat (PGROUNDUP newsz)" using uo un n by simp
  have rnd: "unat newsz \<le> unat (PGROUNDUP newsz)" "unat (PGROUNDUP newsz) < unat newsz + 4096"
    unfolding un by linarith+
  then have lo: "0 < n \<longrightarrow> unat ?b + 4096 * (n - 1) < unat newsz" using n' by (cases n) simp_all
  have "page_aligned ?b" by (simp add: PGROUNDUP_eq)
  then show ?thesis
    using uvmalloc_loop_spec [OF assms(1), of ?b ?b 0 n newsz xperm] assms(2-4,6) n' rnd lo
    by (auto simp: uvmalloc_def not_less)
qed

text \<open>A user address space of two zeroed pages, built by uvmcreate and uvmalloc.\<close>

definition sample_user :: kmem where
  "sample_user = (case uvmalloc sample_uvm sample_pt 0 0x2000 PTE_W of Inr (r, s) \<Rightarrow> s | Inl _ \<Rightarrow> sample_uvm)"

lemma sample_user_alloc:
  "\<exists>xs. uvmalloc sample_uvm sample_pt 0 0x2000 PTE_W = Inr (0x2000, sample_user) \<and>
    uspace_inv sample_user sample_pt xs"
  "umem (mem sample_user) sample_pt = (\<lambda>x. if in_range 0 2 x then Some 0 else None)"
proof -
  have up: "PGROUNDUP 0x2000 = 0x2000" "PGROUNDUP 0 = 0" by (simp_all add: PGROUNDUP_def PGSIZE_def)
  have perm: "user_pte (PTE_R OR PTE_U OR PTE_W)" by (simp add: user_pte_def PTE_R_def PTE_U_def PTE_W_def)
  have len: "length (tl sample_pages) = 7" by (simp add: sample_pages_def)
  have n: "2 = (unat (PGROUNDUP 0x2000) - unat (PGROUNDUP 0)) div 4096" unfolding up by simp
  have un: "\<forall>x. in_range (PGROUNDUP 0) 2 x \<longrightarrow> ptview (mem sample_uvm) sample_pt x AND PTE_V = 0"
    by (simp add: sample_uvm(2))
  obtain r s' xs' where r: "uvmalloc sample_uvm sample_pt 0 0x2000 PTE_W = Inr (r, s')" "uspace_inv s' sample_pt xs'"
    "r = 0x2000 \<and> umem (mem s') sample_pt = (\<lambda>x. if in_range (PGROUNDUP 0) 2 x then Some 0
      else umem (mem sample_uvm) sample_pt x) \<or> r = 0 \<and> length (tl sample_pages) < 3 * 2 \<and>
      umem (mem s') sample_pt = umem (mem sample_uvm) sample_pt"
    using uvmalloc_spec [OF sample_uvm(1) _ _ perm n un] by (auto simp del: length_tl)
  then have r': "r = 0x2000" "umem (mem s') sample_pt = (\<lambda>x. if in_range 0 2 x then Some 0 else None)"
    using len by (auto simp: up sample_uvm(3))
  have s': "s' = sample_user" using r(1) by (simp add: sample_user_def)
  show "\<exists>xs. uvmalloc sample_uvm sample_pt 0 0x2000 PTE_W = Inr (0x2000, sample_user) \<and>
      uspace_inv sample_user sample_pt xs" using r(1,2) r'(1) s' by blast
  show "umem (mem sample_user) sample_pt = (\<lambda>x. if in_range 0 2 x then Some 0 else None)" using r'(2) s' by simp
qed

lemma sample_user_bytes: "k < 8192 \<Longrightarrow> ubytes (mem sample_user) sample_pt 0 k = replicate k (Some 0)"
  by (auto intro!: nth_equalityI simp: ubytes_def sample_user_alloc(2) in_range_def unat_of_nat64)

section \<open>Properties\<close>

text \<open>
  C16. mappages enters exactly the requested pages: with two free pages per page to map and no entry
  of the range in use it succeeds, every address of the range gets the entry for its frame with the
  given permissions, every other address keeps its entry, and every page of memory that is neither
  free nor part of the page table keeps its content.
\<close>

theorem mappages_correct:
  assumes "ptinv s pt xs" "page_aligned va" "0 < n" "unat va + 4096 * n \<le> 2 ^ 38"
    and "\<forall>k < n. ptview (mem s) pt (va + of_nat k * PGSIZE) AND PTE_V = 0" "2 * n \<le> length xs"
  shows "\<exists>s' xs'. mappages s pt va (of_nat n * PGSIZE) pa perm = Inr (0, s') \<and> ptinv s' pt xs' \<and>
    ptview (mem s') pt = (\<lambda>x. if in_range va n x then PA2PTE (pa + (PGROUNDDOWN x - va)) OR perm OR PTE_V
      else ptview (mem s) pt x) \<and>
    (\<forall>q. outside (mem s) pt xs q \<longrightarrow> same_on_page (mem s) (mem s') q)"
  using mappages_range [OF assms, of pa perm] pt_extD(1,4) by blast

theorem mappages_correct_witness:
  "\<exists>s' xs'. mappages sample_uvm sample_pt 0x3000 (of_nat 2 * PGSIZE) 0x87FF8000 (PTE_R OR PTE_U) = Inr (0, s') \<and>
    ptinv s' sample_pt xs' \<and> ptview (mem s') sample_pt 0x4010 = PA2PTE 0x87FF9000 OR (PTE_R OR PTE_U) OR PTE_V"
proof -
  have "page_aligned 0x3000" by (simp add: page_aligned_def PGSIZE_def)
  moreover have "in_range 0x3000 2 0x4010" by (simp add: in_range_def)
  moreover have "PGROUNDDOWN 0x4010 = 0x4000" by (simp add: PGROUNDDOWN_def PGSIZE_def)
  ultimately show ?thesis
    using mappages_correct [OF uspace_ptinv [OF sample_uvm(1)], of "0x3000" 2 "0x87FF8000" "PTE_R OR PTE_U"]
    by (auto simp: sample_uvm(2) sample_pages_def)
qed

text \<open>
  C32. What mappages maps, walkaddr finds: after mapping a range with user permission, walkaddr
  translates every address of the range to its frame.
\<close>

theorem mappages_walkaddr:
  assumes "ptinv s pt xs" "page_aligned va" "0 < n" "unat va + 4096 * n \<le> 2 ^ 38"
    and "\<forall>k < n. ptview (mem s) pt (va + of_nat k * PGSIZE) AND PTE_V = 0" "2 * n \<le> length xs"
    and "page_aligned pa" "user_pte perm" "in_range va n x"
  shows "\<exists>s'. mappages s pt va (of_nat n * PGSIZE) pa perm = Inr (0, s') \<and>
    walkaddr s' pt x = Inr (pa + (PGROUNDDOWN x - va))"
proof -
  obtain s' xs' where r: "mappages s pt va (of_nat n * PGSIZE) pa perm = Inr (0, s')" "ptinv s' pt xs'"
    "ptview (mem s') pt = (\<lambda>x. if in_range va n x then PA2PTE (pa + (PGROUNDDOWN x - va)) OR perm OR PTE_V
      else ptview (mem s) pt x)"
    using mappages_range [OF assms(1-6), of pa perm] pt_extD(1) by blast
  have n64: "4096 * n < 2 ^ 64" using assms(4) by simp
  obtain k where k: "PGROUNDDOWN x = va + of_nat k * PGSIZE"
    using in_range_pages [OF assms(2) n64, of x] assms(9) by blast
  have "page_aligned (pa + (PGROUNDDOWN x - va))" using page_aligned_add [OF assms(7)] k by simp
  then have "upa (mem s') pt x = pa + (PGROUNDDOWN x - va)"
    using upa_pte [OF _ assms(8)] assms(9) by (simp add: upa_def r(3))
  then show ?thesis using r(1) walkaddr_upa [OF r(2), of x] by simp
qed

theorem mappages_walkaddr_witness:
  "\<exists>s'. mappages sample_uvm sample_pt 0x3000 (of_nat 2 * PGSIZE) 0x87FF8000 (PTE_R OR PTE_U) = Inr (0, s') \<and>
    walkaddr s' sample_pt 0x4010 = Inr (0x87FF8000 + (PGROUNDDOWN 0x4010 - 0x3000))"
  by (rule mappages_walkaddr [OF uspace_ptinv [OF sample_uvm(1)]])
    (simp_all add: page_aligned_def PGSIZE_def sample_uvm(2) sample_pages_def user_pte_def PTE_R_def PTE_U_def in_range_def)

text \<open>
  C17. uvmalloc grows an address space with zeroed memory or leaves it as it was: if it returns the
  new size, every new address reads 0 and every old one is unchanged; if it returns 0 (only when
  fewer than three free pages per new page were left), user memory is exactly what it was.
\<close>

theorem uvmalloc_correct:
  assumes "uspace_inv s pt xs" "oldsz \<le> newsz" "unat newsz \<le> 2 ^ 38 - 4096"
    and "user_pte (PTE_R OR PTE_U OR xperm)"
    and "n = (unat (PGROUNDUP newsz) - unat (PGROUNDUP oldsz)) div 4096"
    and "\<forall>x. in_range (PGROUNDUP oldsz) n x \<longrightarrow> ptview (mem s) pt x AND PTE_V = 0"
  shows "\<exists>r s' xs'. uvmalloc s pt oldsz newsz xperm = Inr (r, s') \<and> uspace_inv s' pt xs' \<and>
    (r = newsz \<and> umem (mem s') pt = (\<lambda>x. if in_range (PGROUNDUP oldsz) n x then Some 0 else umem (mem s) pt x) \<or>
     r = 0 \<and> length xs < 3 * n \<and> umem (mem s') pt = umem (mem s) pt)"
  by (rule uvmalloc_spec [OF assms])

theorem uvmalloc_correct_witness:
  "\<exists>r s' xs'. uvmalloc sample_uvm sample_pt 0 0x2000 PTE_W = Inr (r, s') \<and> uspace_inv s' sample_pt xs' \<and>
    (r = 0x2000 \<and> umem (mem s') sample_pt = (\<lambda>x. if in_range (PGROUNDUP 0) 2 x then Some 0
       else umem (mem sample_uvm) sample_pt x) \<or>
     r = 0 \<and> length (tl sample_pages) < 3 * 2 \<and> umem (mem s') sample_pt = umem (mem sample_uvm) sample_pt)"
  by (rule uvmalloc_correct [OF sample_uvm(1)])
    (simp_all add: user_pte_def PTE_R_def PTE_U_def PTE_W_def PGROUNDUP_def PGSIZE_def sample_uvm(2))

text \<open>
  C18. copyout writes user memory or reports an error: it returns 0 exactly when every byte of the
  destination is mapped for the user, and then the destination holds the source and every other user
  byte is as before; whatever it returns, it changes no page of memory outside the address space's
  user pages, the mapping and the free list stay as they are, and the address space stays well formed.
\<close>

theorem copyout_correct:
  assumes "uspace_inv s pt xs" "length src < 2 ^ 64"
  shows "\<exists>r s'. copyout s pt va src = Inr (r, s') \<and> uspace_inv s' pt xs \<and>
    upa (mem s') pt = upa (mem s) pt \<and> freelist s' = freelist s \<and>
    (\<forall>q. q \<notin> range (upa (mem s) pt) \<longrightarrow> same_on_page (mem s) (mem s') q) \<and>
    (if None \<in> set (ubytes (mem s) pt va (length src)) then r = -1
     else r = 0 \<and> umem (mem s') pt = overwrite (umem (mem s) pt) va src)"
  using copyout_spec [OF assms, of va] by blast

theorem copyout_correct_witness:
  "\<exists>s'. copyout sample_user sample_pt 0xFFE [1, 2, 3, 4] = Inr (0, s') \<and>
    umem (mem s') sample_pt = overwrite (umem (mem sample_user) sample_pt) 0xFFE [1, 2, 3, 4]"
proof -
  obtain xs where inv: "uspace_inv sample_user sample_pt xs" using sample_user_alloc(1) by blast
  have "None \<notin> set (ubytes (mem sample_user) sample_pt 0xFFE (length [1, 2, 3, 4 :: byte]))"
    by (auto simp: ubytes_def sample_user_alloc(2) in_range_def unat_word_ariths unat_of_nat64)
  then show ?thesis using copyout_correct [OF inv, of "[1, 2, 3, 4]" "0xFFE"] by auto
qed

text \<open>
  C33. Round trip through user memory: what copyout stored, copyin reads back.
\<close>

theorem copyout_copyin_roundtrip:
  assumes "uspace_inv s pt xs" "length src < 2 ^ 64" "copyout s pt va src = Inr (0, s')"
  shows "copyin s' pt va (length src) = Inr (0, src)"
proof -
  from copyout_spec [OF assms(1,2), of va] assms(3)
  have c: "uspace_inv s' pt xs" "umem (mem s') pt = overwrite (umem (mem s) pt) va src"
    by (auto split: if_splits)
  have "ubytes (mem s') pt va (length src) = map Some src"
    using assms(2) by (intro nth_equalityI) (simp_all add: ubytes_def c(2) overwrite_def unat_of_nat64)
  moreover obtain r bs where "copyin s' pt va (length src) = Inr (r, bs)"
    "if None \<in> set (ubytes (mem s') pt va (length src)) then r = -1
     else r = 0 \<and> map Some bs = ubytes (mem s') pt va (length src)"
    using copyin_spec [OF uspace_ptinv [OF c(1)]] by blast
  ultimately show ?thesis by (auto simp: inj_map_eq_map)
qed

theorem copyout_copyin_roundtrip_witness:
  "\<exists>s'. copyout sample_user sample_pt 0xFFE [1, 2, 3, 4] = Inr (0, s') \<and>
    copyin s' sample_pt 0xFFE (length [1, 2, 3, 4 :: byte]) = Inr (0, [1, 2, 3, 4])"
proof -
  obtain xs where inv: "uspace_inv sample_user sample_pt xs" using sample_user_alloc(1) by blast
  have "None \<notin> set (ubytes (mem sample_user) sample_pt 0xFFE (length [1, 2, 3, 4 :: byte]))"
    by (auto simp: ubytes_def sample_user_alloc(2) in_range_def unat_word_ariths unat_of_nat64)
  then obtain s' where "copyout sample_user sample_pt 0xFFE [1, 2, 3, 4] = Inr (0, s')"
    using copyout_spec [OF inv, of "[1, 2, 3, 4]" "0xFFE"] by auto
  then show ?thesis using copyout_copyin_roundtrip [OF inv, of "[1, 2, 3, 4]" "0xFFE" s'] by simp
qed

text \<open>
  C19. copyinstr returns 0 exactly when there is a NUL within the first max bytes at the address, all
  of them mapped for the user, and then it has stored that string with its terminator and nothing
  more; otherwise it returns -1.
\<close>

theorem copyinstr_correct:
  assumes "ptinv s pt xs"
  shows "\<exists>r bs. copyinstr s pt va mx = Inr (r, bs) \<and>
    (r = 0 \<and> ustr (mem s) pt va mx bs \<or> r = -1 \<and> (\<forall>cs. \<not> ustr (mem s) pt va mx cs))"
  by (rule copyinstr_spec [OF assms])

theorem copyinstr_correct_witness:
  "\<exists>bs. copyinstr sample_user sample_pt 0 16 = Inr (0, bs) \<and> ustr (mem sample_user) sample_pt 0 16 bs"
proof -
  obtain xs where inv: "uspace_inv sample_user sample_pt xs" using sample_user_alloc(1) by blast
  have "ustr (mem sample_user) sample_pt 0 16 [0]"
    using sample_user_bytes [of 1] by (simp add: ustr_def)
  then show ?thesis using copyinstr_correct [OF uspace_ptinv [OF inv], of 0 16] by auto
qed

end
