(* ===== verification/Xv6_Grep.thy ===== *)
theory Xv6_Grep
  imports Xv6_String
begin

text \<open>
  The text filters grep.c and wc.c. The matcher works on the characters of C strings (the bytes
  before the terminator) and is compared with a declarative reading of its patterns; the buffer loop
  of grep and the counters of wc are compared with what they compute of the whole input. The sizes
  of the chunks that read returns are an argument.
\<close>

section \<open>The pattern matcher\<close>

function matchhere :: "byte list \<Rightarrow> byte list \<Rightarrow> bool"
  and matchstar :: "byte \<Rightarrow> byte list \<Rightarrow> byte list \<Rightarrow> bool" where
  "matchhere re text =
     (case re of
        [] \<Rightarrow> True
      | c # re' \<Rightarrow>
          if re' \<noteq> [] \<and> hd re' = 42 then matchstar c (tl re') text
          else if c = 36 \<and> re' = [] then text = []
          else case text of [] \<Rightarrow> False
               | t # text' \<Rightarrow> if c = 46 \<or> c = t then matchhere re' text' else False)"
| "matchstar c re text =
     (if matchhere re text then True
      else case text of [] \<Rightarrow> False
           | t # text' \<Rightarrow> if t = c \<or> c = 46 then matchstar c re text' else False)"
  by pat_completeness auto
termination
  by (relation "measures [\<lambda>x. case x of Inl (re, t) \<Rightarrow> 2 * length re | Inr (c, re, t) \<Rightarrow> 2 * length re + 1,
      \<lambda>x. case x of Inl (re, t) \<Rightarrow> length t | Inr (c, re, t) \<Rightarrow> length t]") auto

declare matchhere.simps [simp del] matchstar.simps [simp del]

fun match_from :: "byte list \<Rightarrow> byte list \<Rightarrow> bool" where
  "match_from re text =
     (if matchhere re text then True
      else case text of [] \<Rightarrow> False | t # text' \<Rightarrow> match_from re text')"

declare match_from.simps [simp del]

definition match :: "byte list \<Rightarrow> byte list \<Rightarrow> bool" where
  "match re text =
     (if re \<noteq> [] \<and> hd re = 94 then matchhere (tl re) text else match_from re text)"

section \<open>grep\<close>

lemma strchr_shorter: "strchr s c = Some q \<Longrightarrow> length q \<le> length s"
  by (induction s c rule: strchr.induct) (auto split: if_splits)

text \<open>The inner loop: the lines of the buffer it writes, and what stays in the buffer.\<close>

function grep_lines :: "byte list \<Rightarrow> byte list \<Rightarrow> byte list \<times> byte list" where
  "grep_lines pattern p =
     (case strchr (p @ [0]) 10 of
        None \<Rightarrow> ([], p)
      | Some q \<Rightarrow>
          let k = length (p @ [0]) - length q;
              line = cstr (take k p);
              rest = drop (Suc k) p
          in case grep_lines pattern rest of (out, p') \<Rightarrow>
               (if match pattern line then take (Suc k) p @ out else out, p'))"
  by pat_completeness auto
termination
proof (relation "measure (\<lambda>(pattern, p). length p)")
  fix pattern p q x xa xb
  assume "strchr (p @ [0]) 10 = Some (q :: byte list)" "x = length (p @ [0]) - length q" "xb = drop (Suc x) p"
  then show "((pattern, xb), pattern, p) \<in> measure (\<lambda>(pattern, p). length p)"
    by (cases p) auto
qed simp

declare grep_lines.simps [simp del]

definition GREPBUF :: nat where "GREPBUF = 1024"

fun grep_loop :: "byte list \<Rightarrow> byte list \<Rightarrow> byte list \<Rightarrow> nat list \<Rightarrow> byte list" where
  "grep_loop pattern buf input [] = []"
| "grep_loop pattern buf input (k # ks) =
     (let n = min k (min (GREPBUF - length buf - 1) (length input)) in
      if n > 0
      then case grep_lines pattern (buf @ take n input) of (out, rest) \<Rightarrow>
             out @ grep_loop pattern rest (drop n input) ks
      else [])"

definition grep :: "byte list \<Rightarrow> byte list \<Rightarrow> nat list \<Rightarrow> byte list" where
  "grep pattern input sizes = grep_loop pattern [] input sizes"

section \<open>wc\<close>

record wc_state =
  wl :: nat
  ww :: nat
  wc :: nat
  inword :: bool

definition wc_byte :: "byte \<Rightarrow> wc_state \<Rightarrow> wc_state" where
  "wc_byte b s =
     (let s = s\<lparr>wc := wc s + 1\<rparr>;
          s = (if b = 10 then s\<lparr>wl := wl s + 1\<rparr> else s)
      in if strchr [32, 13, 9, 10, 11, 0] b \<noteq> None then s\<lparr>inword := False\<rparr>
         else if \<not> inword s then s\<lparr>ww := ww s + 1, inword := True\<rparr> else s)"

definition wc_run :: "byte list list \<Rightarrow> wc_state" where
  "wc_run chunks =
     fold (\<lambda>buf s. fold wc_byte buf s) chunks \<lparr>wl = 0, ww = 0, wc = 0, inword = False\<rparr>"

section \<open>What patterns mean\<close>

datatype item = Chr byte | Rep byte | End

fun items :: "byte list \<Rightarrow> item list" where
  "items [] = []"
| "items [c] = [if c = 36 then End else Chr c]"
| "items (c # d # re) = (if d = 42 then Rep c # items re else Chr c # items (d # re))"

definition fits :: "byte \<Rightarrow> byte \<Rightarrow> bool" where
  "fits c t \<longleftrightarrow> c = 46 \<or> t = c"

text \<open>The items match the characters in the second argument, with the third following.\<close>

inductive item_match :: "item list \<Rightarrow> byte list \<Rightarrow> byte list \<Rightarrow> bool" where
  Nil: "item_match [] [] rest"
| Chr: "fits c t \<Longrightarrow> item_match its s rest \<Longrightarrow> item_match (Chr c # its) (t # s) rest"
| Rep: "\<forall>t \<in> set ts. fits c t \<Longrightarrow> item_match its s rest \<Longrightarrow> item_match (Rep c # its) (ts @ s) rest"
| End: "item_match [End] [] []"

inductive_cases item_match_Nil [elim!]: "item_match [] s rest"
inductive_cases item_match_Chr [elim!]: "item_match (Chr c # its) s rest"
inductive_cases item_match_Rep: "item_match (Rep c # its) s rest"
inductive_cases item_match_End [elim!]: "item_match (End # its) s rest"

definition prefix_match :: "byte list \<Rightarrow> byte list \<Rightarrow> bool" where
  "prefix_match re text \<longleftrightarrow> (\<exists>s rest. text = s @ rest \<and> item_match (items re) s rest)"

definition star_match :: "byte \<Rightarrow> byte list \<Rightarrow> byte list \<Rightarrow> bool" where
  "star_match c re text \<longleftrightarrow> (\<exists>ts s. text = ts @ s \<and> (\<forall>t \<in> set ts. fits c t) \<and> prefix_match re s)"

lemma star_match_rec:
  "star_match c re tx \<longleftrightarrow> prefix_match re tx \<or>
     (\<exists>t tx'. tx = t # tx' \<and> fits c t \<and> star_match c re tx')"
proof
  assume "star_match c re tx"
  then obtain ts s where ts: "tx = ts @ s" "\<forall>t \<in> set ts. fits c t" "prefix_match re s"
    unfolding star_match_def by blast
  show "prefix_match re tx \<or> (\<exists>t tx'. tx = t # tx' \<and> fits c t \<and> star_match c re tx')"
  proof (cases ts)
    case (Cons t ts')
    then have "star_match c re (ts' @ s)" using ts unfolding star_match_def by auto
    then show ?thesis using Cons ts by auto
  qed (use ts in simp)
next
  assume "prefix_match re tx \<or> (\<exists>t tx'. tx = t # tx' \<and> fits c t \<and> star_match c re tx')"
  then show "star_match c re tx"
  proof (elim disjE exE conjE)
    assume "prefix_match re tx"
    then show ?thesis unfolding star_match_def by (intro exI [of _ "[]"] exI [of _ tx]) simp
  next
    fix t tx'
    assume "tx = t # tx'" "fits c t" "star_match c re tx'"
    then show ?thesis unfolding star_match_def by (metis append_Cons set_ConsD)
  qed
qed

lemma prefix_match_Rep: "prefix_match (c # 42 # re) tx \<longleftrightarrow> star_match c re tx"
proof
  assume "prefix_match (c # 42 # re) tx"
  then obtain s rest where t: "tx = s @ rest" and "item_match (Rep c # items re) s rest"
    unfolding prefix_match_def by auto
  from this(2) show "star_match c re tx"
    by (rule item_match_Rep) (auto simp: t star_match_def prefix_match_def)
next
  assume "star_match c re tx"
  then obtain ts s rest where "tx = ts @ s @ rest" "\<forall>t \<in> set ts. fits c t" "item_match (items re) s rest"
    unfolding star_match_def prefix_match_def by auto
  then show "prefix_match (c # 42 # re) tx"
    unfolding prefix_match_def by (intro exI [of _ "ts @ s"] exI [of _ rest]) (simp add: item_match.Rep)
qed

lemma prefix_matchI: "item_match (items re) s rest \<Longrightarrow> prefix_match re (s @ rest)"
  unfolding prefix_match_def by (intro exI conjI) (rule refl)

lemma prefix_match_Chr:
  assumes "items (c # re) = Chr c # items re"
  shows "prefix_match (c # re) tx \<longleftrightarrow> (\<exists>t tx'. tx = t # tx' \<and> fits c t \<and> prefix_match re tx')"
proof
  assume "prefix_match (c # re) tx"
  then obtain s rest where tx: "tx = s @ rest" and im: "item_match (Chr c # items re) s rest"
    unfolding prefix_match_def assms by (elim exE conjE)
  from im obtain t s' where "s = t # s'" "fits c t" "item_match (items re) s' rest"
    by (rule item_match_Chr)
  then show "\<exists>t tx'. tx = t # tx' \<and> fits c t \<and> prefix_match re tx'"
    using tx prefix_matchI [of re s' rest] by simp
next
  assume "\<exists>t tx'. tx = t # tx' \<and> fits c t \<and> prefix_match re tx'"
  then obtain t tx' where t: "tx = t # tx'" "fits c t" "prefix_match re tx'" by (elim exE conjE)
  then obtain s rest where s: "tx' = s @ rest" "item_match (items re) s rest"
    unfolding prefix_match_def by (elim exE conjE)
  have "item_match (items (c # re)) (t # s) rest" unfolding assms using t(2) s(2) by (rule item_match.Chr)
  then show "prefix_match (c # re) tx" using prefix_matchI [of "c # re" "t # s" rest] t(1) s(1) by simp
qed

lemma prefix_match_simps: "prefix_match [] tx" "prefix_match [36] tx \<longleftrightarrow> tx = []"
proof -
  show "prefix_match [] tx" unfolding prefix_match_def by (auto intro: item_match.Nil)
  show "prefix_match [36] tx \<longleftrightarrow> tx = []"
    unfolding prefix_match_def by (auto intro: item_match.End)
qed

lemma matcher_correct:
  "matchhere re tx \<longleftrightarrow> prefix_match re tx"
  "matchstar c re tx \<longleftrightarrow> star_match c re tx"
proof (induction re tx and c re tx rule: matchhere_matchstar.induct)
  case (1 re tx)
  show ?case
  proof (cases re)
    case Nil
    then show ?thesis by (simp add: matchhere.simps prefix_match_simps)
  next
    case (Cons c re')
    consider (star) "re' \<noteq> [] \<and> hd re' = 42" | (eol) "re' = []" "c = 36"
      | (char) "\<not> (re' \<noteq> [] \<and> hd re' = 42)" "\<not> (c = 36 \<and> re' = [])" by blast
    then show ?thesis
    proof cases
      case star
      then show ?thesis using 1(1) [OF Cons star] Cons prefix_match_Rep [of c "tl re'" tx]
        unfolding matchhere.simps [of re tx] by (cases re') simp_all
    next
      case eol
      then show ?thesis using Cons
        unfolding matchhere.simps [of re tx] by (simp add: prefix_match_simps)
    next
      case char
      then have it: "items (c # re') = Chr c # items re'" by (cases re') auto
      show ?thesis
        using 1(2) [OF Cons char] char Cons prefix_match_Chr [OF it, of tx]
        unfolding matchhere.simps [of re tx] by (cases tx) (auto simp: fits_def)
    qed
  qed
next
  case (2 c re tx)
  then show ?case
    unfolding matchstar.simps [of c re tx] star_match_rec [of c re tx]
    by (cases tx) (auto simp: fits_def)
qed

lemma match_from_iff: "match_from re tx \<longleftrightarrow> (\<exists>pre tx'. tx = pre @ tx' \<and> prefix_match re tx')"
proof (induction re tx rule: match_from.induct)
  case (1 re tx)
  show ?case
  proof (cases tx)
    case Nil
    then show ?thesis unfolding match_from.simps [of re tx] by (simp add: matcher_correct)
  next
    case (Cons t tx')
    then show ?thesis using 1 unfolding match_from.simps [of re tx]
      by (auto simp: matcher_correct Cons_eq_append_conv)
  qed
qed

section \<open>grep on the whole input\<close>

text \<open>The lines of a text, each with its newline, and what follows the last newline.\<close>

fun split_lines :: "byte list \<Rightarrow> byte list list \<times> byte list" where
  "split_lines [] = ([], [])"
| "split_lines (b # bs) =
     (case split_lines bs of (ls, r) \<Rightarrow>
        if b = 10 then ([b] # ls, r)
        else case ls of [] \<Rightarrow> ([], b # r) | l # ls' \<Rightarrow> ((b # l) # ls', r))"

definition wanted :: "byte list \<Rightarrow> byte list list \<Rightarrow> byte list" where
  "wanted pattern ls = concat (filter (\<lambda>l. match pattern (butlast l)) ls)"

lemma split_lines_line:
  "10 \<notin> set l \<Longrightarrow> split_lines (l @ 10 # bs) = ((l @ [10]) # fst (split_lines bs), snd (split_lines bs))"
  by (induction l) (auto split: prod.splits)

lemma split_lines_rest: "10 \<notin> set bs \<Longrightarrow> split_lines bs = ([], bs)"
  by (induction bs) auto

lemma split_lines_append:
  "split_lines (as @ bs) = (fst (split_lines as) @ fst (split_lines (snd (split_lines as) @ bs)),
     snd (split_lines (snd (split_lines as) @ bs)))"
proof (induction "length as" arbitrary: as rule: less_induct)
  case less
  show ?case
  proof (cases "10 \<in> set as")
    case True
    then obtain l as' where as: "as = l @ 10 # as'" "10 \<notin> set l" by (metis split_list_first)
    then show ?thesis using less [of as'] by (simp add: split_lines_line)
  qed (simp add: split_lines_rest)
qed

lemma strchr_newline: "10 \<notin> set l \<Longrightarrow> 0 \<notin> set l \<Longrightarrow> strchr (l @ 10 # r) 10 = Some (10 # r)"
  by (induction l) auto

lemma strchr_no_newline: "10 \<notin> set p \<Longrightarrow> 0 \<notin> set p \<Longrightarrow> strchr (p @ [0]) 10 = None"
  by (induction p) auto

lemma grep_lines_eq:
  "0 \<notin> set p \<Longrightarrow> grep_lines pattern p = (wanted pattern (fst (split_lines p)), snd (split_lines p))"
proof (induction "length p" arbitrary: p rule: less_induct)
  case less
  show ?case
  proof (cases "10 \<in> set p")
    case True
    then obtain l p' where p: "p = l @ 10 # p'" "10 \<notin> set l" by (metis split_list_first)
    have l: "cstr l = l" using less.prems p(1) by (induction l arbitrary: p) auto
    have sc: "strchr (p @ [0]) 10 = Some (10 # p' @ [0])"
      using strchr_newline [of l "p' @ [0]"] p less.prems by simp
    have "grep_lines pattern p' = (wanted pattern (fst (split_lines p')), snd (split_lines p'))"
      using less p by simp
    then show ?thesis
      unfolding grep_lines.simps [of pattern p] sc
      using p l by (simp add: split_lines_line wanted_def)
  next
    case False
    then show ?thesis unfolding grep_lines.simps [of pattern p]
      using less.prems by (simp add: strchr_no_newline split_lines_rest wanted_def)
  qed
qed

lemma split_lines_short:
  assumes "\<forall>l \<in> set (fst (split_lines (r @ bs))). length l < n" "length (snd (split_lines (r @ bs))) < n - 1"
    and "10 \<notin> set r"
  shows "length r < n - 1"
proof (cases "10 \<in> set bs")
  case True
  then obtain l bs' where "bs = l @ 10 # bs'" "10 \<notin> set l" by (metis split_list_first)
  then show ?thesis using assms split_lines_line [of "r @ l" bs'] by auto
next
  case False
  then show ?thesis using assms split_lines_rest [of "r @ bs"] by simp
qed

lemma no_newline_rest: "10 \<notin> set (snd (split_lines bs))"
proof (induction "length bs" arbitrary: bs rule: less_induct)
  case less
  show ?case
  proof (cases "10 \<in> set bs")
    case True
    then obtain l bs' where bs: "bs = l @ 10 # bs'" "10 \<notin> set l" by (metis split_list_first)
    then show ?thesis using less [of bs'] by (simp add: split_lines_line)
  qed (simp add: split_lines_rest)
qed

lemma set_split_lines_rest: "set (snd (split_lines bs)) \<subseteq> set bs"
  by (induction bs) (auto split: prod.splits list.splits)

lemma wanted_append: "wanted pattern (ls @ ls') = wanted pattern ls @ wanted pattern ls'"
  by (simp add: wanted_def)

lemma grep_loop_eq:
  assumes "10 \<notin> set buf" "0 \<notin> set (buf @ input)" "\<forall>k \<in> set ks. 0 < k" "length input \<le> length ks"
    and "\<forall>l \<in> set (fst (split_lines (buf @ input))). length l < GREPBUF"
    and "length (snd (split_lines (buf @ input))) < GREPBUF - 1"
  shows "grep_loop pattern buf input ks = wanted pattern (fst (split_lines (buf @ input)))"
  using assms
proof (induction pattern buf input ks rule: grep_loop.induct)
  case (1 pattern buf input)
  then show ?case by (simp add: split_lines_rest wanted_def)
next
  case (2 pattern buf input k ks)
  show ?case
  proof (cases "input = []")
    case True
    then show ?thesis using 2(2) by (simp add: split_lines_rest wanted_def)
  next
    case False
    define n where "n = min k (min (GREPBUF - length buf - 1) (length input))"
    have "length buf < GREPBUF - 1" using 2(6,7,2) by (rule split_lines_short)
    then have n: "0 < n" using 2(4) False by (simp add: n_def)
    let ?b = "buf @ take n input"
    let ?r = "snd (split_lines ?b)"
    have z: "0 \<notin> set ?b" "0 \<notin> set (?r @ drop n input)"
      using 2(3) set_split_lines_rest [of ?b] by (auto dest: in_set_takeD in_set_dropD)
    have app: "split_lines (buf @ input) =
        (fst (split_lines ?b) @ fst (split_lines (?r @ drop n input)), snd (split_lines (?r @ drop n input)))"
      using split_lines_append [of ?b "drop n input"] by simp
    have "grep_loop pattern ?r (drop n input) ks = wanted pattern (fst (split_lines (?r @ drop n input)))"
      using 2(1) [OF n_def n grep_lines_eq [OF z(1), symmetric] no_newline_rest z(2)] 2(4,5,6,7) n app by simp
    then show ?thesis
      unfolding grep_loop.simps Let_def n_def [symmetric]
      using n app grep_lines_eq [OF z(1), of pattern] by (simp add: wanted_append)
  qed
qed

section \<open>wc on the whole input\<close>

definition space :: "byte \<Rightarrow> bool" where
  "space b \<longleftrightarrow> b \<in> {32, 13, 9, 10, 11}"

text \<open>The number of words that start in bs, given whether the byte before bs belongs to a word.\<close>

fun word_starts :: "bool \<Rightarrow> byte list \<Rightarrow> nat" where
  "word_starts w [] = 0"
| "word_starts w (b # bs) = (if \<not> space b \<and> \<not> w then 1 else 0) + word_starts (\<not> space b) bs"

fun split_words :: "byte list \<Rightarrow> byte list list" where
  "split_words [] = [[]]"
| "split_words (b # bs) =
     (if space b then [] # split_words bs else (b # hd (split_words bs)) # tl (split_words bs))"

lemma wc_byte_eq:
  "wc_byte b s = s\<lparr>wc := wc s + 1, wl := wl s + (if b = 10 then 1 else 0),
     ww := ww s + (if \<not> space b \<and> \<not> inword s then 1 else 0), inword := \<not> space b\<rparr>"
  by (cases s) (auto simp: wc_byte_def space_def Let_def)

lemma fold_wc_byte:
  "fold wc_byte bs s = s\<lparr>wc := wc s + length bs, wl := wl s + count_list bs 10,
     ww := ww s + word_starts (inword s) bs, inword := (if bs = [] then inword s else \<not> space (last bs))\<rparr>"
  by (induction bs arbitrary: s) (auto simp: wc_byte_eq)

lemma fold_chunks: "fold (\<lambda>buf s. fold f buf s) chunks s = fold f (concat chunks) s"
  by (induction chunks arbitrary: s) simp_all

lemma split_words_nonempty: "split_words bs \<noteq> []"
  by (induction bs) auto

lemma word_starts_split:
  "word_starts False bs = length (filter (\<lambda>w. w \<noteq> []) (split_words bs)) \<and>
   word_starts True bs = length (filter (\<lambda>w. w \<noteq> []) (tl (split_words bs)))"
proof (induction bs)
  case (Cons b bs)
  then show ?case using split_words_nonempty [of bs] by (cases "split_words bs") auto
qed simp

section \<open>Properties\<close>

text \<open>
  C27. The matcher decides its pattern language: a pattern starting with a caret matches a prefix of
  the text, any other pattern a substring; in it a character followed by a star stands for any run
  of that character, a dot for any character, a final dollar for the end of the text.
\<close>

theorem match_correct:
  "match re tx \<longleftrightarrow>
     (if re \<noteq> [] \<and> hd re = 94 then prefix_match (tl re) tx
      else \<exists>pre tx'. tx = pre @ tx' \<and> prefix_match re tx')"
  by (simp add: match_def matcher_correct match_from_iff)

text \<open>
  C28. grep prints exactly the matching lines, in order, however read cuts the input into chunks, as
  long as no line fills its 1024 byte buffer and the input has no NUL; text after the last newline
  is not printed.
\<close>

theorem grep_correct:
  assumes "0 \<notin> set input" "\<forall>k \<in> set ks. 0 < k" "length input \<le> length ks"
    and "\<forall>l \<in> set (fst (split_lines input)). length l < GREPBUF"
    and "length (snd (split_lines input)) < GREPBUF - 1"
  shows "grep pattern input ks = concat (filter (\<lambda>l. match pattern (butlast l)) (fst (split_lines input)))"
  using grep_loop_eq [of "[]" input ks pattern] assms by (simp add: grep_def wanted_def)

theorem grep_correct_witness:
  "grep [97] [97, 98, 10, 99, 10, 97, 10, 97] [3, 1, 2, 5, 1, 1, 1, 1] =
     concat (filter (\<lambda>l. match [97] (butlast l)) [[97, 98, 10], [99, 10], [97, 10]])"
  using grep_correct [of "[97, 98, 10, 99, 10, 97, 10, 97]" "[3, 1, 2, 5, 1, 1, 1, 1]" "[97]"]
  by (simp add: GREPBUF_def)

text \<open>
  wc counts the newlines, the maximal runs of non-space bytes and the bytes of the whole input,
  however it is cut into chunks.
\<close>

theorem wc_correct:
  "wl (wc_run chunks) = count_list (concat chunks) 10 \<and>
   ww (wc_run chunks) = length (filter (\<lambda>w. w \<noteq> []) (split_words (concat chunks))) \<and>
   wc (wc_run chunks) = length (concat chunks)"
  unfolding wc_run_def fold_chunks fold_wc_byte by (simp add: word_starts_split)

end
