(* ===== verification/Xv6_Ring.thy ===== *)
theory Xv6_Ring
  imports Xv6_Prelude
begin

text \<open>
  Ring buffers as xv6 writes them in pipe.c, console.c and uart.c: an array of N bytes indexed by
  free-running unsigned counters modulo N. The counters wrap at the word size, which is why N must
  divide it; the locale below states that once, and each client interprets it for its own N and
  counter type.
\<close>

definition ring_at :: "nat \<Rightarrow> byte list \<Rightarrow> 'a::len word \<Rightarrow> byte" where
  "ring_at N buf i = buf ! (unat i mod N)"

definition ring_put :: "nat \<Rightarrow> byte list \<Rightarrow> 'a::len word \<Rightarrow> byte \<Rightarrow> byte list" where
  "ring_put N buf i b = buf[unat i mod N := b]"

text \<open>The bytes between a read and a write counter, oldest first.\<close>

definition ring_list :: "nat \<Rightarrow> byte list \<Rightarrow> 'a::len word \<Rightarrow> 'a word \<Rightarrow> byte list" where
  "ring_list N buf r w = map (\<lambda>i. ring_at N buf (r + of_nat i)) [0..<unat (w - r)]"

lemma length_ring_list [simp]: "length (ring_list N buf r w) = unat (w - r)"
  by (simp add: ring_list_def)

lemma length_ring_put [simp]: "length (ring_put N buf i b) = length buf"
  by (simp add: ring_put_def)

lemma ring_list_empty [simp]: "ring_list N buf r r = []"
  by (simp add: ring_list_def)

lemma ring_list_Nil: "ring_list N buf r w = [] \<longleftrightarrow> r = w"
  by (metis length_0_conv length_ring_list right_minus_eq unat_eq_zero)

lemma unat_Suc_less: "Suc (unat y) < 2 ^ LENGTH('a) \<Longrightarrow> unat (y + 1) = Suc (unat y)" for y :: "'a::len word"
  by (simp add: unat_word_ariths)

lemma unat_diff_Suc:
  fixes r w :: "'a::len word"
  assumes "Suc (unat (w - r)) < 2 ^ LENGTH('a)"
  shows "unat (w + 1 - r) = Suc (unat (w - r))"
proof -
  have e: "w + 1 - r = (w - r) + 1" by (simp add: algebra_simps)
  show ?thesis unfolding e by (rule unat_Suc_less [OF assms])
qed

lemma unat_minus_Suc:
  fixes r w :: "'a::len word"
  assumes "w \<noteq> r"
  shows "unat (w - r) = Suc (unat (w - (r + 1)))"
proof -
  have "w - r \<noteq> 0" using assms by simp
  then have "unat (w - r - 1) = unat (w - r) - 1" by (simp add: unat_minus_one)
  moreover have "0 < unat (w - r)" using assms by (simp add: unat_gt_0)
  ultimately show ?thesis by (simp add: diff_diff_add)
qed

lemma ring_list_pop:
  assumes "w \<noteq> r"
  shows "ring_list N buf r w = ring_at N buf r # ring_list N buf (r + 1) w"
  unfolding ring_list_def unat_minus_Suc [OF assms]
  by (simp add: upt_conv_Cons map_Suc_upt [symmetric] algebra_simps del: upt_Suc)

text \<open>A counter between the two splits the contents.\<close>

lemma ring_list_split:
  fixes r w e :: "'a::len word"
  assumes "unat (w - r) \<le> unat (e - r)"
  shows "ring_list N buf r e = ring_list N buf r w @ ring_list N buf w e"
proof -
  have d: "unat (e - w) = unat (e - r) - unat (w - r)"
    using unat_sub [of "w - r" "e - r"] assms by (simp add: word_le_nat_alt)
  have u: "[0..<unat (e - r)] = [0..<unat (w - r)] @ map (\<lambda>i. i + unat (w - r)) [0..<unat (e - w)]"
    using upt_add_eq_append [of 0 "unat (w - r)" "unat (e - w)"] assms by (simp add: map_add_upt d)
  show ?thesis unfolding ring_list_def u by (simp add: algebra_simps)
qed

lemma unat_between:
  fixes r w e :: "'a::len word"
  assumes "unat (w - r) \<le> unat (e - r)"
  shows "unat (e - r) = unat (w - r) + unat (e - w)"
  using arg_cong [OF ring_list_split [OF assms, of 1 "[]"], of length] by simp

locale ring =
  fixes N :: nat and cnt :: "'a::len itself"
  assumes N_pos: "0 < N" and N_dvd: "N dvd 2 ^ LENGTH('a)" and N_less: "N < 2 ^ LENGTH('a)"
begin

lemma slot_add: "unat (r + of_nat i :: 'a word) mod N = (unat r + i) mod N"
proof -
  have "unat (r + of_nat i) = (unat r + i) mod 2 ^ LENGTH('a)"
    by (simp add: unat_word_ariths unsigned_of_nat take_bit_eq_mod mod_simps)
  then show ?thesis using N_dvd by (simp add: mod_mod_cancel)
qed

lemma slot_inj:
  assumes "i < k" "k < N + i"
  shows "unat (r + of_nat i :: 'a word) mod N \<noteq> unat (r + of_nat k :: 'a word) mod N"
proof
  assume "unat (r + of_nat i :: 'a word) mod N = unat (r + of_nat k :: 'a word) mod N"
  then have "(unat r + k) mod N = (unat r + i) mod N" by (simp add: slot_add)
  then have "N dvd (unat r + k) - (unat r + i)"
    using assms(1) by (intro mod_eq_dvd_iff_nat [THEN iffD1]) auto
  then have "N dvd k - i" by simp
  then have "N \<le> k - i" using assms(1) by (intro dvd_imp_le) auto
  then show False using assms by simp
qed

lemma push:
  fixes r w :: "'a word"
  assumes "length buf = N" "unat (w - r) < N"
  shows "ring_list N (ring_put N buf w b) r (w + 1) = ring_list N buf r w @ [b]"
proof -
  let ?k = "unat (w - r)"
  have w: "w = r + of_nat ?k" by simp
  have n: "unat (w + 1 - r) = Suc ?k"
    by (rule unat_diff_Suc) (use assms(2) N_less in linarith)
  have "ring_at N (ring_put N buf w b) (r + of_nat i) = ring_at N buf (r + of_nat i)" if "i < ?k" for i
    using slot_inj [of i ?k r] that assms(2) unfolding ring_at_def ring_put_def
    by (subst nth_list_update_neq) (use w in auto)
  moreover have "ring_at N (ring_put N buf w b) w = b"
    using N_pos assms(1) by (simp add: ring_at_def ring_put_def)
  ultimately show ?thesis unfolding ring_list_def n by simp
qed

text \<open>Moving the write counter back by one drops the newest byte.\<close>

lemma unpush:
  fixes r w :: "'a word"
  assumes "w \<noteq> r"
  shows "ring_list N buf r w = ring_list N buf r (w - 1) @ [ring_at N buf (w - 1)]"
proof -
  have "w - r \<noteq> 0" using assms by simp
  then have "unat (w - r - 1) = unat (w - r) - 1" "0 < unat (w - r)"
    by (simp_all add: unat_minus_one unat_gt_0)
  moreover have "w - r - 1 = w - 1 - r" by (simp add: algebra_simps)
  ultimately have n: "unat (w - r) = Suc (unat (w - 1 - r))" by simp
  have "r + of_nat (unat (w - 1 - r)) = w - 1" by simp
  then show ?thesis unfolding ring_list_def n by simp
qed

end

end
