(* ===== verification/Xv6_Pipe.thy ===== *)
theory Xv6_Pipe
  imports Xv6_Ring
begin

text \<open>
  Pipes, pipe.c: a ring of 512 bytes with 32-bit counters. A call of pipewrite or piperead is a
  sequence of critical sections, separated by sleeps; one section is one function here, which ends
  by returning a value or by going to sleep on a channel, and reports the channels it woke. Reading
  the user's byte (copyin of one byte) and storing one (copyout) are arguments, and so is what killed
  returns: pipewrite calls it for every byte, and a kill on another CPU does not wait for the pipe's
  lock, so it is a function of the loop counter.
\<close>

section \<open>State and operations\<close>

definition PIPESIZE :: nat where "PIPESIZE = 512"

record pipe =
  data :: "byte list"
  nread :: u32
  nwrite :: u32
  readopen :: bool
  writeopen :: bool

datatype pchan = Ch_nread | Ch_nwrite

datatype poutcome = Done int | Sleeps pchan

text \<open>The initialisation of a new pipe by pipealloc; the page kalloc returned gives its data.\<close>

definition pipe_init :: "byte list \<Rightarrow> pipe" where
  "pipe_init junk = \<lparr>data = junk, nread = 0, nwrite = 0, readopen = True, writeopen = True\<rparr>"

text \<open>pipeclose returns the channel it wakes and whether the page is given back.\<close>

definition pipeclose :: "pipe \<Rightarrow> bool \<Rightarrow> pipe \<times> pchan \<times> bool" where
  "pipeclose pi writable =
     (let pi' = (if writable then pi\<lparr>writeopen := False\<rparr> else pi\<lparr>readopen := False\<rparr>)
      in (pi', if writable then Ch_nread else Ch_nwrite, \<not> readopen pi' \<and> \<not> writeopen pi'))"

function pipewrite :: "(u64 \<Rightarrow> byte option) \<Rightarrow> (int \<Rightarrow> bool) \<Rightarrow> pipe \<Rightarrow> u64 \<Rightarrow> int \<Rightarrow> int \<Rightarrow>
    poutcome \<times> int \<times> pipe \<times> pchan list" where
  "pipewrite fetch killed pi addr i n =
     (if i < n
      then if \<not> readopen pi \<or> killed i then (Done (-1), i, pi, [])
           else if nwrite pi = nread pi + of_nat PIPESIZE then (Sleeps Ch_nwrite, i, pi, [Ch_nread])
           else case fetch (addr + of_int i) of
                  None \<Rightarrow> (Done i, i, pi, [Ch_nread])
                | Some ch \<Rightarrow>
                    pipewrite fetch killed
                      (pi\<lparr>data := ring_put PIPESIZE (data pi) (nwrite pi) ch, nwrite := nwrite pi + 1\<rparr>)
                      addr (i + 1) n
      else (Done i, i, pi, [Ch_nread]))"
  by pat_completeness auto
termination
  by (relation "measure (\<lambda>(fetch, killed, pi, addr, i, n). nat (n - i))") auto

declare pipewrite.simps [simp del]

function piperead_copy :: "(u64 \<Rightarrow> byte \<Rightarrow> 'm \<Rightarrow> 'm option) \<Rightarrow> 'm \<Rightarrow> pipe \<Rightarrow> u64 \<Rightarrow> int \<Rightarrow> int \<Rightarrow>
    int \<times> 'm \<times> pipe" where
  "piperead_copy store m pi addr i n =
     (if i < n \<and> nread pi \<noteq> nwrite pi
      then let ch = ring_at PIPESIZE (data pi) (nread pi); pi' = pi\<lparr>nread := nread pi + 1\<rparr> in
           case store (addr + of_int i) ch m of
             None \<Rightarrow> (i, m, pi')
           | Some m' \<Rightarrow> piperead_copy store m' pi' addr (i + 1) n
      else (i, m, pi))"
  by pat_completeness auto
termination
  by (relation "measure (\<lambda>(store, m, pi, addr, i, n). nat (n - i))") auto

declare piperead_copy.simps [simp del]

definition piperead :: "(u64 \<Rightarrow> byte \<Rightarrow> 'm \<Rightarrow> 'm option) \<Rightarrow> bool \<Rightarrow> 'm \<Rightarrow> pipe \<Rightarrow> u64 \<Rightarrow> int \<Rightarrow>
    poutcome \<times> 'm \<times> pipe \<times> pchan list" where
  "piperead store killed m pi addr n =
     (if nread pi = nwrite pi \<and> writeopen pi
      then if killed then (Done (-1), m, pi, []) else (Sleeps Ch_nread, m, pi, [])
      else case piperead_copy store m pi addr 0 n of (i, m', pi') \<Rightarrow> (Done i, m', pi', [Ch_nwrite]))"

section \<open>The pipe as a bounded queue\<close>

definition pipe_inv :: "pipe \<Rightarrow> bool" where
  "pipe_inv pi \<longleftrightarrow> length (data pi) = PIPESIZE \<and> unat (nwrite pi - nread pi) \<le> PIPESIZE"

definition queue :: "pipe \<Rightarrow> byte list" where
  "queue pi = ring_list PIPESIZE (data pi) (nread pi) (nwrite pi)"

interpretation pr: ring PIPESIZE "TYPE(32)"
  by unfold_locales (simp_all add: PIPESIZE_def)

lemma length_queue: "length (queue pi) = unat (nwrite pi - nread pi)"
  by (simp add: queue_def)

lemma queue_full: "nwrite pi = nread pi + of_nat PIPESIZE \<longleftrightarrow> length (queue pi) = PIPESIZE"
proof -
  have "nwrite pi = nread pi + of_nat PIPESIZE \<longleftrightarrow> nwrite pi - nread pi = 512"
    by (auto simp: PIPESIZE_def algebra_simps)
  also have "\<dots> \<longleftrightarrow> length (queue pi) = PIPESIZE"
    by (simp add: word_unat_eq_iff length_queue PIPESIZE_def)
  finally show ?thesis .
qed

lemma queue_push:
  assumes "pipe_inv pi" "length (queue pi) < PIPESIZE"
    and "pi' = pi\<lparr>data := ring_put PIPESIZE (data pi) (nwrite pi) ch, nwrite := nwrite pi + 1\<rparr>"
  shows "queue pi' = queue pi @ [ch]" "pipe_inv pi'"
proof -
  show q: "queue pi' = queue pi @ [ch]"
    using assms by (simp add: queue_def pipe_inv_def pr.push)
  have "length (queue pi') \<le> PIPESIZE" using q assms(2) by simp
  then show "pipe_inv pi'" using assms(1,3) by (simp add: pipe_inv_def length_queue)
qed

lemma queue_pop:
  assumes "pipe_inv pi" "nread pi \<noteq> nwrite pi" "pi' = pi\<lparr>nread := nread pi + 1\<rparr>"
  shows "queue pi = ring_at PIPESIZE (data pi) (nread pi) # queue pi'" "pipe_inv pi'"
proof -
  show q: "queue pi = ring_at PIPESIZE (data pi) (nread pi) # queue pi'"
    using assms by (simp add: queue_def ring_list_pop)
  have "length (queue pi') \<le> PIPESIZE" using arg_cong [OF q, of length] assms(1) by (simp add: pipe_inv_def length_queue)
  then show "pipe_inv pi'" using assms(1,3) by (simp add: pipe_inv_def length_queue)
qed

lemma pipewrite_spec:
  assumes "pipe_inv pi" "pipewrite fetch killed pi addr i n = (out, j, pi', ws)"
  shows "pipe_inv pi' \<and> i \<le> j \<and> j \<le> max i n \<and> readopen pi' = readopen pi \<and> writeopen pi' = writeopen pi \<and>
    (\<exists>bs. queue pi' = queue pi @ bs \<and> map Some bs = map (\<lambda>k. fetch (addr + of_int (i + int k))) [0..<nat (j - i)]) \<and>
    (case out of
       Sleeps c \<Rightarrow> c = Ch_nwrite \<and> ws = [Ch_nread] \<and> j < n \<and> readopen pi' \<and> length (queue pi') = PIPESIZE
     | Done r \<Rightarrow> (r = -1 \<and> ws = [] \<and> j < n \<and> (killed j \<or> \<not> readopen pi')) \<or>
         (r = j \<and> ws = [Ch_nread] \<and> (n \<le> j \<or> fetch (addr + of_int j) = None)))"
  using assms
proof (induction fetch killed pi addr i n rule: pipewrite.induct)
  case (1 fetch killed pi addr i n)
  show ?case
  proof (cases "i < n \<and> readopen pi \<and> \<not> killed i \<and> length (queue pi) \<noteq> PIPESIZE \<and> fetch (addr + of_int i) \<noteq> None")
    case False
    then show ?thesis
      using 1(2,3) by (auto simp: pipewrite.simps [of fetch killed pi] queue_full split: if_splits option.splits)
  next
    case True
    then obtain ch where ch: "fetch (addr + of_int i) = Some ch" by blast
    define pi1 where "pi1 = pi\<lparr>data := ring_put PIPESIZE (data pi) (nwrite pi) ch, nwrite := nwrite pi + 1\<rparr>"
    have lt: "length (queue pi) < PIPESIZE" using True 1(2) by (simp add: pipe_inv_def length_queue)
    note push = queue_push [OF 1(2) lt pi1_def]
    have nf: "nwrite pi \<noteq> nread pi + of_nat PIPESIZE" using True by (simp add: queue_full)
    have rec: "pipewrite fetch killed pi1 addr (i + 1) n = (out, j, pi', ws)"
      using 1(3) True ch nf unfolding pipewrite.simps [of fetch killed pi addr i n] by (simp add: pi1_def)
    have IH: "pipe_inv pi' \<and> i + 1 \<le> j \<and> j \<le> max (i + 1) n \<and> readopen pi' = readopen pi1 \<and> writeopen pi' = writeopen pi1 \<and>
      (\<exists>bs. queue pi' = queue pi1 @ bs \<and> map Some bs = map (\<lambda>k. fetch (addr + of_int (i + 1 + int k))) [0..<nat (j - (i + 1))]) \<and>
      (case out of
         Sleeps c \<Rightarrow> c = Ch_nwrite \<and> ws = [Ch_nread] \<and> j < n \<and> readopen pi' \<and> length (queue pi') = PIPESIZE
       | Done r \<Rightarrow> (r = -1 \<and> ws = [] \<and> j < n \<and> (killed j \<or> \<not> readopen pi')) \<or>
           (r = j \<and> ws = [Ch_nread] \<and> (n \<le> j \<or> fetch (addr + of_int j) = None)))"
      using 1(1) [of ch] True ch nf push(2) rec by (simp add: pi1_def)
    then obtain bs where bs: "queue pi' = queue pi1 @ bs"
      "map Some bs = map (\<lambda>k. fetch (addr + of_int (i + 1 + int k))) [0..<nat (j - (i + 1))]" by blast
    have "nat (j - i) = Suc (nat (j - (i + 1)))" using IH by auto
    then have "map Some (ch # bs) = map (\<lambda>k. fetch (addr + of_int (i + int k))) [0..<nat (j - i)]"
      using bs(2) ch by (simp add: upt_conv_Cons map_Suc_upt [symmetric] algebra_simps del: upt_Suc)
    moreover have "queue pi' = queue pi @ (ch # bs)" using bs(1) push(1) by simp
    ultimately have ex: "\<exists>bs. queue pi' = queue pi @ bs \<and>
        map Some bs = map (\<lambda>k. fetch (addr + of_int (i + int k))) [0..<nat (j - i)]" by blast
    have "readopen pi1 = readopen pi" "writeopen pi1 = writeopen pi" by (simp_all add: pi1_def)
    moreover have "i \<le> j" "j \<le> max i n" using IH True by auto
    ultimately show ?thesis using IH ex by simp
  qed
qed

lemma piperead_copy_spec:
  assumes "pipe_inv pi" "piperead_copy store m pi addr i n = (j, m', pi')"
  shows "pipe_inv pi' \<and> i \<le> j \<and> j \<le> max i n \<and>
    (\<exists>bs. length bs = nat (j - i) \<and> store_seq store addr i bs m = Some m' \<and>
      (queue pi = bs @ queue pi' \<and> (n \<le> j \<or> queue pi' = []) \<or>
       (\<exists>b. queue pi = bs @ b # queue pi' \<and> store (addr + of_int j) b m' = None)))"
  using assms
proof (induction store m pi addr i n rule: piperead_copy.induct)
  case (1 store m pi addr i n)
  show ?case
  proof (cases "i < n \<and> nread pi \<noteq> nwrite pi")
    case False
    then have "j = i" "m' = m" "pi' = pi" using 1(3) by (auto simp: piperead_copy.simps [of store m pi])
    then show ?thesis using False 1(2) by (intro conjI exI [of _ "[]"]) (auto simp: queue_def ring_list_Nil)
  next
    case True
    define ch where "ch = ring_at PIPESIZE (data pi) (nread pi)"
    define pi1 where "pi1 = pi\<lparr>nread := nread pi + 1\<rparr>"
    note pop = queue_pop [OF 1(2) _ pi1_def]
    show ?thesis
    proof (cases "store (addr + of_int i) ch m")
      case None
      then have "j = i" "m' = m" "pi' = pi1"
        using 1(3) True by (auto simp: piperead_copy.simps [of store m pi] ch_def pi1_def Let_def)
      then show ?thesis using None pop True by (intro conjI exI [of _ "[]"]) (auto simp: ch_def)
    next
      case (Some m1)
      have "piperead_copy store m1 pi1 addr (i + 1) n = (j, m', pi')"
        using 1(3) True Some by (simp add: piperead_copy.simps [of store m pi] ch_def pi1_def Let_def)
      then have IH: "pipe_inv pi' \<and> i + 1 \<le> j \<and> j \<le> max (i + 1) n \<and>
        (\<exists>bs. length bs = nat (j - (i + 1)) \<and> store_seq store addr (i + 1) bs m1 = Some m' \<and>
          (queue pi1 = bs @ queue pi' \<and> (n \<le> j \<or> queue pi' = []) \<or>
           (\<exists>b. queue pi1 = bs @ b # queue pi' \<and> store (addr + of_int j) b m' = None)))"
        using 1(1) [OF True ch_def pi1_def Some] pop(2) True by simp
      then obtain bs where bs: "length bs = nat (j - (i + 1))" "store_seq store addr (i + 1) bs m1 = Some m'"
        "queue pi1 = bs @ queue pi' \<and> (n \<le> j \<or> queue pi' = []) \<or>
         (\<exists>b. queue pi1 = bs @ b # queue pi' \<and> store (addr + of_int j) b m' = None)" by blast
      have "length (ch # bs) = nat (j - i)" using bs(1) IH by auto
      moreover have "store_seq store addr i (ch # bs) m = Some m'" using bs(2) Some by simp
      moreover have "queue pi = ch # queue pi1" using pop(1) True by (simp add: ch_def)
      ultimately show ?thesis using bs(3) IH True by (intro conjI exI [of _ "ch # bs"]) auto
    qed
  qed
qed

section \<open>Histories of a pipe\<close>

text \<open>
  All the critical sections a pipe can go through, in any order and by any number of processes, with
  the bytes the writers put in and, for every read, the bytes it delivered and whether copyout fails
  at the address of the next one. copyout fails at the addresses that fails says, which may differ
  from read to read.
\<close>

definition deliver :: "(u64 \<Rightarrow> bool) \<Rightarrow> u64 \<Rightarrow> byte \<Rightarrow> byte list \<Rightarrow> byte list option" where
  "deliver fails a b m = (if fails a then None else Some (m @ [b]))"

inductive pipe_run :: "pipe \<Rightarrow> byte list \<Rightarrow> (byte list \<times> bool) list \<Rightarrow> bool" where
  p_start: "length junk = PIPESIZE \<Longrightarrow> pipe_run (pipe_init junk) [] []"
| p_write: "pipe_run pi sent got \<Longrightarrow> pipewrite fetch killed pi addr i n = (out, j, pi', ws) \<Longrightarrow>
    pipe_run pi' (sent @ map (\<lambda>k. the (fetch (addr + of_int (i + int k)))) [0..<nat (j - i)]) got"
| p_read: "pipe_run pi sent got \<Longrightarrow> piperead (deliver fails) killed [] pi addr n = (out, bs, pi', ws) \<Longrightarrow>
    pipe_run pi' sent (got @ [(bs, fails (addr + of_nat (length bs)))])"
| p_close: "pipe_run pi sent got \<Longrightarrow> pipe_run (fst (pipeclose pi writable)) sent got"

text \<open>What a read took out of the buffer: what it delivered, and one byte more only if copyout failed.\<close>

definition took :: "byte list \<times> bool \<Rightarrow> byte list \<Rightarrow> bool" where
  "took r xs \<longleftrightarrow> xs = fst r \<or> snd r \<and> (\<exists>b. xs = fst r @ [b])"

lemma map_Some_the: "map Some bs = map f ks \<Longrightarrow> map (\<lambda>k. the (f k)) ks = bs"
proof -
  assume "map Some bs = map f ks"
  then have "map the (map f ks) = map the (map Some bs)" by simp
  then show ?thesis by (simp add: comp_def)
qed

lemma deliver_seq: "store_seq (deliver fails) a i bs m = Some m' \<Longrightarrow> m' = m @ bs"
  by (induction bs arbitrary: i m) (fastforce simp: deliver_def split: if_splits)+

lemma piperead_took:
  assumes "pipe_inv pi" "piperead (deliver fails) killed [] pi addr n = (out, bs, pi', ws)"
  shows "pipe_inv pi' \<and> (\<exists>xs. queue pi = xs @ queue pi' \<and> took (bs, fails (addr + of_nat (length bs))) xs)"
proof (cases "nread pi = nwrite pi \<and> writeopen pi")
  case True
  then show ?thesis using assms by (auto simp: piperead_def took_def split: if_splits)
next
  case False
  then obtain i where c: "piperead_copy (deliver fails) [] pi addr 0 n = (i, bs, pi')"
    using assms(2) by (auto simp: piperead_def split: prod.splits)
  from piperead_copy_spec [OF assms(1) c] obtain cs where inv: "pipe_inv pi'" and i: "0 \<le> i" and cs: "length cs = nat i"
    "store_seq (deliver fails) addr 0 cs [] = Some bs"
    "queue pi = cs @ queue pi' \<or> (\<exists>b. queue pi = cs @ b # queue pi' \<and> deliver fails (addr + of_int i) b bs = None)" by auto
  have bs: "bs = cs" using deliver_seq [OF cs(2)] by simp
  have "of_int i = (of_nat (length bs) :: u64)" using i cs(1) bs by (metis nat_0_le of_int_of_nat_eq)
  then show ?thesis using cs(3) bs inv by (auto simp: took_def deliver_def split: if_splits)
qed

lemma pipe_run_inv:
  "pipe_run pi sent got \<Longrightarrow> pipe_inv pi \<and> (\<exists>xss. list_all2 took got xss \<and> sent = concat xss @ queue pi)"
proof (induction rule: pipe_run.induct)
  case (p_start junk)
  then show ?case by (simp add: pipe_inv_def pipe_init_def queue_def)
next
  case (p_write pi sent got fetch killed addr i n out j pi' ws)
  then obtain xss where inv: "pipe_inv pi" and sent: "list_all2 took got xss" "sent = concat xss @ queue pi" by auto
  from pipewrite_spec [OF inv p_write.hyps(2)] obtain bs where w: "pipe_inv pi'" "queue pi' = queue pi @ bs"
    "map Some bs = map (\<lambda>k. fetch (addr + of_int (i + int k))) [0..<nat (j - i)]" by blast
  show ?case unfolding map_Some_the [OF w(3)] using sent w(1,2) by auto
next
  case (p_read pi sent got fails killed addr n out bs pi' ws)
  then obtain xss where inv: "pipe_inv pi" and sent: "list_all2 took got xss" "sent = concat xss @ queue pi" by auto
  from piperead_took [OF inv p_read.hyps(2)] obtain xs where
    xs: "pipe_inv pi'" "queue pi = xs @ queue pi'" "took (bs, fails (addr + of_nat (length bs))) xs" by blast
  have "list_all2 took (got @ [(bs, fails (addr + of_nat (length bs)))]) (xss @ [xs])"
    by (rule list_all2_appendI [OF sent(1)]) (simp add: xs(3))
  then show ?case using xs(1,2) sent(2) by (intro conjI exI [of _ "xss @ [xs]"]) simp_all
next
  case (p_close pi sent got writable)
  then show ?case by (auto simp: pipeclose_def Let_def pipe_inv_def queue_def)
qed

lemma took_no_fault: "list_all2 took got xss \<Longrightarrow> (\<forall>r\<in>set got. \<not> snd r) \<Longrightarrow> xss = map fst got"
  by (induction rule: list_all2_induct) (auto simp: took_def)

section \<open>Sleeping readers and writers\<close>

text \<open>
  The same sections with the processes that sleep on the two channels, Z, woken as the sections say.
  A sleeping process may also be woken by kill. The flag left says that a write section returned -1
  after it had added bytes, and that nobody has woken the readers since.
\<close>

definition after_section :: "poutcome \<Rightarrow> pchan list \<Rightarrow> nat \<Rightarrow> (pchan \<Rightarrow> nat set) \<Rightarrow> pchan \<Rightarrow> nat set" where
  "after_section out ws p Z c = (if c \<in> set ws then {} else Z c) \<union> (if out = Sleeps c then {p} else {})"

inductive pipe_sleepers :: "pipe \<Rightarrow> (pchan \<Rightarrow> nat set) \<Rightarrow> bool \<Rightarrow> bool" where
  z_start: "length junk = PIPESIZE \<Longrightarrow> pipe_sleepers (pipe_init junk) (\<lambda>c. {}) False"
| z_write: "pipe_sleepers pi Z left \<Longrightarrow> p \<notin> Z Ch_nread \<union> Z Ch_nwrite \<Longrightarrow>
    pipewrite fetch killed pi addr i n = (out, j, pi', ws) \<Longrightarrow>
    pipe_sleepers pi' (after_section out ws p Z) (Ch_nread \<notin> set ws \<and> (left \<or> out = Done (-1) \<and> i < j))"
| z_read: "pipe_sleepers pi Z left \<Longrightarrow> p \<notin> Z Ch_nread \<union> Z Ch_nwrite \<Longrightarrow>
    piperead (deliver fails) killed [] pi addr n = (out, bs, pi', ws) \<Longrightarrow>
    pipe_sleepers pi' (after_section out ws p Z) (Ch_nread \<notin> set ws \<and> left)"
| z_close: "pipe_sleepers pi Z left \<Longrightarrow> pipeclose pi writable = (pi', ch, gone) \<Longrightarrow>
    pipe_sleepers pi' (Z(ch := {})) (ch \<noteq> Ch_nread \<and> left)"
| z_kill: "pipe_sleepers pi Z left \<Longrightarrow> pipe_sleepers pi (Z(c := Z c - {p})) left"

definition sleepers_ok :: "pipe \<Rightarrow> (pchan \<Rightarrow> nat set) \<Rightarrow> bool \<Rightarrow> bool" where
  "sleepers_ok pi Z left \<longleftrightarrow> (Z Ch_nread = {} \<or> Z Ch_nwrite = {}) \<and>
     (Z Ch_nread \<noteq> {} \<longrightarrow> writeopen pi \<and> (queue pi = [] \<or> left)) \<and>
     (Z Ch_nwrite \<noteq> {} \<longrightarrow> readopen pi \<and> length (queue pi) = PIPESIZE)"

lemma piperead_copy_open:
  "piperead_copy store m pi addr i n = (j, m', pi') \<Longrightarrow> readopen pi' = readopen pi \<and> writeopen pi' = writeopen pi"
proof (induction store m pi addr i n rule: piperead_copy.induct)
  case (1 store m pi addr i n)
  show ?case
    using 1(2) 1(1) [OF _ refl refl]
    by (auto simp: piperead_copy.simps [of store m pi] Let_def split: if_splits option.splits)
qed

lemma piperead_spec:
  assumes "pipe_inv pi" "piperead store killed m pi addr n = (out, m', pi', ws)"
  shows "pipe_inv pi' \<and> readopen pi' = readopen pi \<and> writeopen pi' = writeopen pi \<and>
    (out = Sleeps Ch_nread \<and> pi' = pi \<and> queue pi = [] \<and> writeopen pi \<and> ws = [] \<or>
     out = Done (-1) \<and> pi' = pi \<and> ws = [] \<or> (\<exists>r. out = Done r) \<and> ws = [Ch_nwrite] \<and> (queue pi = [] \<longrightarrow> queue pi' = []))"
proof (cases "nread pi = nwrite pi \<and> writeopen pi")
  case True
  then show ?thesis using assms by (auto simp: piperead_def queue_def ring_list_Nil split: if_splits)
next
  case False
  then obtain i where c: "piperead_copy store m pi addr 0 n = (i, m', pi')" "out = Done i" "ws = [Ch_nwrite]"
    using assms(2) by (auto simp: piperead_def split: prod.splits)
  then show ?thesis using piperead_copy_open [OF c(1)] piperead_copy_spec [OF assms(1) c(1)] c(2,3) by auto
qed

lemma sleepers_write:
  assumes "pipe_inv pi" "sleepers_ok pi Z left" "pipewrite fetch killed pi addr i n = (out, j, pi', ws)"
  shows "pipe_inv pi' \<and> sleepers_ok pi' (after_section out ws p Z) (Ch_nread \<notin> set ws \<and> (left \<or> out = Done (-1) \<and> i < j))"
proof -
  from pipewrite_spec [OF assms(1,3)] obtain bs where
    w: "pipe_inv pi'" "i \<le> j" "readopen pi' = readopen pi" "writeopen pi' = writeopen pi" "queue pi' = queue pi @ bs"
      "map Some bs = map (\<lambda>k. fetch (addr + of_int (i + int k))) [0..<nat (j - i)]"
    and out: "out = Sleeps Ch_nwrite \<and> ws = [Ch_nread] \<and> readopen pi' \<and> length (queue pi') = PIPESIZE \<or>
      out = Done (-1) \<and> ws = [] \<or> (\<exists>r. out = Done r) \<and> ws = [Ch_nread]"
    by (cases out) auto
  have "length bs = nat (j - i)" using arg_cong [OF w(6), of length] by simp
  then have same: "\<not> i < j \<Longrightarrow> queue pi' = queue pi" using w(2,5) by simp
  have full: "length (queue pi') = PIPESIZE" if "length (queue pi) = PIPESIZE"
    using that w(1,5) by (simp add: pipe_inv_def length_queue [symmetric])
  from out show ?thesis using assms(2) w(1,3,4) same full
    by (elim disjE conjE exE) (auto simp: sleepers_ok_def after_section_def)
qed

lemma pipe_sleepers_inv: "pipe_sleepers pi Z left \<Longrightarrow> pipe_inv pi \<and> sleepers_ok pi Z left"
proof (induction rule: pipe_sleepers.induct)
  case (z_start junk)
  then show ?case by (simp add: pipe_inv_def pipe_init_def sleepers_ok_def)
next
  case (z_write pi Z left p fetch killed addr i n out j pi' ws)
  then show ?case using sleepers_write by blast
next
  case (z_read pi Z left p fails killed addr n out bs pi' ws)
  then have inv: "pipe_inv pi" and ok: "sleepers_ok pi Z left" by simp_all
  from piperead_spec [OF inv z_read.hyps(3)] ok show ?case
    by (elim conjE) (elim disjE; auto simp: sleepers_ok_def after_section_def PIPESIZE_def)
next
  case (z_close pi Z left writable pi' ch gone)
  then show ?case by (auto simp: pipeclose_def Let_def pipe_inv_def sleepers_ok_def queue_def split: if_splits)
next
  case (z_kill pi Z left c p)
  then show ?case by (cases c) (auto simp: sleepers_ok_def)
qed

section \<open>Properties\<close>

text \<open>
  C6. A pipe is a first-in first-out queue of at most 512 bytes: in every history of writes, reads
  and closes, what the writers put in is what the reads took out, in order, followed by what is still
  in the buffer. A read takes out what it delivers, and one byte more only if copyout fails on it:
  that byte is lost. Without such a failure nothing is lost. The counters may wrap around.
\<close>

theorem pipe_fifo:
  assumes "pipe_run pi sent got"
  shows "(\<exists>xss. list_all2 took got xss \<and> sent = concat xss @ queue pi) \<and> length (queue pi) \<le> PIPESIZE \<and>
    ((\<forall>r\<in>set got. \<not> snd r) \<longrightarrow> sent = concat (map fst got) @ queue pi)"
  using pipe_run_inv [OF assms] took_no_fault [of got] by (auto simp: pipe_inv_def length_queue)

text \<open>Two bytes are written; the first is read, the second is lost to a failing copyout.\<close>

theorem pipe_fifo_witness:
  "\<exists>pi xss. pipe_run pi [104, 105] [([104], False), ([], True)] \<and>
     list_all2 took [([104], False), ([], True)] xss \<and> [104, 105] = concat xss @ queue pi \<and> queue pi = []"
proof -
  define p0 where "p0 = pipe_init (replicate PIPESIZE 0)"
  define fetch :: "u64 \<Rightarrow> byte option" where "fetch = (\<lambda>a. if a = 0 then Some 104 else Some 105)"
  have s0: "pipe_run p0 [] []" unfolding p0_def by (rule pipe_run.p_start) simp
  define p1 where "p1 = p0\<lparr>data := (replicate PIPESIZE 0)[0 := 104, 1 := 105], nwrite := 2\<rparr>"
  have "pipewrite fetch (\<lambda>_. False) p0 0 0 2 = (Done 2, 2, p1, [Ch_nread])"
    by (simp add: pipewrite.simps p0_def p1_def pipe_init_def fetch_def ring_put_def PIPESIZE_def)
  from pipe_run.p_write [OF s0 this] have s1: "pipe_run p1 [104, 105] []"
    by (simp add: fetch_def upt_rec)
  have "piperead (deliver (\<lambda>a. a = 9)) False [] p1 0 1 = (Done 1, [104], p1\<lparr>nread := 1\<rparr>, [Ch_nwrite])"
    by (simp add: piperead_def piperead_copy.simps deliver_def p1_def p0_def pipe_init_def ring_at_def PIPESIZE_def nth_list_update)
  from pipe_run.p_read [OF s1 this] have s2: "pipe_run (p1\<lparr>nread := 1\<rparr>) [104, 105] [([104], False)]" by simp
  have "piperead (deliver (\<lambda>a. a = 9)) False [] (p1\<lparr>nread := 1\<rparr>) 9 1 = (Done 0, [], p1\<lparr>nread := 2\<rparr>, [Ch_nwrite])"
    by (simp add: piperead_def piperead_copy.simps deliver_def p1_def p0_def pipe_init_def PIPESIZE_def)
  from pipe_run.p_read [OF s2 this] have s3: "pipe_run (p1\<lparr>nread := 2\<rparr>) [104, 105] [([104], False), ([], True)]" by simp
  have "queue (p1\<lparr>nread := 2\<rparr>) = []" by (simp add: queue_def p1_def p0_def pipe_init_def)
  then show ?thesis using pipe_fifo [OF s3] s3 by blast
qed

text \<open>
  C21. Readers and writers of a pipe never wait for each other: on every interleaving of their
  sections, with closes and kills, no reader sleeps while a writer sleeps; a writer sleeps only while
  the buffer is full and the read end open; and a reader sleeps only while the write end is open and
  the buffer empty. The last has one exception, which does occur: a writer that is killed after it has
  added bytes returns without the wakeup, and a reader then sleeps although there are bytes to read.
\<close>

theorem pipe_no_deadlock:
  "(\<forall>pi Z left. pipe_sleepers pi Z left \<longrightarrow>
      (Z Ch_nread = {} \<or> Z Ch_nwrite = {}) \<and>
      (Z Ch_nwrite \<noteq> {} \<longrightarrow> readopen pi \<and> length (queue pi) = PIPESIZE) \<and>
      (Z Ch_nread \<noteq> {} \<longrightarrow> writeopen pi \<and> (queue pi = [] \<or> left))) \<and>
   (\<exists>pi Z. pipe_sleepers pi Z True \<and> Z Ch_nread \<noteq> {} \<and> queue pi \<noteq> [])"
proof (intro conjI allI impI)
  fix pi Z left assume "pipe_sleepers pi Z left"
  then have "sleepers_ok pi Z left" by (simp add: pipe_sleepers_inv)
  then show "Z Ch_nread = {} \<or> Z Ch_nwrite = {}"
    "Z Ch_nwrite \<noteq> {} \<Longrightarrow> readopen pi" "Z Ch_nwrite \<noteq> {} \<Longrightarrow> length (queue pi) = PIPESIZE"
    "Z Ch_nread \<noteq> {} \<Longrightarrow> writeopen pi" "Z Ch_nread \<noteq> {} \<Longrightarrow> queue pi = [] \<or> left"
    by (simp_all add: sleepers_ok_def)
next
  define p0 where "p0 = pipe_init (replicate PIPESIZE 0)"
  have s0: "pipe_sleepers p0 (\<lambda>c. {}) False" unfolding p0_def by (rule z_start) simp
  have "piperead (deliver (\<lambda>a. False)) False [] p0 0 4 = (Sleeps Ch_nread, [], p0, [])" by (simp add: piperead_def p0_def pipe_init_def)
  from z_read [OF s0 _ this, of 1] have s1: "pipe_sleepers p0 (after_section (Sleeps Ch_nread) [] 1 (\<lambda>c. {})) False" by simp
  define p1 where "p1 = p0\<lparr>data := (replicate PIPESIZE 0)[0 := 104], nwrite := 1\<rparr>"
  have "pipewrite (\<lambda>a. Some 104) (\<lambda>i. i = 1) p0 0 0 2 = (Done (- 1), 1, p1, [])"
    by (simp add: pipewrite.simps p0_def p1_def pipe_init_def ring_put_def PIPESIZE_def)
  from z_write [OF s1 _ this, of 2] have
    s2: "pipe_sleepers p1 (after_section (Done (- 1)) [] 2 (after_section (Sleeps Ch_nread) [] 1 (\<lambda>c. {}))) True"
    by (simp add: after_section_def)
  have "length (queue p1) = 1" by (simp add: length_queue p1_def p0_def pipe_init_def)
  then show "\<exists>pi Z. pipe_sleepers pi Z True \<and> Z Ch_nread \<noteq> {} \<and> queue pi \<noteq> []"
    using s2 by (intro exI [of _ p1] exI [of _ "after_section (Done (- 1)) [] 2 (after_section (Sleeps Ch_nread) [] 1 (\<lambda>c. {}))"])
      (auto simp: after_section_def)
qed

theorem pipe_no_deadlock_witness:
  "\<exists>Z. pipe_sleepers (pipe_init (replicate PIPESIZE 0)) Z False \<and> Z Ch_nread = {1} \<and> Z Ch_nwrite = {} \<and>
     queue (pipe_init (replicate PIPESIZE 0)) = []"
proof -
  define p0 where "p0 = pipe_init (replicate PIPESIZE 0)"
  have s0: "pipe_sleepers p0 (\<lambda>c. {}) False" unfolding p0_def by (rule z_start) simp
  have "piperead (deliver (\<lambda>a. False)) False [] p0 0 4 = (Sleeps Ch_nread, [], p0, [])" by (simp add: piperead_def p0_def pipe_init_def)
  from z_read [OF s0 _ this, of 1] have s1: "pipe_sleepers p0 (after_section (Sleeps Ch_nread) [] 1 (\<lambda>c. {})) False" by simp
  let ?Z = "after_section (Sleeps Ch_nread) [] 1 (\<lambda>c. {})"
  have z: "?Z Ch_nread = {1}" by (simp add: after_section_def)
  then have "?Z Ch_nwrite = {}" "queue p0 = []"
    using pipe_no_deadlock [THEN conjunct1, rule_format, OF s1] by (auto simp: PIPESIZE_def)
  then show ?thesis using s1 z unfolding p0_def by blast
qed

end
