(* ===== verification/Xv6_Console.thy ===== *)
theory Xv6_Console
  imports Xv6_Ring
begin

text \<open>
  The console driver, console.c, and the serial port below it, uart.c. The device is a pair of
  functions: what the n-th read of the line status register and the n-th read of the receive
  register return. The driver's state records how many reads it has made and every byte it has
  written to the transmit register. Each acquire ... release section is one function; the sections
  that may sleep return what they need to be resumed.
\<close>

section \<open>The serial port\<close>

definition UART_TX_BUF_SIZE :: nat where "UART_TX_BUF_SIZE = 32"
definition LSR_RX_READY :: byte where "LSR_RX_READY = push_bit 0 1"
definition LSR_TX_IDLE :: byte where "LSR_TX_IDLE = push_bit 5 1"

record uart =
  tx_buf :: "byte list"
  tx_w :: u64
  tx_r :: u64
  thr :: "byte list"
  nlsr :: nat
  nrhr :: nat

text \<open>The register writes of uartinit: IER, LCR, divisor low and high, LCR, FCR, IER.\<close>

definition uartinit :: "(nat \<times> byte) list" where
  "uartinit = [(1, 0), (3, push_bit 7 1), (0, 3), (1, 0), (3, push_bit 0 3),
     (2, push_bit 0 1 OR push_bit 1 3), (1, push_bit 1 1 OR push_bit 0 1)]"

text \<open>uartstart returns the new state and how often it woke the sleepers on uart_tx_r.\<close>

function uartstart :: "(nat \<Rightarrow> byte) \<Rightarrow> uart \<Rightarrow> uart \<times> nat" where
  "uartstart lsr u =
     (if tx_w u = tx_r u then (u, 0)
      else let status = lsr (nlsr u); u1 = u\<lparr>nlsr := nlsr u + 1\<rparr> in
           if status AND LSR_TX_IDLE = 0 then (u1, 0)
           else let c = ring_at UART_TX_BUF_SIZE (tx_buf u) (tx_r u);
                    (u2, k) = uartstart lsr (u1\<lparr>tx_r := tx_r u + 1, thr := thr u @ [c]\<rparr>)
                in (u2, Suc k))"
  by pat_completeness auto
termination
  by (relation "measure (\<lambda>(lsr, u). unat (tx_w u - tx_r u))") (auto simp: unat_minus_Suc)

declare uartstart.simps [simp del]

datatype uoutcome = U_done | U_sleep | U_hang

text \<open>From the test of the loop in uartputc, where the code also resumes after a sleep.\<close>

definition uartputc_loop :: "(nat \<Rightarrow> byte) \<Rightarrow> uart \<Rightarrow> byte \<Rightarrow> uoutcome \<times> uart \<times> nat" where
  "uartputc_loop lsr u c =
     (if tx_w u = tx_r u + of_nat UART_TX_BUF_SIZE then (U_sleep, u, 0)
      else let (u', k) = uartstart lsr
                 (u\<lparr>tx_buf := ring_put UART_TX_BUF_SIZE (tx_buf u) (tx_w u) c, tx_w := tx_w u + 1\<rparr>)
           in (U_done, u', k))"

definition uartputc :: "bool \<Rightarrow> (nat \<Rightarrow> byte) \<Rightarrow> uart \<Rightarrow> byte \<Rightarrow> uoutcome \<times> uart \<times> nat" where
  "uartputc panicked lsr u c = (if panicked then (U_hang, u, 0) else uartputc_loop lsr u c)"

text \<open>The busy wait of uartputc_sync; None if the port never becomes idle.\<close>

partial_function (option) uart_wait :: "(nat \<Rightarrow> byte) \<Rightarrow> nat \<Rightarrow> nat option" where
  "uart_wait lsr k = (if lsr k AND LSR_TX_IDLE = 0 then uart_wait lsr (Suc k) else Some (Suc k))"

definition uartputc_sync :: "bool \<Rightarrow> (nat \<Rightarrow> byte) \<Rightarrow> byte \<Rightarrow> uart \<Rightarrow> uart option" where
  "uartputc_sync panicked lsr c u =
     (if panicked then None
      else map_option (\<lambda>k. u\<lparr>nlsr := k, thr := thr u @ [c]\<rparr>) (uart_wait lsr (nlsr u)))"

definition uartgetc :: "(nat \<Rightarrow> byte) \<Rightarrow> (nat \<Rightarrow> byte) \<Rightarrow> uart \<Rightarrow> int \<times> uart" where
  "uartgetc lsr rhr u =
     (let u1 = u\<lparr>nlsr := nlsr u + 1\<rparr> in
      if lsr (nlsr u) AND LSR_RX_READY \<noteq> 0 then (uint (rhr (nrhr u)), u1\<lparr>nrhr := nrhr u + 1\<rparr>)
      else (-1, u1))"

section \<open>The console\<close>

definition INPUT_BUF_SIZE :: nat where "INPUT_BUF_SIZE = 128"
definition BACKSPACE :: int where "BACKSPACE = 256"

text \<open>Control-x, for the code of a character.\<close>

definition Ctrl :: "int \<Rightarrow> int" where "Ctrl x = x - 64"

record cons =
  buf :: "byte list"
  r_idx :: u32
  w_idx :: u32
  e_idx :: u32

text \<open>What a handler does to the world: a byte sent, the process list printed, readers woken.\<close>

datatype cevent = Sync byte | Procdump | Wakeup

definition consputc :: "int \<Rightarrow> cevent list" where
  "consputc c = (if c = BACKSPACE then [Sync 8, Sync 32, Sync 8] else [Sync (of_int c)])"

function kill_line :: "cons \<Rightarrow> cons \<times> cevent list" where
  "kill_line s =
     (if e_idx s \<noteq> w_idx s \<and> ring_at INPUT_BUF_SIZE (buf s) (e_idx s - 1) \<noteq> 10
      then let (s', evs) = kill_line (s\<lparr>e_idx := e_idx s - 1\<rparr>) in (s', consputc BACKSPACE @ evs)
      else (s, []))"
  by pat_completeness auto
termination
proof (relation "measure (\<lambda>s. unat (e_idx s - w_idx s))")
  fix s :: cons
  assume "e_idx s \<noteq> w_idx s \<and> ring_at INPUT_BUF_SIZE (buf s) (e_idx s - 1) \<noteq> 10"
  then show "(s\<lparr>e_idx := e_idx s - 1\<rparr>, s) \<in> measure (\<lambda>s. unat (e_idx s - w_idx s))"
    using measure_unat [of "e_idx s - w_idx s"] by (simp add: algebra_simps)
qed simp

declare kill_line.simps [simp del]

definition consoleintr :: "int \<Rightarrow> cons \<Rightarrow> cons \<times> cevent list" where
  "consoleintr c s =
     (if c = Ctrl 80 then (s, [Procdump])
      else if c = Ctrl 85 then kill_line s
      else if c = Ctrl 72 \<or> c = 127 then
        if e_idx s \<noteq> w_idx s then (s\<lparr>e_idx := e_idx s - 1\<rparr>, consputc BACKSPACE) else (s, [])
      else if c \<noteq> 0 \<and> e_idx s - r_idx s < of_nat INPUT_BUF_SIZE then
        let c' = (if c = 13 then 10 else c);
            s1 = s\<lparr>buf := ring_put INPUT_BUF_SIZE (buf s) (e_idx s) (of_int c'), e_idx := e_idx s + 1\<rparr> in
        if c' = 10 \<or> c' = Ctrl 68 \<or> e_idx s1 - r_idx s1 = of_nat INPUT_BUF_SIZE
        then (s1\<lparr>w_idx := e_idx s1\<rparr>, consputc c' @ [Wakeup])
        else (s1, consputc c')
      else (s, []))"

datatype coutcome = C_done int | C_sleep

text \<open>
  consoleread from the head of its loop, with n bytes still wanted of target; the result carries dst
  and n, which a sleeping reader keeps.
\<close>

function consoleread_from :: "(u64 \<Rightarrow> byte \<Rightarrow> 'm \<Rightarrow> 'm option) \<Rightarrow> bool \<Rightarrow> 'm \<Rightarrow> cons \<Rightarrow> u64 \<Rightarrow> int \<Rightarrow> int \<Rightarrow>
    coutcome \<times> 'm \<times> cons \<times> u64 \<times> int" where
  "consoleread_from store killed m s dst n target =
     (if n > 0 then
        if r_idx s = w_idx s then
          if killed then (C_done (-1), m, s, dst, n) else (C_sleep, m, s, dst, n)
        else let c = ring_at INPUT_BUF_SIZE (buf s) (r_idx s); s1 = s\<lparr>r_idx := r_idx s + 1\<rparr> in
          if uint c = Ctrl 68 then
            (C_done (target - n), m, if n < target then s1\<lparr>r_idx := r_idx s1 - 1\<rparr> else s1, dst, n)
          else case store dst c m of
            None \<Rightarrow> (C_done (target - n), m, s1, dst, n)
          | Some m' \<Rightarrow>
              if uint c = 10 then (C_done (target - (n - 1)), m', s1, dst + 1, n - 1)
              else consoleread_from store killed m' s1 (dst + 1) (n - 1) target
      else (C_done (target - n), m, s, dst, n))"
  by pat_completeness auto
termination
  by (relation "measure (\<lambda>(store, killed, m, s, dst, n, target). nat n)") auto

declare consoleread_from.simps [simp del]

definition consoleread :: "(u64 \<Rightarrow> byte \<Rightarrow> 'm \<Rightarrow> 'm option) \<Rightarrow> bool \<Rightarrow> 'm \<Rightarrow> cons \<Rightarrow> u64 \<Rightarrow> int \<Rightarrow>
    coutcome \<times> 'm \<times> cons \<times> u64 \<times> int" where
  "consoleread store killed m s dst n = consoleread_from store killed m s dst n n"

text \<open>
  consolewrite up to its next sleep: the characters go to uartputc one by one. The result is the
  outcome of the last uartputc, the index reached, the port and the number of wakeups.
\<close>

function consolewrite :: "(u64 \<Rightarrow> byte option) \<Rightarrow> bool \<Rightarrow> (nat \<Rightarrow> byte) \<Rightarrow> uart \<Rightarrow> u64 \<Rightarrow> int \<Rightarrow> int \<Rightarrow>
    uoutcome \<times> int \<times> uart" where
  "consolewrite fetch panicked lsr u src i n =
     (if i < n then
        case fetch (src + of_int i) of
          None \<Rightarrow> (U_done, i, u)
        | Some c \<Rightarrow>
            (case uartputc panicked lsr u c of
               (U_done, u', _) \<Rightarrow> consolewrite fetch panicked lsr u' src (i + 1) n
             | (out, u', _) \<Rightarrow> (out, i, u'))
      else (U_done, i, u))"
  by pat_completeness auto
termination
  by (relation "measure (\<lambda>(fetch, panicked, lsr, u, src, i, n). nat (n - i))") auto

declare consolewrite.simps [simp del]

section \<open>The interrupt handler\<close>

text \<open>
  The effects of consoleintr on the port: echoed bytes go through uartputc_sync; the bytes procdump
  prints are an argument. None if the port hangs.
\<close>

fun echo :: "bool \<Rightarrow> (nat \<Rightarrow> byte) \<Rightarrow> byte list \<Rightarrow> cevent list \<Rightarrow> uart \<Rightarrow> uart option" where
  "echo panicked lsr dump [] u = Some u"
| "echo panicked lsr dump (Sync b # evs) u =
     Option.bind (uartputc_sync panicked lsr b u) (echo panicked lsr dump evs)"
| "echo panicked lsr dump (Wakeup # evs) u = echo panicked lsr dump evs u"
| "echo panicked lsr dump (Procdump # evs) u =
     Option.bind (foldl (\<lambda>v b. Option.bind v (uartputc_sync panicked lsr b)) (Some u) dump)
       (echo panicked lsr dump evs)"

partial_function (option) uartintr_loop ::
  "bool \<Rightarrow> (nat \<Rightarrow> byte) \<Rightarrow> (nat \<Rightarrow> byte) \<Rightarrow> byte list \<Rightarrow> uart \<Rightarrow> cons \<Rightarrow> (uart \<times> cons) option" where
  "uartintr_loop panicked lsr rhr dump u s =
     (case uartgetc lsr rhr u of (c, u1) \<Rightarrow>
        if c = -1 then Some (u1, s)
        else case consoleintr c s of (s', evs) \<Rightarrow>
          Option.bind (echo panicked lsr dump evs u1) (\<lambda>u2. uartintr_loop panicked lsr rhr dump u2 s'))"

definition uartintr :: "bool \<Rightarrow> (nat \<Rightarrow> byte) \<Rightarrow> (nat \<Rightarrow> byte) \<Rightarrow> byte list \<Rightarrow> uart \<Rightarrow> cons \<Rightarrow> (uart \<times> cons \<times> nat) option" where
  "uartintr panicked lsr rhr dump u s =
     Option.bind (uartintr_loop panicked lsr rhr dump u s)
       (\<lambda>(u1, s'). case uartstart lsr u1 of (u2, k) \<Rightarrow> Some (u2, s', k))"

section \<open>The console as a line editor\<close>

interpretation co: ring INPUT_BUF_SIZE "TYPE(32)"
  by unfold_locales (simp_all add: INPUT_BUF_SIZE_def)

definition committed :: "cons \<Rightarrow> byte list" where
  "committed s = ring_list INPUT_BUF_SIZE (buf s) (r_idx s) (w_idx s)"

definition editing :: "cons \<Rightarrow> byte list" where
  "editing s = ring_list INPUT_BUF_SIZE (buf s) (w_idx s) (e_idx s)"

definition cons_inv :: "cons \<Rightarrow> bool" where
  "cons_inv s \<longleftrightarrow> length (buf s) = INPUT_BUF_SIZE \<and> unat (e_idx s - r_idx s) \<le> INPUT_BUF_SIZE \<and>
     unat (w_idx s - r_idx s) \<le> unat (e_idx s - r_idx s) \<and> 10 \<notin> set (editing s) \<and> 4 \<notin> set (editing s) \<and>
     (editing s \<noteq> [] \<longrightarrow> unat (e_idx s - r_idx s) < INPUT_BUF_SIZE)"

text \<open>The abstract editor: lines handed to readers, and the line being typed.\<close>

definition edit :: "int \<Rightarrow> byte list \<times> byte list \<Rightarrow> byte list \<times> byte list" where
  "edit c ql =
     (let (q, l) = ql in
      if c = 16 \<or> c = 0 then (q, l)
      else if c = 21 then (q, [])
      else if c = 8 \<or> c = 127 then (q, butlast l)
      else if length q + length l < INPUT_BUF_SIZE then
        let b = (if c = 13 then 10 else of_int c) in
        if b = 10 \<or> b = 4 \<or> length q + length l + 1 = INPUT_BUF_SIZE then (q @ l @ [b], [])
        else (q, l @ [b])
      else (q, l))"

lemma cons_contents:
  assumes "cons_inv s"
  shows "ring_list INPUT_BUF_SIZE (buf s) (r_idx s) (e_idx s) = committed s @ editing s"
    and "unat (e_idx s - r_idx s) = length (committed s) + length (editing s)"
  using assms ring_list_split [of "w_idx s" "r_idx s" "e_idx s" INPUT_BUF_SIZE "buf s"]
    unat_between [of "w_idx s" "r_idx s" "e_idx s"]
  by (simp_all add: cons_inv_def committed_def editing_def)

lemma cons_invI:
  assumes "length (buf s) = INPUT_BUF_SIZE" "unat (w_idx s - r_idx s) \<le> unat (e_idx s - r_idx s)"
    "length (committed s) + length (editing s) \<le> INPUT_BUF_SIZE" "10 \<notin> set (editing s)" "4 \<notin> set (editing s)"
    "editing s \<noteq> [] \<longrightarrow> length (committed s) + length (editing s) < INPUT_BUF_SIZE"
  shows "cons_inv s"
  using assms unat_between [OF assms(2)] by (simp add: cons_inv_def committed_def editing_def)

text \<open>Since a newline is committed as soon as it arrives, control-U removes the whole line.\<close>

lemma kill_line_spec:
  assumes "10 \<notin> set (editing s)"
  shows "fst (kill_line s) = s\<lparr>e_idx := w_idx s\<rparr> \<and> Wakeup \<notin> set (snd (kill_line s))"
  using assms
proof (induction s rule: kill_line.induct)
  case (1 s)
  show ?case
  proof (cases "e_idx s = w_idx s")
    case True
    then have "s\<lparr>e_idx := w_idx s\<rparr> = s" by (metis cons.surjective cons.update_convs(4))
    then show ?thesis using True unfolding kill_line.simps [of s] by simp
  next
    case False
    let ?s = "s\<lparr>e_idx := e_idx s - 1\<rparr>"
    have ed: "editing s = editing ?s @ [ring_at INPUT_BUF_SIZE (buf s) (e_idx s - 1)]"
      using co.unpush [OF False, of "buf s"] by (simp add: editing_def)
    then have ne: "ring_at INPUT_BUF_SIZE (buf s) (e_idx s - 1) \<noteq> 10" using 1(2) by auto
    have "fst (kill_line ?s) = ?s\<lparr>e_idx := w_idx ?s\<rparr> \<and> Wakeup \<notin> set (snd (kill_line ?s))"
      using 1(1) False ne 1(2) ed by auto
    then show ?thesis using False ne unfolding kill_line.simps [of s] by (auto simp: consputc_def split: prod.splits)
  qed
qed

lemma cons_push:
  assumes "cons_inv s" "unat (e_idx s - r_idx s) < INPUT_BUF_SIZE"
    and "s1 = s\<lparr>buf := ring_put INPUT_BUF_SIZE (buf s) (e_idx s) b, e_idx := e_idx s + 1\<rparr>"
  shows "committed s1 = committed s" "editing s1 = editing s @ [b]" "length (buf s1) = INPUT_BUF_SIZE"
    "unat (e_idx s1 - r_idx s1) = Suc (unat (e_idx s - r_idx s))" "unat (w_idx s1 - r_idx s1) \<le> unat (e_idx s1 - r_idx s1)"
proof -
  have lb: "length (buf s) = INPUT_BUF_SIZE" and wr: "unat (w_idx s - r_idx s) \<le> unat (e_idx s - r_idx s)"
    using assms(1) by (simp_all add: cons_inv_def)
  have "unat (e_idx s + 1 - r_idx s) = Suc (unat (e_idx s - r_idx s))"
    by (rule unat_diff_Suc) (use assms(2) in \<open>simp add: INPUT_BUF_SIZE_def\<close>)
  then show n: "unat (e_idx s1 - r_idx s1) = Suc (unat (e_idx s - r_idx s))" using assms(3) by simp
  show wr1: "unat (w_idx s1 - r_idx s1) \<le> unat (e_idx s1 - r_idx s1)" using n wr assms(3) by simp
  have "unat (e_idx s - w_idx s) < INPUT_BUF_SIZE" using assms(2) unat_between [OF wr] by simp
  then show ed: "editing s1 = editing s @ [b]" using lb assms(3) by (simp add: editing_def co.push)
  have "ring_list INPUT_BUF_SIZE (buf s1) (r_idx s1) (e_idx s1) = ring_list INPUT_BUF_SIZE (buf s) (r_idx s) (e_idx s) @ [b]"
    using lb assms(2,3) by (simp add: co.push)
  then have "committed s1 @ editing s1 = committed s @ editing s @ [b]"
    using ring_list_split [OF wr1, of INPUT_BUF_SIZE "buf s1"] ring_list_split [OF wr, of INPUT_BUF_SIZE "buf s"]
    by (simp add: committed_def editing_def)
  then show "committed s1 = committed s" using ed by simp
  show "length (buf s1) = INPUT_BUF_SIZE" using lb assms(3) by simp
qed

lemma cons_commit:
  assumes "unat (w_idx s - r_idx s) \<le> unat (e_idx s - r_idx s)"
  shows "committed (s\<lparr>w_idx := e_idx s\<rparr>) = committed s @ editing s" "editing (s\<lparr>w_idx := e_idx s\<rparr>) = []"
  using ring_list_split [OF assms, of INPUT_BUF_SIZE "buf s"] by (simp_all add: committed_def editing_def)

lemma cons_backspace:
  assumes "cons_inv s" "e_idx s \<noteq> w_idx s"
  shows "editing (s\<lparr>e_idx := e_idx s - 1\<rparr>) = butlast (editing s) \<and> cons_inv (s\<lparr>e_idx := e_idx s - 1\<rparr>)"
proof
  let ?s = "s\<lparr>e_idx := e_idx s - 1\<rparr>"
  have wr: "unat (w_idx s - r_idx s) \<le> unat (e_idx s - r_idx s)" using assms(1) by (simp add: cons_inv_def)
  have ed: "editing s = editing ?s @ [ring_at INPUT_BUF_SIZE (buf s) (e_idx s - 1)]"
    using co.unpush [OF assms(2), of "buf s"] by (simp add: editing_def)
  then show bl: "editing ?s = butlast (editing s)" by simp
  have "e_idx s \<noteq> r_idx s"
  proof
    assume "e_idx s = r_idx s"
    then have "unat (w_idx s - r_idx s) = 0" using wr by simp
    then show False using assms(2) \<open>e_idx s = r_idx s\<close> by (simp add: unat_eq_zero)
  qed
  then have "unat (e_idx s - r_idx s - 1) = unat (e_idx s - r_idx s) - 1" by (simp add: unat_minus_one)
  moreover have "e_idx s - r_idx s - 1 = e_idx s - 1 - r_idx s" by (simp add: algebra_simps)
  ultimately have n: "unat (e_idx ?s - r_idx ?s) = unat (e_idx s - r_idx s) - 1" by simp
  have "unat (e_idx s - r_idx s) = unat (w_idx s - r_idx s) + length (editing s)"
    using unat_between [OF wr] by (simp add: editing_def)
  then have wr': "unat (w_idx ?s - r_idx ?s) \<le> unat (e_idx ?s - r_idx ?s)" unfolding n using ed by simp
  have "set (editing ?s) \<subseteq> set (editing s)" using ed by auto
  moreover have "committed ?s = committed s" by (simp add: committed_def)
  moreover have "length (committed s) + length (editing s) \<le> INPUT_BUF_SIZE"
    using assms(1) cons_contents(2) [OF assms(1)] by (simp add: cons_inv_def)
  ultimately show "cons_inv ?s" using assms(1) ed by (intro cons_invI wr') (auto simp: cons_inv_def)
qed

lemma consoleintr_key:
  assumes "cons_inv s" "c \<in> {1..255}" "c \<notin> {8, 16, 21, 127}" "consoleintr c s = (s', evs)"
  shows "(committed s', editing s') = edit c (committed s, editing s) \<and> cons_inv s' \<and>
    (Wakeup \<in> set evs \<longleftrightarrow> committed s' \<noteq> committed s)"
proof (cases "unat (e_idx s - r_idx s) < INPUT_BUF_SIZE")
  case False
  then have "s' = s" "evs = []" using assms(2-4) by (auto simp: consoleintr_def Ctrl_def word_less_nat_alt INPUT_BUF_SIZE_def)
  then show ?thesis using False assms(1-3) cons_contents(2) [OF assms(1)] by (auto simp: edit_def Let_def)
next
  case True
  define c' where "c' = (if c = 13 then 10 else c)"
  define b :: byte where "b = of_int c'"
  define s1 where "s1 = s\<lparr>buf := ring_put INPUT_BUF_SIZE (buf s) (e_idx s) b, e_idx := e_idx s + 1\<rparr>"
  note p = cons_push [OF assms(1) True s1_def]
  have c'r: "1 \<le> c'" "c' < 256" using assms(2) by (auto simp: c'_def)
  then have ub: "uint b = c'" by (simp add: b_def uint_word_of_int)
  have b: "b = (if c = 13 then 10 else of_int c)" by (simp add: b_def c'_def)
  have b10: "b = 10 \<longleftrightarrow> c' = 10" and b4: "b = 4 \<longleftrightarrow> c' = 4" using ub by (auto simp: word_uint_eq_iff)
  have full: "e_idx s1 - r_idx s1 = of_nat INPUT_BUF_SIZE \<longleftrightarrow> length (committed s) + length (editing s) + 1 = INPUT_BUF_SIZE"
    using p(4) cons_contents(2) [OF assms(1)] by (simp add: word_unat_eq_iff INPUT_BUF_SIZE_def)
  have lt: "e_idx s - r_idx s < of_nat INPUT_BUF_SIZE" using True by (simp add: word_less_nat_alt INPUT_BUF_SIZE_def)
  have nw: "Wakeup \<notin> set (consputc c')" by (simp add: consputc_def)
  have res: "(s', evs) = (if c' = 10 \<or> c' = 4 \<or> e_idx s1 - r_idx s1 = of_nat INPUT_BUF_SIZE
      then (s1\<lparr>w_idx := e_idx s1\<rparr>, consputc c' @ [Wakeup]) else (s1, consputc c'))"
    using assms(2-4) lt by (auto simp: consoleintr_def Ctrl_def c'_def b_def s1_def Let_def)
  have ed: "edit c (committed s, editing s) = (if c' = 10 \<or> c' = 4 \<or> e_idx s1 - r_idx s1 = of_nat INPUT_BUF_SIZE
      then (committed s @ editing s @ [b], []) else (committed s, editing s @ [b]))"
    using assms(2,3) True cons_contents(2) [OF assms(1)] b10 b4 full unfolding edit_def by (auto simp: Let_def b [symmetric])
  have len: "length (committed s1) + length (editing s1) \<le> INPUT_BUF_SIZE"
    using p(1,2) True cons_contents(2) [OF assms(1)] by simp
  show ?thesis
  proof (cases "c' = 10 \<or> c' = 4 \<or> e_idx s1 - r_idx s1 = of_nat INPUT_BUF_SIZE")
    case commit: True
    then have s': "s' = s1\<lparr>w_idx := e_idx s1\<rparr>" "Wakeup \<in> set evs" using res by auto
    have "cons_inv s'" unfolding s'(1)
      by (rule cons_invI) (use p(3) len cons_commit [OF p(5)] in auto)
    then show ?thesis using s' ed commit cons_commit [OF p(5)] p(1,2) by simp
  next
    case False
    then have s': "s' = s1" "Wakeup \<notin> set evs" using res nw by auto
    have "cons_inv s'" unfolding s'(1)
      by (rule cons_invI [OF p(3) p(5) len]) (use False assms(1) p(1,2,4) b10 b4 full len in \<open>auto simp: cons_inv_def\<close>)
    then show ?thesis using s' ed False p(1,2) by simp
  qed
qed

section \<open>Reading\<close>

lemma cons_pop:
  assumes "cons_inv s" "r_idx s \<noteq> w_idx s" "s1 = s\<lparr>r_idx := r_idx s + 1\<rparr>"
  shows "committed s = ring_at INPUT_BUF_SIZE (buf s) (r_idx s) # committed s1" "cons_inv s1" "editing s1 = editing s"
proof -
  show q: "committed s = ring_at INPUT_BUF_SIZE (buf s) (r_idx s) # committed s1"
    using assms(2,3) by (simp add: committed_def ring_list_pop)
  show ed: "editing s1 = editing s" using assms(3) by (simp add: editing_def)
  have wr: "unat (w_idx s - r_idx s) \<le> unat (e_idx s - r_idx s)" using assms(1) by (simp add: cons_inv_def)
  have "e_idx s \<noteq> r_idx s"
  proof
    assume "e_idx s = r_idx s"
    then have "unat (w_idx s - r_idx s) = 0" using wr by simp
    then show False using assms(2) by (simp add: unat_eq_zero)
  qed
  then have "unat (e_idx s - r_idx s) = Suc (unat (e_idx s - (r_idx s + 1)))"
    "unat (w_idx s - r_idx s) = Suc (unat (w_idx s - (r_idx s + 1)))"
    using assms(2) by (auto intro!: unat_minus_Suc)
  then have "unat (w_idx s1 - r_idx s1) \<le> unat (e_idx s1 - r_idx s1)" using wr assms(3) by simp
  moreover have "length (committed s) + length (editing s) \<le> INPUT_BUF_SIZE"
    using assms(1) cons_contents(2) [OF assms(1)] by (simp add: cons_inv_def)
  ultimately show "cons_inv s1" using assms(1,3) q ed by (intro cons_invI) (auto simp: cons_inv_def)
qed

text \<open>
  What a critical section of consoleread takes from the queue q of committed input, leaving q', when
  it got the bytes got and n' bytes of target remain.
\<close>

definition read_result :: "coutcome \<Rightarrow> bool \<Rightarrow> int \<Rightarrow> int \<Rightarrow> byte list \<Rightarrow> byte list \<Rightarrow> byte list \<Rightarrow> bool \<Rightarrow> bool" where
  "read_result out killed target n' q got q' stored \<longleftrightarrow>
     4 \<notin> set got \<and> 10 \<notin> set (butlast got) \<and>
     (case out of
        C_sleep \<Rightarrow> q = got \<and> q' = [] \<and> 0 < n' \<and> 10 \<notin> set got
      | C_done k \<Rightarrow>
          (k = -1 \<and> killed \<and> q = got \<and> q' = []) \<or>
          (k = target - n' \<and>
            (q = got @ q' \<and> (n' \<le> 0 \<or> (got \<noteq> [] \<and> last got = 10) \<or> (n' < target \<and> q' \<noteq> [] \<and> hd q' = 4)) \<or>
             q = got @ 4 # q' \<and> n' = target \<or>
             (\<exists>b. q = got @ b # q' \<and> \<not> stored))))"

lemma read_result_Cons:
  assumes "read_result out killed target n' q got q' stored" "b \<noteq> 4" "b \<noteq> 10" "n' < target"
  shows "read_result out killed target n' (b # q) (b # got) q' stored"
  using assms by (cases out) (auto simp: read_result_def)

lemma consoleread_from_spec:
  assumes "cons_inv s" "n \<le> target" "consoleread_from store killed m s dst n target = (out, m', s', dst', n')"
  shows "cons_inv s' \<and> editing s' = editing s \<and> n' \<le> n \<and> (0 \<le> n \<longrightarrow> 0 \<le> n') \<and>
    (\<exists>got. int (length got) = n - n' \<and> dst' = dst + of_nat (length got) \<and> store_seq store dst 0 got m = Some m' \<and>
       read_result out killed target n' (committed s) got (committed s')
         (\<forall>b q. committed s = got @ b # q \<longrightarrow> store dst' b m' \<noteq> None))"
  using assms
proof (induction store killed m s dst n target rule: consoleread_from.induct)
  case (1 store killed m s dst n target)
  define c where "c = ring_at INPUT_BUF_SIZE (buf s) (r_idx s)"
  define s1 where "s1 = s\<lparr>r_idx := r_idx s + 1\<rparr>"
  have c4: "uint c = Ctrl 68 \<longleftrightarrow> c = 4" and c10: "uint c = 10 \<longleftrightarrow> c = 10"
    by (auto simp: Ctrl_def word_uint_eq_iff)
  note eq = 1(4) [unfolded consoleread_from.simps [of store killed m s dst n target] Let_def,
      folded c_def s1_def, unfolded c4 c10]
  consider "n \<le> 0" | "0 < n" "r_idx s = w_idx s" | "0 < n" "r_idx s \<noteq> w_idx s" by linarith
  then show ?case
  proof cases
    assume "n \<le> 0"
    then show ?thesis using eq 1(2) by (auto simp: read_result_def intro!: exI [of _ "[]"])
  next
    assume "0 < n" "r_idx s = w_idx s"
    then show ?thesis using eq 1(2)
      by (auto simp: read_result_def committed_def intro!: exI [of _ "[]"] split: if_splits)
  next
    assume n: "0 < n" "r_idx s \<noteq> w_idx s"
    note pop = cons_pop [OF 1(2) n(2) s1_def]
    have qs: "committed s = c # committed s1" using pop(1) by (simp add: c_def)
    have undo: "s1\<lparr>r_idx := r_idx s1 - 1\<rparr> = s" by (simp add: s1_def)
    consider "c = 4" | "c \<noteq> 4" "store dst c m = None" | mm where "c = 10" "store dst c m = Some mm"
      | mm where "c \<noteq> 4" "c \<noteq> 10" "store dst c m = Some mm" by (cases "store dst c m") auto
    then show ?thesis
    proof cases
      assume "c = 4"
      then show ?thesis using eq n 1(2,3) pop(2,3) qs undo
        by (auto simp: read_result_def intro!: exI [of _ "[]"] split: if_splits)
    next
      assume "c \<noteq> 4" "store dst c m = None"
      then show ?thesis using eq n pop(2,3) qs by (auto simp: read_result_def intro!: exI [of _ "[]"])
    next
      fix mm assume "c = 10" "store dst c m = Some mm"
      then show ?thesis using eq n pop(2,3) qs by (auto simp: read_result_def intro!: exI [of _ "[c]"])
    next
      fix mm assume c: "c \<noteq> 4" "c \<noteq> 10" "store dst c m = Some mm"
      have "consoleread_from store killed mm s1 (dst + 1) (n - 1) target = (out, m', s', dst', n')"
        using eq n c by simp
      from 1(1) [OF n c_def s1_def _ c(3) _ pop(2) _ this] 
      obtain got where g: "cons_inv s' \<and> editing s' = editing s1 \<and> n' \<le> n - 1 \<and> (0 \<le> n - 1 \<longrightarrow> 0 \<le> n')"
        "int (length got) = n - 1 - n'" "dst' = dst + 1 + of_nat (length got)"
        "store_seq store (dst + 1) 0 got mm = Some m'"
        "read_result out killed target n' (committed s1) got (committed s')
         (\<forall>b q. committed s1 = got @ b # q \<longrightarrow> store dst' b m' \<noteq> None)"
        using c c4 c10 1(3) by auto
      have sq: "store_seq store dst 0 (c # got) m = Some m'"
        using g(4) c(3) store_seq_shift [of store dst 0 got mm] by simp
      have rr: "read_result out killed target n' (committed s) (c # got) (committed s')
         (\<forall>b q. committed s = (c # got) @ b # q \<longrightarrow> store dst' b m' \<noteq> None)"
        unfolding qs using read_result_Cons [OF g(5) c(1,2)] g(1) 1(3) by simp
      show ?thesis
        using g(1-3) sq rr pop(3) n(1) by (intro conjI exI [of _ "c # got"]) (auto simp: algebra_simps)
    qed
  qed
qed

section \<open>Output\<close>

interpretation ut: ring UART_TX_BUF_SIZE "TYPE(64)"
  by unfold_locales (simp_all add: UART_TX_BUF_SIZE_def)

definition tx_queue :: "uart \<Rightarrow> byte list" where
  "tx_queue u = ring_list UART_TX_BUF_SIZE (tx_buf u) (tx_r u) (tx_w u)"

definition uart_inv :: "uart \<Rightarrow> bool" where
  "uart_inv u \<longleftrightarrow> length (tx_buf u) = UART_TX_BUF_SIZE \<and> unat (tx_w u - tx_r u) \<le> UART_TX_BUF_SIZE"

text \<open>uartstart sends from the front of the queue until it is empty or the port reports busy.\<close>

lemma uartstart_spec:
  assumes "uart_inv u" "uartstart lsr u = (u', k)"
  shows "uart_inv u' \<and> thr u' @ tx_queue u' = thr u @ tx_queue u \<and> k = length (thr u') - length (thr u) \<and>
    length (thr u) \<le> length (thr u') \<and> (tx_queue u' = [] \<or> (0 < nlsr u' \<and> lsr (nlsr u' - 1) AND LSR_TX_IDLE = 0))"
  using assms
proof (induction lsr u arbitrary: k rule: uartstart.induct)
  case (1 lsr u)
  consider "tx_w u = tx_r u" | "tx_w u \<noteq> tx_r u" "lsr (nlsr u) AND LSR_TX_IDLE = 0"
    | "tx_w u \<noteq> tx_r u" "lsr (nlsr u) AND LSR_TX_IDLE \<noteq> 0" by blast
  then show ?case
  proof cases
    assume "tx_w u = tx_r u"
    then show ?thesis using 1(2,3) by (simp add: uartstart.simps [of lsr u] tx_queue_def)
  next
    assume "tx_w u \<noteq> tx_r u" "lsr (nlsr u) AND LSR_TX_IDLE = 0"
    then show ?thesis using 1(2,3) by (auto simp: uartstart.simps [of lsr u] tx_queue_def uart_inv_def)
  next
    assume c: "tx_w u \<noteq> tx_r u" "lsr (nlsr u) AND LSR_TX_IDLE \<noteq> 0"
    define u1 where "u1 = u\<lparr>nlsr := nlsr u + 1, tx_r := tx_r u + 1, thr := thr u @ [ring_at UART_TX_BUF_SIZE (tx_buf u) (tx_r u)]\<rparr>"
    obtain k1 where r: "uartstart lsr u1 = (u', k1)" "k = Suc k1"
      using 1(3) c by (auto simp: uartstart.simps [of lsr u] u1_def Let_def split: prod.splits)
    have inv: "uart_inv u1" using 1(2) unat_minus_Suc [OF c(1)] by (simp add: uart_inv_def u1_def)
    have "thr u1 @ tx_queue u1 = thr u @ tx_queue u"
      using ring_list_pop [OF c(1), of UART_TX_BUF_SIZE "tx_buf u"] by (simp add: u1_def tx_queue_def)
    moreover have "length (thr u1) = Suc (length (thr u))" by (simp add: u1_def)
    ultimately show ?thesis
      using 1(1) [OF c(1) refl refl c(2) refl, of k1] inv r by (auto simp: u1_def)
  qed
qed

lemma tx_full: "tx_w u = tx_r u + of_nat UART_TX_BUF_SIZE \<longleftrightarrow> length (tx_queue u) = UART_TX_BUF_SIZE"
proof -
  have "tx_w u = tx_r u + of_nat UART_TX_BUF_SIZE \<longleftrightarrow> tx_w u - tx_r u = 32"
    by (auto simp: UART_TX_BUF_SIZE_def algebra_simps)
  also have "\<dots> \<longleftrightarrow> length (tx_queue u) = UART_TX_BUF_SIZE"
    by (simp add: word_unat_eq_iff tx_queue_def UART_TX_BUF_SIZE_def)
  finally show ?thesis .
qed

lemma uartputc_spec:
  assumes "uart_inv u" "uartputc panicked lsr u c = (out, u', k)"
  shows "uart_inv u' \<and> (case out of
      U_done \<Rightarrow> thr u' @ tx_queue u' = thr u @ tx_queue u @ [c]
    | U_sleep \<Rightarrow> u' = u \<and> length (tx_queue u) = UART_TX_BUF_SIZE
    | U_hang \<Rightarrow> u' = u \<and> panicked)"
proof (cases "panicked \<or> length (tx_queue u) = UART_TX_BUF_SIZE")
  case True
  then show ?thesis using assms by (auto simp: uartputc_def uartputc_loop_def tx_full split: if_splits)
next
  case False
  define u1 where "u1 = u\<lparr>tx_buf := ring_put UART_TX_BUF_SIZE (tx_buf u) (tx_w u) c, tx_w := tx_w u + 1\<rparr>"
  have lt: "unat (tx_w u - tx_r u) < UART_TX_BUF_SIZE" using False assms(1) by (simp add: uart_inv_def tx_queue_def)
  have q: "tx_queue u1 = tx_queue u @ [c]" using assms(1) lt by (simp add: u1_def tx_queue_def uart_inv_def ut.push)
  have "uart_inv u1" using assms(1) lt arg_cong [OF q, of length] by (simp add: uart_inv_def u1_def tx_queue_def)
  moreover have "uartstart lsr u1 = (u', k)" "out = U_done"
    using assms(2) False by (auto simp: uartputc_def uartputc_loop_def tx_full u1_def split: prod.splits)
  ultimately show ?thesis using uartstart_spec [of u1 lsr u' k] q by (simp add: u1_def)
qed

text \<open>consolewrite hands the user's bytes to the port in order.\<close>

lemma consolewrite_spec:
  assumes "uart_inv u" "consolewrite fetch panicked lsr u src i n = (out, j, u')"
  shows "uart_inv u' \<and> i \<le> j \<and> (\<exists>bs. thr u' @ tx_queue u' = thr u @ tx_queue u @ bs \<and>
      map Some bs = map (\<lambda>k. fetch (src + of_int (i + int k))) [0..<nat (j - i)]) \<and>
    (case out of
       U_done \<Rightarrow> n \<le> j \<or> fetch (src + of_int j) = None
     | U_sleep \<Rightarrow> length (tx_queue u') = UART_TX_BUF_SIZE
     | U_hang \<Rightarrow> panicked)"
  using assms
proof (induction fetch panicked lsr u src i n rule: consolewrite.induct)
  case (1 fetch panicked lsr u src i n)
  show ?case
  proof (cases "i < n \<and> (\<exists>c. fetch (src + of_int i) = Some c)")
    case False
    then show ?thesis using 1(2,3) by (auto simp: consolewrite.simps [of fetch panicked lsr u] split: option.splits)
  next
    case True
    then obtain c where c: "fetch (src + of_int i) = Some c" by blast
    obtain o1 u1 k1 where p: "uartputc panicked lsr u c = (o1, u1, k1)" by (metis prod.exhaust)
    note sp = uartputc_spec [OF 1(2) p]
    show ?thesis
    proof (cases "o1 = U_done")
      case False
      then have "out = o1" "j = i" "u' = u1"
        using 1(3) True c p by (auto simp: consolewrite.simps [of fetch panicked lsr u] split: uoutcome.splits)
      then show ?thesis using False sp by (cases o1) auto
    next
      case fin: True
      have "consolewrite fetch panicked lsr u1 src (i + 1) n = (out, j, u')"
        using 1(3) True c p fin by (simp add: consolewrite.simps [of fetch panicked lsr u])
      then have IH: "uart_inv u' \<and> i + 1 \<le> j \<and> (\<exists>bs. thr u' @ tx_queue u' = thr u1 @ tx_queue u1 @ bs \<and>
          map Some bs = map (\<lambda>k. fetch (src + of_int (i + 1 + int k))) [0..<nat (j - (i + 1))]) \<and>
        (case out of U_done \<Rightarrow> n \<le> j \<or> fetch (src + of_int j) = None
         | U_sleep \<Rightarrow> length (tx_queue u') = UART_TX_BUF_SIZE | U_hang \<Rightarrow> panicked)"
        using 1(1) [of c o1 "(u1, k1)" u1 k1] True c p fin sp by simp
      then obtain bs where bs: "thr u' @ tx_queue u' = thr u1 @ tx_queue u1 @ bs"
        "map Some bs = map (\<lambda>k. fetch (src + of_int (i + 1 + int k))) [0..<nat (j - (i + 1))]" by blast
      have "nat (j - i) = Suc (nat (j - (i + 1)))" using IH by auto
      then have "map Some (c # bs) = map (\<lambda>k. fetch (src + of_int (i + int k))) [0..<nat (j - i)]"
        using bs(2) c by (simp add: upt_conv_Cons map_Suc_upt [symmetric] algebra_simps del: upt_Suc)
      moreover have "thr u' @ tx_queue u' = thr u @ tx_queue u @ (c # bs)" using bs(1) sp fin by auto
      ultimately have "\<exists>bs. thr u' @ tx_queue u' = thr u @ tx_queue u @ bs \<and>
          map Some bs = map (\<lambda>k. fetch (src + of_int (i + int k))) [0..<nat (j - i)]" by blast
      then show ?thesis using IH by auto
    qed
  qed
qed

lemma uart_wait_spec:
  assumes "lsr k AND LSR_TX_IDLE \<noteq> 0" "\<And>i. j \<le> i \<Longrightarrow> i < k \<Longrightarrow> lsr i AND LSR_TX_IDLE = 0" "j \<le> k"
  shows "uart_wait lsr j = Some (Suc k)"
  using assms
proof (induction "k - j" arbitrary: j)
  case 0
  then show ?case by (simp add: uart_wait.simps [of lsr j])
next
  case (Suc d)
  then have "uart_wait lsr (Suc j) = Some (Suc k)" by (intro Suc.hyps) auto
  then show ?case using Suc.prems(2) [of j] Suc.hyps(2) by (simp add: uart_wait.simps [of lsr j])
qed

section \<open>Properties\<close>

text \<open>
  C22. Every input character moves the console the way the line editor specifies: control-U clears
  the line being typed, backspace and delete drop its last character, a newline, control-D or a full
  buffer hands it to the readers, other characters are appended, and a full buffer ignores them.
  Readers are woken exactly when the committed input grows, and the invariant is kept.
\<close>

theorem consoleintr_refines:
  assumes "cons_inv s" "c \<in> {0..255}" "consoleintr c s = (s', evs)"
  shows "(committed s', editing s') = edit c (committed s, editing s) \<and> cons_inv s' \<and>
    (Wakeup \<in> set evs \<longleftrightarrow> committed s' \<noteq> committed s)"
proof -
  consider "c \<noteq> 0" "c \<notin> {8, 16, 21, 127}" | "c = 0 \<or> c = 16" | "c = 21" | "c = 8 \<or> c = 127"
    by blast
  then show ?thesis
  proof cases
    assume c: "c \<noteq> 0" "c \<notin> {8, 16, 21, 127}"
    then have "c \<in> {1..255}" using assms(2) by simp
    then show ?thesis by (rule consoleintr_key [OF assms(1) _ c(2) assms(3)])
  next
    assume "c = 0 \<or> c = 16"
    then have "s' = s" "Wakeup \<notin> set evs" "edit c (committed s, editing s) = (committed s, editing s)"
      using assms(3) by (auto simp: consoleintr_def Ctrl_def edit_def)
    then show ?thesis using assms(1) by simp
  next
    assume c: "c = 21"
    have "10 \<notin> set (editing s)" using assms(1) by (simp add: cons_inv_def)
    from kill_line_spec [OF this] have s': "s' = s\<lparr>e_idx := w_idx s\<rparr>" "Wakeup \<notin> set evs"
      using assms(3) c by (auto simp: consoleintr_def Ctrl_def)
    then have "committed s' = committed s" "editing s' = []" by (simp_all add: committed_def editing_def)
    moreover have "cons_inv s'"
      by (rule cons_invI) (use assms(1) s' calculation in \<open>auto simp: cons_inv_def committed_def\<close>)
    ultimately show ?thesis using c s' by (simp add: edit_def)
  next
    assume c: "c = 8 \<or> c = 127"
    show ?thesis
    proof (cases "e_idx s = w_idx s")
      case True
      then have "s' = s" "evs = []" "editing s = []" using assms(3) c by (auto simp: consoleintr_def Ctrl_def editing_def)
      then show ?thesis using assms(1) c by (auto simp: edit_def)
    next
      case False
      then have s': "s' = s\<lparr>e_idx := e_idx s - 1\<rparr>" "evs = consputc BACKSPACE"
        using assms(3) c by (auto simp: consoleintr_def Ctrl_def)
      then have "committed s' = committed s" by (simp add: committed_def)
      then show ?thesis using c s' cons_backspace [OF assms(1) False] by (auto simp: edit_def consputc_def)
    qed
  qed
qed

definition sample_cons :: cons where
  "sample_cons = \<lparr>buf = (replicate INPUT_BUF_SIZE 0)[0 := 104, 1 := 105], r_idx = 0, w_idx = 0, e_idx = 2\<rparr>"

lemma sample_cons:
  "cons_inv sample_cons" "committed sample_cons = []" "editing sample_cons = [104, 105]"
  by (simp_all add: sample_cons_def cons_inv_def committed_def editing_def ring_list_def ring_at_def INPUT_BUF_SIZE_def upt_rec)

theorem consoleintr_refines_witness:
  "committed (fst (consoleintr 13 sample_cons)) = [104, 105, 10] \<and> editing (fst (consoleintr 13 sample_cons)) = []"
proof -
  obtain s' evs where r: "consoleintr 13 sample_cons = (s', evs)" by (metis prod.exhaust)
  from consoleintr_refines [OF sample_cons(1) _ r] show ?thesis
    using r by (simp add: sample_cons edit_def INPUT_BUF_SIZE_def)
qed

text \<open>
  C23. A section of consoleread stores a prefix of the committed input, at most n bytes, with no
  control-D in it and a newline only at its end. It returns when n bytes are stored, after a newline,
  in front of a control-D (left for the next call if something was read, consumed if not), or when a
  store fails; it returns -1 only if killed; it sleeps only after taking all committed input.
\<close>

theorem consoleread_correct:
  assumes "cons_inv s" "0 \<le> n" "consoleread store killed m s dst n = (out, m', s', dst', n')"
  shows "cons_inv s' \<and> editing s' = editing s \<and> (\<exists>got. int (length got) = n - n' \<and> length got \<le> nat n \<and>
      store_seq store dst 0 got m = Some m' \<and>
      read_result out killed n n' (committed s) got (committed s')
        (\<forall>b q. committed s = got @ b # q \<longrightarrow> store dst' b m' \<noteq> None))"
  using consoleread_from_spec [OF assms(1) order_refl assms(3) [unfolded consoleread_def]] assms(2) by auto

theorem consoleread_correct_witness:
  "(\<exists>m' s' dst' n'. consoleread (\<lambda>a b m. Some (m @ [b])) False [] (fst (consoleintr 13 sample_cons)) 0 10 =
      (C_done 3, m', s', dst', n') \<and> cons_inv s')"
proof -
  let ?s = "fst (consoleintr 13 sample_cons)"
  have s: "?s = sample_cons\<lparr>buf := (buf sample_cons)[2 := 10], e_idx := 3, w_idx := 3\<rparr>"
    by (simp add: consoleintr_def Ctrl_def sample_cons_def ring_put_def INPUT_BUF_SIZE_def Let_def)
  have inv: "cons_inv ?s" unfolding s
    by (simp add: sample_cons_def cons_inv_def editing_def INPUT_BUF_SIZE_def)
  have r: "consoleread (\<lambda>a b m. Some (m @ [b])) False [] ?s 0 10 = (C_done 3, [104, 105, 10], ?s\<lparr>r_idx := 3\<rparr>, 3, 7)"
    unfolding s by (simp add: consoleread_def consoleread_from.simps sample_cons_def ring_at_def INPUT_BUF_SIZE_def Ctrl_def)
  from consoleread_correct [OF inv _ r] show ?thesis using r by simp
qed


definition sample_uart :: uart where
  "sample_uart = \<lparr>tx_buf = replicate UART_TX_BUF_SIZE 0, tx_w = 0, tx_r = 0, thr = [], nlsr = 0, nrhr = 0\<rparr>"


end
