(* ===== verification/Xv6_Printf.thy ===== *)
theory Xv6_Printf
  imports Xv6_String
begin

text \<open>
  Formatted output: kernel/printf.c and user/printf.c. A format string is the list of its bytes
  before the terminating NUL; the variadic arguments are the sequence of 64-bit argument slots,
  read one after the other, and str gives the C string a pointer argument points to. The functions
  return the bytes they output, which the kernel sends to consputc and the user library to write.
\<close>

definition bytes :: "string \<Rightarrow> byte list" where
  "bytes s = map of_char s"

definition kdigits :: "byte list" where "kdigits = bytes ''0123456789abcdef''"
definition udigits :: "byte list" where "udigits = bytes ''0123456789ABCDEF''"

section \<open>Numbers\<close>

text \<open>The do-while loop that fills buf, least significant digit first.\<close>

partial_function (option) digit_loop :: "byte list \<Rightarrow> u32 \<Rightarrow> u32 \<Rightarrow> byte list option" where
  "digit_loop digits x base =
     (if x div base \<noteq> 0
      then Option.bind (digit_loop digits (x div base) base) (\<lambda>buf. Some (digits ! unat (x mod base) # buf))
      else Some [digits ! unat (x mod base)])"

text \<open>printint of the kernel; the digits are printed from the end of buf.\<close>

definition kprintint :: "int \<Rightarrow> u32 \<Rightarrow> bool \<Rightarrow> byte list option" where
  "kprintint xx base sign =
     (let neg = sign \<and> xx < 0; x = (if neg then - of_int xx else of_int xx) in
      map_option (\<lambda>buf. rev (if neg then buf @ [45] else buf)) (digit_loop kdigits x base))"

definition uprintint :: "int \<Rightarrow> u32 \<Rightarrow> bool \<Rightarrow> byte list option" where
  "uprintint xx base sg =
     (let neg = sg \<and> xx < 0; x = (if neg then - of_int xx else of_int xx) in
      map_option (\<lambda>buf. rev (if neg then buf @ [45] else buf)) (digit_loop udigits x base))"

primrec ptr_loop :: "byte list \<Rightarrow> nat \<Rightarrow> u64 \<Rightarrow> byte list" where
  "ptr_loop digits 0 x = []"
| "ptr_loop digits (Suc i) x = digits ! unat (drop_bit 60 x) # ptr_loop digits i (push_bit 4 x)"

definition kprintptr :: "u64 \<Rightarrow> byte list" where "kprintptr x = bytes ''0x'' @ ptr_loop kdigits 16 x"
definition uprintptr :: "u64 \<Rightarrow> byte list" where "uprintptr x = bytes ''0x'' @ ptr_loop udigits 16 x"

section \<open>Formats\<close>

text \<open>The value of an argument slot read as an int.\<close>

definition slot_int :: "u64 \<Rightarrow> int" where "slot_int a = int_of_u64 a"

definition str_arg :: "(u64 \<Rightarrow> byte list) \<Rightarrow> u64 \<Rightarrow> byte list" where
  "str_arg str p = (if p = 0 then bytes ''(null)'' else str p)"

text \<open>printf of the kernel, from position i of the format, with k arguments consumed.\<close>

fun kprintf_loop :: "(u64 \<Rightarrow> byte list) \<Rightarrow> (nat \<Rightarrow> u64) \<Rightarrow> nat \<Rightarrow> byte list \<Rightarrow> byte list option" where
  "kprintf_loop str ap k [] = Some []"
| "kprintf_loop str ap k (c # fmt) =
     (if c \<noteq> of_char CHR 0x25 then map_option ((#) c) (kprintf_loop str ap k fmt)
      else case fmt of
        [] \<Rightarrow> Some []
      | d # fmt' \<Rightarrow>
          if d = of_char CHR ''d'' then
            Option.bind (kprintint (slot_int (ap k)) 10 True) (\<lambda>o1. map_option ((@) o1) (kprintf_loop str ap (Suc k) fmt'))
          else if d = of_char CHR ''x'' then
            Option.bind (kprintint (slot_int (ap k)) 16 True) (\<lambda>o1. map_option ((@) o1) (kprintf_loop str ap (Suc k) fmt'))
          else if d = of_char CHR ''p'' then
            map_option ((@) (kprintptr (ap k))) (kprintf_loop str ap (Suc k) fmt')
          else if d = of_char CHR ''s'' then
            map_option ((@) (str_arg str (ap k))) (kprintf_loop str ap (Suc k) fmt')
          else if d = of_char CHR 0x25 then map_option ((#) (of_char CHR 0x25)) (kprintf_loop str ap k fmt')
          else map_option ((@) [of_char CHR 0x25, d]) (kprintf_loop str ap k fmt'))"

text \<open>vprintf of the user library: pct says whether state is the character percent.\<close>

fun vprintf_loop :: "(u64 \<Rightarrow> byte list) \<Rightarrow> (nat \<Rightarrow> u64) \<Rightarrow> nat \<Rightarrow> bool \<Rightarrow> byte list \<Rightarrow> byte list option" where
  "vprintf_loop str ap k pct [] = Some []"
| "vprintf_loop str ap k pct (c # fmt) =
     (if \<not> pct then
        if c = of_char CHR 0x25 then vprintf_loop str ap k True fmt
        else map_option ((#) c) (vprintf_loop str ap k False fmt)
      else if c = of_char CHR ''d'' then
        Option.bind (uprintint (slot_int (ap k)) 10 True) (\<lambda>o1. map_option ((@) o1) (vprintf_loop str ap (Suc k) False fmt))
      else if c = of_char CHR ''l'' then
        Option.bind (uprintint (slot_int (ap k)) 10 False) (\<lambda>o1. map_option ((@) o1) (vprintf_loop str ap (Suc k) False fmt))
      else if c = of_char CHR ''x'' then
        Option.bind (uprintint (slot_int (ap k)) 16 False) (\<lambda>o1. map_option ((@) o1) (vprintf_loop str ap (Suc k) False fmt))
      else if c = of_char CHR ''p'' then
        map_option ((@) (uprintptr (ap k))) (vprintf_loop str ap (Suc k) False fmt)
      else if c = of_char CHR ''s'' then
        map_option ((@) (str_arg str (ap k))) (vprintf_loop str ap (Suc k) False fmt)
      else if c = of_char CHR ''c'' then
        map_option ((#) (ucast (ap k))) (vprintf_loop str ap (Suc k) False fmt)
      else if c = of_char CHR 0x25 then map_option ((#) c) (vprintf_loop str ap k False fmt)
      else map_option ((@) [of_char CHR 0x25, c]) (vprintf_loop str ap k False fmt))"

definition vprintf :: "(u64 \<Rightarrow> byte list) \<Rightarrow> byte list \<Rightarrow> (nat \<Rightarrow> u64) \<Rightarrow> byte list option" where
  "vprintf str fmt ap = vprintf_loop str ap 0 False fmt"

text \<open>The console state of the kernel's printf: the lock flag, panicked, and what was printed.\<close>

record prstate =
  locking :: bool
  panicked :: bool
  printed :: "byte list"

definition printfinit :: "prstate \<Rightarrow> prstate" where
  "printfinit p = p\<lparr>locking := True\<rparr>"

definition kprintf :: "(u64 \<Rightarrow> byte list) \<Rightarrow> byte list option \<Rightarrow> (nat \<Rightarrow> u64) \<Rightarrow> prstate \<Rightarrow> prstate option kr" where
  "kprintf str fmt ap p =
     (case fmt of
        None \<Rightarrow> Inl (Panic ''null fmt'')
      | Some f \<Rightarrow> Inr (map_option (\<lambda>o1. p\<lparr>printed := printed p @ o1\<rparr>) (kprintf_loop str ap 0 f)))"

text \<open>panic passes its message to printf as the format; ap is whatever the argument slots hold.\<close>

definition panic :: "(u64 \<Rightarrow> byte list) \<Rightarrow> byte list \<Rightarrow> (nat \<Rightarrow> u64) \<Rightarrow> prstate \<Rightarrow> prstate option" where
  "panic str s ap p =
     Option.bind (kprintf_loop str ap 0 (bytes ''panic: '')) (\<lambda>o1.
     Option.bind (kprintf_loop str ap 0 s) (\<lambda>o2.
     Option.bind (kprintf_loop str ap 0 [10]) (\<lambda>o3.
     Some (p\<lparr>locking := False, printed := printed p @ o1 @ o2 @ o3, panicked := True\<rparr>))))"

section \<open>The digit loop\<close>

text \<open>The digits of a number, most significant first, without leading zeros.\<close>

fun digval :: "nat \<Rightarrow> nat list \<Rightarrow> nat" where
  "digval b [] = 0"
| "digval b (d # ds) = d + b * digval b ds"

lemma digit_loop_spec:
  assumes "1 < base"
  shows "\<exists>ds. digit_loop digits x base = Some (map ((!) digits) ds) \<and> ds \<noteq> [] \<and>
    digval (unat base) ds = unat x \<and> (\<forall>d\<in>set ds. d < unat base) \<and> (last ds = 0 \<longrightarrow> ds = [0]) \<and>
    unat base ^ (length ds - 1) \<le> max 1 (unat x)"
proof (induction "unat x" arbitrary: x rule: less_induct)
  case less
  have b: "1 < unat base" using assms by (simp add: word_less_nat_alt)
  have lt: "unat (x mod base) < unat base" using b by (simp add: unat_mod)
  show ?case
  proof (cases "x div base = 0")
    case True
    then have "unat x < unat base" using b by (metis div_eq_0_iff gr_implies_not_zero not_less_zero unat_0 unat_div)
    then show ?thesis using True lt unfolding digit_loop.simps [of digits x]
      by (intro exI [of _ "[unat (x mod base)]"]) (auto simp: unat_mod)
  next
    case False
    then have "unat x \<noteq> 0" by (metis div_0 unat_eq_zero)
    then have "unat (x div base) < unat x" using b by (simp add: unat_div)
    from less [OF this] obtain ds where ds: "digit_loop digits (x div base) base = Some (map ((!) digits) ds)" "ds \<noteq> []"
      "digval (unat base) ds = unat (x div base)" "\<forall>d\<in>set ds. d < unat base" "last ds = 0 \<longrightarrow> ds = [0]"
      "unat base ^ (length ds - 1) \<le> max 1 (unat (x div base))" by (elim exE conjE) (rule that)
    have nz: "0 < unat x div unat base" using False by (metis gr0I unat_div unat_eq_zero)
    have "digval (unat base) (unat (x mod base) # ds) = unat x" using ds(3) by (simp add: unat_div unat_mod)
    moreover have "last ds \<noteq> 0"
    proof
      assume "last ds = 0"
      then have "ds = [0]" using ds(5) by simp
      then show False using ds(3) nz by (simp add: unat_div)
    qed
    moreover have "unat base ^ length ds \<le> unat x"
    proof -
      have "unat base ^ length ds = unat base * unat base ^ (length ds - 1)"
        using ds(2) by (metis One_nat_def length_0_conv power_eq_if)
      also have "\<dots> \<le> unat base * (unat x div unat base)" using ds(6) nz by (simp add: unat_div)
      also have "\<dots> \<le> unat x" by simp
      finally show ?thesis .
    qed
    ultimately show ?thesis using False ds(1,2,4) lt unfolding digit_loop.simps [of digits x]
      by (intro exI [of _ "unat (x mod base) # ds"]) auto
  qed
qed

lemma foldl_digval:
  "foldl (\<lambda>n d. n * b + d) n (rev ds) = n * b ^ length ds + digval b ds"
  by (induction ds arbitrary: n) (auto simp: algebra_simps)

text \<open>
  What both versions of printint print, in base 10 or 16: an optional minus sign and the digits of
  the absolute value.
\<close>

lemma print_digits:
  assumes "base = 10 \<or> base = 16" "- (2 ^ 31) \<le> xx" "xx < 2 ^ 31"
  shows "\<exists>ds. map_option (\<lambda>buf. rev (if neg then buf @ [45] else buf))
        (digit_loop digits (if neg then - of_int xx else of_int xx) base) =
      Some ((if neg then [45] else []) @ map ((!) digits) ds) \<and>
    int (foldl (\<lambda>n d. n * unat base + d) 0 ds) = (if neg then - xx else xx) mod 2 ^ 32 \<and>
    ds \<noteq> [] \<and> (hd ds = 0 \<longrightarrow> ds = [0]) \<and> (\<forall>d\<in>set ds. d < unat base) \<and> length ds \<le> 10"
proof -
  define x :: u32 where "x = (if neg then - of_int xx else of_int xx)"
  have b: "1 < base" "10 \<le> unat base" using assms(1) by auto
  from digit_loop_spec [OF b(1), of digits x] obtain ds where
    ds: "digit_loop digits x base = Some (map ((!) digits) ds)" "ds \<noteq> []" "digval (unat base) ds = unat x"
      "\<forall>d\<in>set ds. d < unat base" "last ds = 0 \<longrightarrow> ds = [0]" "unat base ^ (length ds - 1) \<le> max 1 (unat x)" by (elim exE conjE) (rule that)
  have "x = of_int (if neg then - xx else xx)" by (simp add: x_def)
  then have val: "int (unat x) = (if neg then - xx else xx) mod 2 ^ 32"
    by (simp add: unsigned_of_int take_bit_eq_mod)
  have "max 1 (unat x) < 2 ^ 32" using unsigned_less [of x] by simp
  moreover have "(10 :: nat) ^ (length ds - 1) \<le> unat base ^ (length ds - 1)" using b(2) by (rule power_mono) simp
  ultimately have "(10 :: nat) ^ (length ds - 1) < 2 ^ 32" using ds(6) by (meson le_less_trans)
  also have "(2 :: nat) ^ 32 < 10 ^ 10" by simp
  finally have "length ds - 1 < 10" by (rule power_less_imp_less_exp [rotated]) simp
  then have len: "length ds \<le> 10" by simp
  show ?thesis
    using ds val len foldl_digval [of "unat base" 0 ds]
    by (intro exI [of _ "rev ds"]) (auto simp: x_def [symmetric] rev_map hd_rev)
qed

lemma slot_int_range: "- (2 ^ 31) \<le> slot_int a \<and> slot_int a < 2 ^ 31"
  using sint_range_size [of "ucast a :: u32"] by (simp add: slot_int_def int_of_u64_def word_size)

lemma udigits_nth: "d < 10 \<Longrightarrow> udigits ! d = of_nat (48 + d)"
  by (auto simp: udigits_def bytes_def less_Suc_eq numeral_eq_Suc)

lemma udigits_ascii: "d < 10 \<Longrightarrow> 48 \<le> udigits ! d \<and> udigits ! d \<le> 57 \<and> uint (udigits ! d) = int d + 48"
proof -
  have "uint (of_nat n :: byte) = int n" if "n < 256" for n
    using that by (simp add: unsigned_of_nat take_bit_eq_mod)
  from this [of "48 + d"] show "d < 10 \<Longrightarrow> ?thesis" by (auto simp: udigits_nth word_le_def)
qed

lemma foldl_ge: "0 \<le> n \<Longrightarrow> n \<le> foldl (\<lambda>n d. n * 10 + int d) n es"
proof (induction es arbitrary: n)
  case (Cons d es)
  from Cons.prems have "0 \<le> n * 10 + int d" "n \<le> n * 10 + int d" by simp_all
  then show ?case using Cons.IH [of "n * 10 + int d"] by (simp del: of_nat_add)
qed simp

lemma atoi_loop_digits:
  assumes "\<forall>d\<in>set es. d < 10" "0 \<le> n"
  shows "atoi_loop (map ((!) udigits) es) n =
    (let m = foldl (\<lambda>n d. n * 10 + int d) n es in if es = [] \<or> m \<le> 2147483599 then Some m else None)"
  using assms
proof (induction es arbitrary: n)
  case (Cons d es)
  let ?n = "n * 10 + int d"
  have d: "48 \<le> udigits ! d" "udigits ! d \<le> 57" "uint (udigits ! d) = int d + 48" using Cons.prems udigits_ascii [of d] by auto
  have "0 \<le> ?n" "?n \<le> foldl (\<lambda>n d. n * 10 + int d) ?n es" using Cons.prems foldl_ge [of ?n es] by simp_all
  then show ?case using Cons.IH [of ?n] Cons.prems d by (cases es) (auto simp: Let_def)
qed simp

lemma foldl_int: "foldl (\<lambda>n d. n * 10 + int d) (int n) es = int (foldl (\<lambda>n d. n * 10 + d) n es)"
proof (induction es arbitrary: n)
  case (Cons d es)
  then show ?case using Cons.IH [of "n * 10 + d"] by simp
qed simp

section \<open>What a format means\<close>

text \<open>The digits of a number, most significant first.\<close>

function ndigits :: "nat \<Rightarrow> nat \<Rightarrow> nat list" where
  "ndigits b n = (if b < 2 \<or> n < b then [n] else ndigits b (n div b) @ [n mod b])"
  by pat_completeness auto
termination by (relation "measure snd") auto

declare ndigits.simps [simp del]

lemma digit_loop_ndigits:
  assumes "1 < base"
  shows "digit_loop digits x base = Some (map ((!) digits) (rev (ndigits (unat base) (unat x))))"
proof (induction "unat x" arbitrary: x rule: less_induct)
  case less
  have b: "1 < unat base" using assms by (simp add: word_less_nat_alt)
  have z: "x div base = 0 \<longleftrightarrow> unat x < unat base"
    using b by (metis div_eq_0_iff gr_implies_not_zero not_less_zero unat_div unat_eq_zero)
  show ?case
  proof (cases "x div base = 0")
    case True
    then show ?thesis using z b by (simp add: digit_loop.simps [of _ x] ndigits.simps [of _ "unat x"] unat_mod)
  next
    case False
    then have "unat x \<noteq> 0" by (metis div_0 unat_eq_zero)
    then have "unat (x div base) < unat x" using b by (simp add: unat_div)
    from less [OF this] show ?thesis
      using False z b by (simp add: digit_loop.simps [of _ x] ndigits.simps [of _ "unat x"] unat_mod unat_div)
  qed
qed

definition number_text :: "byte list \<Rightarrow> nat \<Rightarrow> bool \<Rightarrow> int \<Rightarrow> byte list" where
  "number_text digits b sg v =
     (if sg \<and> v < 0 then 45 # map ((!) digits) (ndigits b (nat (- v)))
      else map ((!) digits) (ndigits b (nat (v mod 2 ^ 32))))"

lemma print_number:
  assumes "1 < base" "- (2 ^ 31) \<le> v" "v < 2 ^ 31"
  shows "kprintint v base sg = Some (number_text kdigits (unat base) sg v)"
    "uprintint v base sg = Some (number_text udigits (unat base) sg v)"
proof -
  have u: "unat (of_int v :: u32) = nat (v mod 2 ^ 32)" "unat (- of_int v :: u32) = nat ((- v) mod 2 ^ 32)" for v
    by (simp_all add: take_bit_eq_mod unat_eq_nat_uint unsigned_of_int flip: of_int_minus)
  have "(- v) mod 2 ^ 32 = - v" if "v < 0" using that assms(2) by simp
  then show "kprintint v base sg = Some (number_text kdigits (unat base) sg v)"
    "uprintint v base sg = Some (number_text udigits (unat base) sg v)"
    using u [of v] by (auto simp: kprintint_def uprintint_def number_text_def Let_def digit_loop_ndigits [OF assms(1)] rev_map)
qed

lemma print_slot:
  "kprintint (slot_int a) 10 sg = Some (number_text kdigits 10 sg (slot_int a))"
  "kprintint (slot_int a) 16 sg = Some (number_text kdigits 16 sg (slot_int a))"
  "uprintint (slot_int a) 10 sg = Some (number_text udigits 10 sg (slot_int a))"
  "uprintint (slot_int a) 16 sg = Some (number_text udigits 16 sg (slot_int a))"
  using print_number [of 10 "slot_int a"] print_number [of 16 "slot_int a"] slot_int_range [of a] by simp_all

definition pointer_text :: "byte list \<Rightarrow> u64 \<Rightarrow> byte list" where
  "pointer_text digits x = bytes ''0x'' @ map (\<lambda>i. digits ! (unat x div 16 ^ (15 - i) mod 16)) [0..<16]"

lemma ptr_loop_nth: "ptr_loop digits n x = map (\<lambda>i. digits ! unat (drop_bit 60 (push_bit (4 * i) x))) [0..<n]"
proof (induction n arbitrary: x)
  case (Suc n)
  have "[0..<Suc n] = 0 # map Suc [0..<n]" by (simp add: map_Suc_upt upt_conv_Cons)
  then show ?case using Suc by (simp add: push_bit_push_bit comp_def add.commute)
qed simp

lemma print_pointer: "kprintptr x = pointer_text kdigits x" "uprintptr x = pointer_text udigits x"
proof -
  have "unat (drop_bit 60 (push_bit (4 * i) x)) = unat x div 16 ^ (15 - i) mod 16" if "i < 16" for i
  proof -
    have "unat (drop_bit 60 (push_bit (4 * i) x)) = drop_bit 60 (take_bit 64 (push_bit (4 * i) (unat x)))"
      by (simp add: unsigned_drop_bit_eq unsigned_push_bit_eq)
    also have "\<dots> = take_bit 4 (drop_bit (60 - 4 * i) (unat x))"
      using that by (simp add: drop_bit_take_bit drop_bit_push_bit)
    also have "\<dots> = unat x div 2 ^ (4 * (15 - i)) mod 16"
      using that by (simp add: take_bit_eq_mod drop_bit_eq_div diff_mult_distrib2)
    finally show ?thesis by (simp add: power_mult)
  qed
  then show "kprintptr x = pointer_text kdigits x" "uprintptr x = pointer_text udigits x"
    by (simp_all add: kprintptr_def uprintptr_def pointer_text_def ptr_loop_nth)
qed

text \<open>
  A format is a sequence of plain characters and directives; a percent sign at the end is dropped.
  The two printfs differ in the case of the letters in hexadecimal numbers, in the sign of %x, and
  in %l and %c, which only the user library has.
\<close>

datatype piece = Plain byte | Directive byte

fun parse_format :: "byte list \<Rightarrow> piece list" where
  "parse_format [] = []"
| "parse_format [c] = (if c = of_char CHR 0x25 then [] else [Plain c])"
| "parse_format (c # d # fmt) =
     (if c = of_char CHR 0x25 then Directive d # parse_format fmt else Plain c # parse_format (d # fmt))"

fun render :: "bool \<Rightarrow> (u64 \<Rightarrow> byte list) \<Rightarrow> (nat \<Rightarrow> u64) \<Rightarrow> nat \<Rightarrow> piece list \<Rightarrow> byte list" where
  "render user str ap k [] = []"
| "render user str ap k (Plain c # ps) = c # render user str ap k ps"
| "render user str ap k (Directive d # ps) =
     (let digits = (if user then udigits else kdigits) in
      if d = of_char CHR ''d'' then number_text digits 10 True (slot_int (ap k)) @ render user str ap (Suc k) ps
      else if d = of_char CHR ''x'' then number_text digits 16 (\<not> user) (slot_int (ap k)) @ render user str ap (Suc k) ps
      else if d = of_char CHR ''p'' then pointer_text digits (ap k) @ render user str ap (Suc k) ps
      else if d = of_char CHR ''s'' then str_arg str (ap k) @ render user str ap (Suc k) ps
      else if user \<and> d = of_char CHR ''l'' then number_text digits 10 False (slot_int (ap k)) @ render user str ap (Suc k) ps
      else if user \<and> d = of_char CHR ''c'' then ucast (ap k) # render user str ap (Suc k) ps
      else if d = of_char CHR 0x25 then d # render user str ap k ps
      else of_char CHR 0x25 # d # render user str ap k ps)"

lemma kprintf_render: "kprintf_loop str ap k fmt = Some (render False str ap k (parse_format fmt))"
  by (induction fmt arbitrary: k rule: parse_format.induct)
    (simp_all add: print_slot print_pointer Let_def)

lemma vprintf_render: "vprintf_loop str ap k False fmt = Some (render True str ap k (parse_format fmt))"
  by (induction fmt arbitrary: k rule: parse_format.induct)
    (simp_all add: print_slot print_pointer Let_def)

lemma ndigits_less: "1 < b \<Longrightarrow> d \<in> set (ndigits b n) \<Longrightarrow> d < b"
proof (induction b n rule: ndigits.induct)
  case (1 b n)
  then show ?case by (auto simp: ndigits.simps [of b n] split: if_splits)
qed

lemma decimal_text: "number_text udigits 10 sg v = number_text kdigits 10 sg v"
proof -
  have "udigits ! d = kdigits ! d" if "d < 10" for d
    using that by (auto simp: udigits_def kdigits_def bytes_def less_Suc_eq numeral_eq_Suc)
  then have "map ((!) udigits) (ndigits 10 n) = map ((!) kdigits) (ndigits 10 n)" for n
    using ndigits_less [of 10] by (intro map_cong) auto
  then show ?thesis by (simp add: number_text_def)
qed

lemma render_common:
  "set ps \<inter> Directive ` of_char ` {CHR ''x'', CHR ''p'', CHR ''l'', CHR ''c''} = {} \<Longrightarrow>
    render True str ap k ps = render False str ap k ps"
proof (induction ps arbitrary: k)
  case (Cons p ps)
  from Cons.prems have ps: "set ps \<inter> Directive ` of_char ` {CHR ''x'', CHR ''p'', CHR ''l'', CHR ''c''} = {}" by auto
  show ?case
  proof (cases p)
    case (Plain c)
    then show ?thesis using Cons.IH [OF ps] by simp
  next
    case (Directive d)
    then have "d \<notin> of_char ` {CHR ''x'', CHR ''p'', CHR ''l'', CHR ''c''}" using Cons.prems by auto
    then show ?thesis using Cons.IH [OF ps] Directive by (simp add: Let_def decimal_text)
  qed
qed simp

section \<open>Properties\<close>

text \<open>
  C30. printint prints any int in base 10 or 16, the most negative one included, as an optional minus
  sign and the digits of its value with no leading zero, and never fills more than the 16 bytes of
  its buffer.
\<close>

theorem printint_correct:
  assumes "base = 10 \<or> base = 16" "- (2 ^ 31) \<le> xx" "xx < 2 ^ 31"
  shows "\<exists>ds. kprintint xx base sign = Some ((if sign \<and> xx < 0 then [45] else []) @ map ((!) kdigits) ds) \<and>
    int (foldl (\<lambda>n d. n * unat base + d) 0 ds) = (if sign \<and> xx < 0 then - xx else xx mod 2 ^ 32) \<and>
    (hd ds = 0 \<longrightarrow> ds = [0]) \<and> (\<forall>d\<in>set ds. d < unat base) \<and>
    0 < length ds \<and> length ((if sign \<and> xx < 0 then [45] else []) @ map ((!) kdigits) ds) \<le> 16"
proof -
  have k: "map_option (\<lambda>buf. rev (if sign \<and> xx < 0 then buf @ [45] else buf))
      (digit_loop kdigits (if sign \<and> xx < 0 then - of_int xx else of_int xx) base) = kprintint xx base sign"
    by (simp only: kprintint_def Let_def)
  from print_digits [OF assms, of "sign \<and> xx < 0" kdigits, unfolded k] obtain ds where
    ds: "kprintint xx base sign = Some ((if sign \<and> xx < 0 then [45] else []) @ map ((!) kdigits) ds)"
      "int (foldl (\<lambda>n d. n * unat base + d) 0 ds) = (if sign \<and> xx < 0 then - xx else xx) mod 2 ^ 32"
      "ds \<noteq> []" "hd ds = 0 \<longrightarrow> ds = [0]" "\<forall>d\<in>set ds. d < unat base" "length ds \<le> 10"
    by (elim exE conjE) (rule that)
  have "(- xx) mod 2 ^ 32 = - xx" if "xx < 0" using that assms(2) by simp
  then show ?thesis using ds by (intro exI [of _ ds]) auto
qed

theorem printint_correct_witness:
  "\<exists>ds. kprintint (- 2147483648) 10 True = Some (45 # map ((!) kdigits) ds) \<and>
     foldl (\<lambda>n d. n * 10 + d) 0 ds = 2147483648"
  using printint_correct [of 10 "- 2147483648" True] by auto

text \<open>
  C31. What the user library prints for a non-negative int in decimal, atoi reads back as the same
  number up to 2147483599. For the 48 largest ints the sum n * 10 + *s, to which the code of the digit
  and not its value is added, overflows although the result would fit.
\<close>

theorem printint_atoi:
  assumes "0 \<le> xx" "xx < 2 ^ 31"
  shows "\<exists>out. uprintint xx 10 sg = Some out \<and> atoi out = (if xx \<le> 2147483599 then Some xx else None)"
proof -
  have b: "(10 :: u32) = 10 \<or> (10 :: u32) = 16" "- (2 ^ 31) \<le> xx" using assms by simp_all
  from print_digits [OF b assms(2), of False udigits] obtain ds where
    ds: "uprintint xx 10 sg = Some (map ((!) udigits) ds)" "ds \<noteq> []"
      "int (foldl (\<lambda>n d. n * unat (10 :: u32) + d) 0 ds) = xx mod 2 ^ 32" "\<forall>d\<in>set ds. d < unat (10 :: u32)"
    using assms(1) by (auto simp: uprintint_def Let_def)
  have "atoi (map ((!) udigits) ds) = (if xx \<le> 2147483599 then Some xx else None)"
    using ds(2-4) assms atoi_loop_digits [of ds 0] foldl_int [of 0 ds] by (simp add: atoi_def)
  then show ?thesis using ds(1) by blast
qed

theorem printint_atoi_witness:
  "(\<exists>out. uprintint 1234 10 True = Some out \<and> atoi out = Some 1234) \<and>
   (\<exists>out. uprintint 2147483647 10 True = Some out \<and> atoi out = None)"
  using printint_atoi [of 1234 True] printint_atoi [of 2147483647 True] by simp

text \<open>
  C29. Both printfs always finish and print what the format means, whatever the format and the
  arguments: the kernel's loop with its look-ahead and the state machine of the user library read
  the same directives. They print the same bytes if the format has none of x, p, l and c. For p and x
  the user library prints capital letters, and for x of a negative int its 32-bit complement where
  the kernel prints a minus sign and the absolute value; l and c are unknown to the kernel.
\<close>

theorem vprintf_agrees:
  "kprintf_loop str ap 0 fmt = Some (render False str ap 0 (parse_format fmt)) \<and>
   vprintf str fmt ap = Some (render True str ap 0 (parse_format fmt)) \<and>
   (set (parse_format fmt) \<inter> Directive ` of_char ` {CHR ''x'', CHR ''p'', CHR ''l'', CHR ''c''} = {} \<longrightarrow>
     vprintf str fmt ap = kprintf_loop str ap 0 fmt)"
  using render_common [of "parse_format fmt" str ap 0] by (simp add: vprintf_def kprintf_render vprintf_render)

theorem vprintf_agrees_witness:
  "vprintf (\<lambda>p. [104, 105]) (bytes ''%s: %d%%'') (\<lambda>k. 7) = kprintf_loop (\<lambda>p. [104, 105]) (\<lambda>k. 7) 0 (bytes ''%s: %d%%'') \<and>
   vprintf (\<lambda>p. []) (bytes ''%x'') (\<lambda>k. 0xFFFFFFFE) = Some (bytes ''FFFFFFFE'') \<and>
   kprintf_loop (\<lambda>p. []) (\<lambda>k. 0xFFFFFFFE) 0 (bytes ''%x'') = Some (bytes ''-2'')"
proof (intro conjI)
  have "set (parse_format (bytes ''%s: %d%%'')) \<inter> Directive ` of_char ` {CHR ''x'', CHR ''p'', CHR ''l'', CHR ''c''} = {}"
    by (simp add: bytes_def)
  then show "vprintf (\<lambda>p. [104, 105]) (bytes ''%s: %d%%'') (\<lambda>k. 7) = kprintf_loop (\<lambda>p. [104, 105]) (\<lambda>k. 7) 0 (bytes ''%s: %d%%'')"
    using vprintf_agrees [of "\<lambda>p. [104, 105]" "\<lambda>k. 7" "bytes ''%s: %d%%''"] by blast
  have p: "parse_format (bytes ''%x'') = [Directive 120]" by (simp add: bytes_def)
  have s: "slot_int 0xFFFFFFFE = - 2" by (simp add: slot_int_def int_of_u64_def)
  have "number_text udigits 16 False (- 2) = bytes ''FFFFFFFE''" "number_text kdigits 16 True (- 2) = bytes ''-2''"
    by (simp_all add: number_text_def ndigits.simps udigits_def kdigits_def bytes_def)
  then show "vprintf (\<lambda>p. []) (bytes ''%x'') (\<lambda>k. 0xFFFFFFFE) = Some (bytes ''FFFFFFFE'')"
    "kprintf_loop (\<lambda>p. []) (\<lambda>k. 0xFFFFFFFE) 0 (bytes ''%x'') = Some (bytes ''-2'')"
    using vprintf_agrees [of "\<lambda>p. []" "\<lambda>k. 0xFFFFFFFE" "bytes ''%x''"] by (simp_all add: p s)
qed

end
