(* ===== verification/Xv6_Virtio.thy ===== *)
theory Xv6_Virtio
  imports Xv6_Kalloc
begin

text \<open>
  The disk driver, virtio_disk.c: allocation of descriptors, the three-descriptor chain of a request,
  and its completion. The descriptor table, the avail ring and the driver's book-keeping form one
  record; the used ring is written by the device, so the interrupt handler takes it as an argument, as
  initialisation takes the values it reads from the device's registers. The addresses of the buffers,
  of the request headers and of the status bytes are parameters. Each section between sleeps, under
  the driver's lock, is one function.
\<close>

section \<open>Data\<close>

definition NUM :: nat where "NUM = 8"
definition VRING_DESC_F_NEXT :: u16 where "VRING_DESC_F_NEXT = 1"
definition VRING_DESC_F_WRITE :: u16 where "VRING_DESC_F_WRITE = 2"
definition VIRTIO_BLK_T_IN :: u32 where "VIRTIO_BLK_T_IN = 0"
definition VIRTIO_BLK_T_OUT :: u32 where "VIRTIO_BLK_T_OUT = 1"
definition BSIZE :: nat where "BSIZE = 1024"

record virtq_desc =
  addr :: u64
  len :: u32
  flags :: u16
  dnext :: u16

record virtio_blk_req =
  rtype :: u32
  reserved :: u32
  sector :: u64

record disk =
  desc :: "nat \<Rightarrow> virtq_desc"
  avail_idx :: u16
  avail_ring :: "nat \<Rightarrow> u16"
  free :: "nat \<Rightarrow> bool"
  used_idx :: u16
  info_b :: "nat \<Rightarrow> nat option"
  info_status :: "nat \<Rightarrow> byte"
  ops :: "nat \<Rightarrow> virtio_blk_req"
  bdisk :: "nat \<Rightarrow> bool"

record addresses =
  data_addr :: "nat \<Rightarrow> u64"
  ops_addr :: "nat \<Rightarrow> u64"
  status_addr :: "nat \<Rightarrow> u64"

definition no_desc :: virtq_desc where
  "no_desc = \<lparr>addr = 0, len = 0, flags = 0, dnext = 0\<rparr>"

section \<open>Initialisation\<close>

text \<open>The register offsets of virtio.h.\<close>

datatype reg = MAGIC_VALUE | VERSION | DEVICE_ID | VENDOR_ID | DEVICE_FEATURES | DRIVER_FEATURES | QUEUE_SEL
  | QUEUE_NUM_MAX | QUEUE_NUM | QUEUE_READY | QUEUE_NOTIFY | INTERRUPT_STATUS | INTERRUPT_ACK | STATUS
  | QUEUE_DESC_LOW | QUEUE_DESC_HIGH | DRIVER_DESC_LOW | DRIVER_DESC_HIGH | DEVICE_DESC_LOW | DEVICE_DESC_HIGH

text \<open>The feature bits the driver refuses: 5, 7, 11, 12, 27, 29 and 28.\<close>

definition wanted_features :: "u32 \<Rightarrow> u32" where
  "wanted_features f = fold (\<lambda>b f. f AND NOT (push_bit b 1)) [5, 7, 11, 12, 27, 29, 28] f"

definition low32 :: "u64 \<Rightarrow> u32" where "low32 a = ucast a"
definition high32 :: "u64 \<Rightarrow> u32" where "high32 a = ucast (drop_bit 32 a)"

text \<open>
  virtio_disk_init, given the value each register reads (each is read once) and the state of the page
  allocator: the register writes in order, the driver's state and the allocator's.
\<close>

definition virtio_disk_init :: "(reg \<Rightarrow> u32) \<Rightarrow> disk \<Rightarrow> kmem \<Rightarrow> ((reg \<times> u32) list \<times> disk \<times> kmem) kr" where
  "virtio_disk_init R d s =
     (if R MAGIC_VALUE \<noteq> 0x74726976 \<or> R VERSION \<noteq> 2 \<or> R DEVICE_ID \<noteq> 2 \<or> R VENDOR_ID \<noteq> 0x554d4551
      then Inl (Panic ''could not find virtio disk'')
      else let w1 = [(STATUS, 0), (STATUS, 1), (STATUS, 1 OR 2), (DRIVER_FEATURES, wanted_features (R DEVICE_FEATURES)),
                     (STATUS, 1 OR 2 OR 8)]; status = R STATUS in
      if status AND 8 = 0 then Inl (Panic ''virtio disk FEATURES_OK unset'')
      else if R QUEUE_READY \<noteq> 0 then Inl (Panic ''virtio disk should not be ready'')
      else if R QUEUE_NUM_MAX = 0 then Inl (Panic ''virtio disk has no queue 0'')
      else if R QUEUE_NUM_MAX < of_nat NUM then Inl (Panic ''virtio disk max queue too short'')
      else case kalloc s of (pd, s1) \<Rightarrow> case kalloc s1 of (pa, s2) \<Rightarrow> case kalloc s2 of (pu, s3) \<Rightarrow>
        if pd = 0 \<or> pa = 0 \<or> pu = 0 then Inl (Panic ''virtio disk kalloc'')
        else let m = memset (memset (memset (mem s3) pd 0 4096) pa 0 4096) pu 0 4096;
                 d' = d\<lparr>desc := \<lambda>i. no_desc, avail_idx := 0, avail_ring := \<lambda>i. 0,
                        free := \<lambda>i. True\<rparr>
             in Inr (w1 @ [(QUEUE_SEL, 0), (QUEUE_NUM, of_nat NUM),
                   (QUEUE_DESC_LOW, low32 pd), (QUEUE_DESC_HIGH, high32 pd),
                   (DRIVER_DESC_LOW, low32 pa), (DRIVER_DESC_HIGH, high32 pa),
                   (DEVICE_DESC_LOW, low32 pu), (DEVICE_DESC_HIGH, high32 pu),
                   (QUEUE_READY, 1), (STATUS, status OR 4)], d', s3\<lparr>mem := m\<rparr>))"

section \<open>Descriptors\<close>

definition alloc_desc :: "disk \<Rightarrow> int \<times> disk" where
  "alloc_desc d =
     (case find (\<lambda>i. free d i) [0..<NUM] of
        Some i \<Rightarrow> (int i, d\<lparr>free := (free d)(i := False)\<rparr>)
      | None \<Rightarrow> (-1, d))"

text \<open>After free_desc the sleepers on disk.free are woken.\<close>

definition free_desc :: "disk \<Rightarrow> nat \<Rightarrow> disk kr" where
  "free_desc d i =
     (if i \<ge> NUM then Inl (Panic ''free_desc 1'')
      else if free d i then Inl (Panic ''free_desc 2'')
      else Inr (d\<lparr>desc := (desc d)(i := no_desc), free := (free d)(i := True)\<rparr>))"

definition in_use :: "disk \<Rightarrow> nat set" where
  "in_use d = {i. i < NUM \<and> \<not> free d i}"

lemma finite_in_use [simp]: "finite (in_use d)"
  by (simp add: in_use_def)

lemma free_desc_in_use:
  assumes "free_desc d i = Inr d'"
  shows "in_use d' = in_use d - {i}" "i \<in> in_use d"
  using assms by (auto simp: free_desc_def in_use_def split: if_splits)

text \<open>free_chain ends because a descriptor cannot be freed twice.\<close>

function free_chain :: "disk \<Rightarrow> nat \<Rightarrow> disk kr" where
  "free_chain d i =
     (let flag = flags (desc d i); nxt = dnext (desc d i) in
      kbind (free_desc d i) (\<lambda>d'. if flag AND VRING_DESC_F_NEXT \<noteq> 0 then free_chain d' (unat nxt) else Inr d'))"
  by pat_completeness auto
termination
proof (relation "measure (\<lambda>(d, i). card (in_use d))")
  fix d d' :: disk and i :: nat and flag nxt :: u16
  assume "free_desc d i = Inr d'"
  note u = free_desc_in_use [OF this]
  have "card (in_use d') < card (in_use d)" unfolding u(1) by (rule card_Diff1_less [OF finite_in_use u(2)])
  then show "((d', unat nxt), d, i) \<in> measure (\<lambda>(d, i). card (in_use d))" by simp
qed simp

declare free_chain.simps [simp del]

text \<open>alloc3_desc: the three indices, or None after giving back what it had got.\<close>

definition alloc3_desc :: "disk \<Rightarrow> ((nat \<times> nat \<times> nat) option \<times> disk) kr" where
  "alloc3_desc d =
     (case alloc_desc d of (i0, d0) \<Rightarrow>
      if i0 < 0 then Inr (None, d0)
      else case alloc_desc d0 of (i1, d1) \<Rightarrow>
      if i1 < 0 then kbind (free_desc d1 (nat i0)) (\<lambda>d2. Inr (None, d2))
      else case alloc_desc d1 of (i2, d2) \<Rightarrow>
      if i2 < 0 then kbind (free_desc d2 (nat i0)) (\<lambda>d3. kbind (free_desc d3 (nat i1)) (\<lambda>d4. Inr (None, d4)))
      else Inr (Some (nat i0, nat i1, nat i2), d2))"

section \<open>Requests\<close>

text \<open>
  virtio_disk_rw up to the wait for completion: None if the caller sleeps for descriptors, else the
  chain of the request.
\<close>

definition virtio_disk_rw_start ::
  "addresses \<Rightarrow> disk \<Rightarrow> nat \<Rightarrow> u32 \<Rightarrow> bool \<Rightarrow> ((nat \<times> nat \<times> nat) option \<times> disk) kr" where
  "virtio_disk_rw_start A d b blockno wr =
     (let sec = ucast (blockno * (of_nat BSIZE div 512)) in
      kbind (alloc3_desc d) (\<lambda>(idx, d). case idx of
        None \<Rightarrow> Inr (None, d)
      | Some (i0, i1, i2) \<Rightarrow>
          let d = d\<lparr>ops := (ops d)(i0 := \<lparr>rtype = if wr then VIRTIO_BLK_T_OUT else VIRTIO_BLK_T_IN, reserved = 0, sector = sec\<rparr>)\<rparr>;
              d = d\<lparr>desc := (desc d)(i0 := \<lparr>addr = ops_addr A i0, len = 16, flags = VRING_DESC_F_NEXT, dnext = of_nat i1\<rparr>)\<rparr>;
              d = d\<lparr>desc := (desc d)(i1 := \<lparr>addr = data_addr A b, len = of_nat BSIZE,
                      flags = (if wr then 0 else VRING_DESC_F_WRITE) OR VRING_DESC_F_NEXT, dnext = of_nat i2\<rparr>)\<rparr>;
              d = d\<lparr>info_status := (info_status d)(i0 := 0xff)\<rparr>;
              d = d\<lparr>desc := (desc d)(i2 := \<lparr>addr = status_addr A i0, len = 1, flags = VRING_DESC_F_WRITE, dnext = 0\<rparr>)\<rparr>;
              d = d\<lparr>bdisk := (bdisk d)(b := True), info_b := (info_b d)(i0 := Some b)\<rparr>;
              d = d\<lparr>avail_ring := (avail_ring d)(unat (avail_idx d) mod NUM := of_nat i0)\<rparr>;
              d = d\<lparr>avail_idx := avail_idx d + 1\<rparr>
          in Inr (Some (i0, i1, i2), d)))"

text \<open>The rest of virtio_disk_rw: None while the device still owns the buffer.\<close>

definition virtio_disk_rw_finish :: "disk \<Rightarrow> nat \<Rightarrow> nat \<Rightarrow> disk option kr" where
  "virtio_disk_rw_finish d b i0 =
     (if bdisk d b then Inr None
      else kbind (free_chain (d\<lparr>info_b := (info_b d)(i0 := None)\<rparr>) i0) (\<lambda>d'. Inr (Some d')))"

text \<open>
  virtio_disk_intr, with the index and the ring the device has written; the result includes the
  buffers whose sleepers are woken.
\<close>

function virtio_disk_intr :: "u16 \<Rightarrow> (nat \<Rightarrow> u32) \<Rightarrow> disk \<Rightarrow> (nat list \<times> disk) kr" where
  "virtio_disk_intr dev_idx ring d =
     (if used_idx d \<noteq> dev_idx then
        let id = unat (ring (unat (used_idx d) mod NUM)) in
        if id \<ge> NUM then Inl (Fault ''used ring'')
        else if info_status d id \<noteq> 0 then Inl (Panic ''virtio_disk_intr status'')
        else case info_b d id of
          None \<Rightarrow> Inl (Fault ''virtio_disk_intr'')
        | Some b \<Rightarrow>
            kbind (virtio_disk_intr dev_idx ring (d\<lparr>bdisk := (bdisk d)(b := False), used_idx := used_idx d + 1\<rparr>))
              (\<lambda>(ws, d'). Inr (b # ws, d'))
      else Inr ([], d))"
  by pat_completeness auto
termination
proof (relation "measure (\<lambda>(dev_idx, ring, d). unat (dev_idx - used_idx d))")
  fix dev_idx :: u16 and ring :: "nat \<Rightarrow> u32" and d :: disk and x b
  assume "used_idx d \<noteq> dev_idx"
  then have "dev_idx - used_idx d \<noteq> 0" by simp
  then have "unat (dev_idx - used_idx d - 1) < unat (dev_idx - used_idx d)" by (rule measure_unat)
  then show "((dev_idx, ring, d\<lparr>bdisk := (bdisk d)(b := False), used_idx := used_idx d + 1\<rparr>), dev_idx, ring, d)
      \<in> measure (\<lambda>(dev_idx, ring, d). unat (dev_idx - used_idx d))"
    by (simp add: diff_diff_add)
qed simp

declare virtio_disk_intr.simps [simp del]

section \<open>Requests in flight\<close>

text \<open>A request: its chain, its buffer, its block and its direction.\<close>

record request =
  r0 :: nat
  r1 :: nat
  r2 :: nat
  rbuf :: nat
  rblock :: u32
  rwrite :: bool

definition rset :: "request \<Rightarrow> nat set" where
  "rset r = {r0 r, r1 r, r2 r}"

text \<open>What the device must find in the descriptor table and the request header.\<close>

definition chain_ok :: "addresses \<Rightarrow> disk \<Rightarrow> request \<Rightarrow> bool" where
  "chain_ok A d r \<longleftrightarrow>
     r0 r < NUM \<and> r1 r < NUM \<and> r2 r < NUM \<and> r0 r \<noteq> r1 r \<and> r0 r \<noteq> r2 r \<and> r1 r \<noteq> r2 r \<and>
     ops d (r0 r) = \<lparr>rtype = if rwrite r then VIRTIO_BLK_T_OUT else VIRTIO_BLK_T_IN, reserved = 0,
        sector = ucast (rblock r * 2)\<rparr> \<and>
     desc d (r0 r) = \<lparr>addr = ops_addr A (r0 r), len = 16, flags = VRING_DESC_F_NEXT, dnext = of_nat (r1 r)\<rparr> \<and>
     desc d (r1 r) = \<lparr>addr = data_addr A (rbuf r), len = 1024,
        flags = (if rwrite r then VRING_DESC_F_NEXT else VRING_DESC_F_WRITE OR VRING_DESC_F_NEXT), dnext = of_nat (r2 r)\<rparr> \<and>
     desc d (r2 r) = \<lparr>addr = status_addr A (r0 r), len = 1, flags = VRING_DESC_F_WRITE, dnext = 0\<rparr>"

text \<open>
  The device: how far it has read the avail ring, the heads of the chains it works on, and the used
  ring it writes with its index.
\<close>

record vdev =
  last_avail :: u16
  taken :: "nat set"
  uidx :: u16
  uring :: "nat \<Rightarrow> u32"

text \<open>
  All histories of the driver and the device: processes start and finish requests, each for a buffer
  whose sleep lock it holds, so that no other request for it is in flight; the device takes heads off
  the avail ring in order, and completes them in any order, with any status; interrupts arrive at any
  time.
\<close>

inductive vd_run :: "addresses \<Rightarrow> disk \<Rightarrow> request list \<Rightarrow> vdev \<Rightarrow> bool" for A where
  vd_init: "virtio_disk_init R d0 s = Inr (ws, d, s') \<Longrightarrow> used_idx d0 = 0 \<Longrightarrow>
    vd_run A d [] \<lparr>last_avail = 0, taken = {}, uidx = 0, uring = \<lambda>i. 0\<rparr>"
| vd_start: "vd_run A d fl v \<Longrightarrow> b \<notin> rbuf ` set fl \<Longrightarrow>
    virtio_disk_rw_start A d b blockno wr = Inr (Some (i0, i1, i2), d') \<Longrightarrow>
    vd_run A d' (\<lparr>r0 = i0, r1 = i1, r2 = i2, rbuf = b, rblock = blockno, rwrite = wr\<rparr> # fl) v"
| vd_sleep: "vd_run A d fl v \<Longrightarrow> virtio_disk_rw_start A d b blockno wr = Inr (None, d') \<Longrightarrow> vd_run A d' fl v"
| vd_take: "vd_run A d fl v \<Longrightarrow> last_avail v \<noteq> avail_idx d \<Longrightarrow>
    vd_run A d fl (v\<lparr>taken := insert (unat (avail_ring d (unat (last_avail v) mod NUM))) (taken v), last_avail := last_avail v + 1\<rparr>)"
| vd_complete: "vd_run A d fl v \<Longrightarrow> h \<in> taken v \<Longrightarrow>
    vd_run A (d\<lparr>info_status := (info_status d)(h := x)\<rparr>) fl
      (v\<lparr>taken := taken v - {h}, uring := (uring v)(unat (uidx v) mod NUM := of_nat h), uidx := uidx v + 1\<rparr>)"
| vd_intr: "vd_run A d fl v \<Longrightarrow> virtio_disk_intr (uidx v) (uring v) d = Inr (ws, d') \<Longrightarrow> vd_run A d' fl v"
| vd_finish: "vd_run A d (fl1 @ r # fl2) v \<Longrightarrow> virtio_disk_rw_finish d (rbuf r) (r0 r) = Inr (Some d') \<Longrightarrow>
    vd_run A d' (fl1 @ fl2) v"

text \<open>The entries of a ring from an index on; the index counts modulo two to the sixteenth.\<close>

definition window :: "(nat \<Rightarrow> 'a) \<Rightarrow> u16 \<Rightarrow> 'a list \<Rightarrow> bool" where
  "window ring start xs \<longleftrightarrow> (\<forall>k<length xs. ring (unat (start + of_nat k) mod NUM) = xs ! k)"

lemma ring_pos: "unat (start + of_nat k :: u16) mod NUM = (unat start + k) mod NUM"
  by (simp add: unat_word_ariths unat_of_nat NUM_def mod_simps mod_mod_cancel)

lemma window_Nil [simp]: "window ring start []"
  by (simp add: window_def)

lemma window_push:
  assumes "window ring start xs" "length xs < NUM"
  shows "window (ring(unat (start + of_nat (length xs)) mod NUM := x)) start (xs @ [x])"
proof -
  have "(u + k) mod 8 \<noteq> (u + n) mod 8" if "k < n" "n < 8" for u k n :: nat
    using that mod_eq_dvd_iff_nat [of "u + k" "u + n" 8] dvd_imp_le [of 8 "n - k"] by auto
  then have "unat (start + of_nat k) mod NUM \<noteq> unat (start + of_nat (length xs)) mod NUM" if "k < length xs" for k
    unfolding ring_pos using that assms(2) by (simp add: NUM_def)
  then show ?thesis using assms(1) by (auto simp: window_def nth_append less_Suc_eq)
qed

lemma window_pop:
  assumes "window ring start (x # xs)"
  shows "ring (unat start mod NUM) = x" "window ring (start + 1) xs"
proof -
  have w: "ring (unat (start + of_nat k) mod NUM) = (x # xs) ! k" if "k < Suc (length xs)" for k
    using assms that by (simp add: window_def)
  show "ring (unat start mod NUM) = x" using w [of 0] by simp
  show "window ring (start + 1) xs" using w [of "Suc _"] by (simp add: window_def algebra_simps)
qed

lemma window_map:
  assumes "window ring start (map f xs)" "start + of_nat (length xs) = stop" "length xs < 2 ^ 16"
  shows "map (\<lambda>k. ring (unat (start + of_nat k) mod NUM)) [0..<unat (stop - start)] = map f xs"
proof -
  have "stop - start = of_nat (length xs)" using assms(2) by (simp add: algebra_simps)
  then have "unat (stop - start) = length xs" using assms(3) by (simp add: unat_of_nat)
  then show ?thesis using assms(1) by (intro nth_equalityI) (simp_all add: window_def)
qed

text \<open>
  Where the requests in flight are: av waits in the avail ring, td is with the device, cp waits in the
  used ring, and the rest is done.
\<close>

definition vd_inv :: "addresses \<Rightarrow> disk \<Rightarrow> request list \<Rightarrow> bool" where
  "vd_inv A d fl \<longleftrightarrow> (\<forall>r\<in>set fl. chain_ok A d r) \<and> pairwise (\<lambda>r r'. rset r \<inter> rset r' = {}) (set fl) \<and> distinct fl \<and>
     in_use d = (\<Union>r\<in>set fl. rset r)"

definition vd_flow :: "disk \<Rightarrow> request list \<Rightarrow> vdev \<Rightarrow> request list \<Rightarrow> request list \<Rightarrow> request list \<Rightarrow> bool" where
  "vd_flow d fl v av td cp \<longleftrightarrow> set (av @ td @ cp) \<subseteq> set fl \<and> distinct (av @ td @ cp) \<and> inj_on rbuf (set fl) \<and>
     (\<forall>r\<in>set fl. info_b d (r0 r) = Some (rbuf r) \<and> (bdisk d (rbuf r) \<longleftrightarrow> r \<in> set (av @ td @ cp))) \<and>
     taken v = r0 ` set td \<and>
     last_avail v + of_nat (length av) = avail_idx d \<and> window (avail_ring d) (last_avail v) (map (\<lambda>r. of_nat (r0 r)) av) \<and>
     used_idx d + of_nat (length cp) = uidx v \<and> window (uring v) (used_idx d) (map (\<lambda>r. of_nat (r0 r)) cp)"

lemma vd_inv_heads:
  assumes "vd_inv A d fl"
  shows "inj_on r0 (set fl)" "r \<in> set fl \<Longrightarrow> r0 r < NUM" "length fl \<le> 2"
proof -
  show "inj_on r0 (set fl)" using assms by (auto simp: inj_on_def vd_inv_def pairwise_def rset_def)
  show "r \<in> set fl \<Longrightarrow> r0 r < NUM" using assms by (simp add: vd_inv_def chain_ok_def)
  have "card (\<Union>r\<in>set fl. rset r) = (\<Sum>r\<in>set fl. card (rset r))"
    using assms by (intro card_UN_disjoint) (auto simp: vd_inv_def pairwise_def rset_def)
  also have "\<dots> = (\<Sum>r\<in>set fl. 3)"
    using assms by (intro sum.cong refl) (auto simp: vd_inv_def chain_ok_def rset_def)
  also have "\<dots> = 3 * length fl" using assms by (simp add: vd_inv_def distinct_card)
  finally have "3 * length fl = card (in_use d)" using assms by (simp add: vd_inv_def)
  also have "\<dots> \<le> card {..<NUM}" by (intro card_mono) (auto simp: in_use_def)
  finally show "length fl \<le> 2" by (simp add: NUM_def)
qed

lemma alloc_desc_spec:
  assumes "alloc_desc d = (i, d')"
  shows "i < 0 \<and> d' = d \<and> in_use d = {..<NUM} \<or>
    0 \<le> i \<and> nat i < NUM \<and> nat i \<notin> in_use d \<and> d' = d\<lparr>free := (free d)(nat i := False)\<rparr> \<and> in_use d' = insert (nat i) (in_use d)"
proof (cases "find (\<lambda>i. free d i) [0..<NUM]")
  case None
  then have "\<forall>i<NUM. \<not> free d i" by (auto simp: find_None_iff)
  then show ?thesis using assms None by (auto simp: alloc_desc_def in_use_def)
next
  case (Some k)
  then have "k < NUM" "free d k" by (auto simp: find_Some_iff)
  then show ?thesis using assms Some by (auto simp: alloc_desc_def in_use_def split: if_splits)
qed

lemma alloc3_desc_spec:
  assumes "alloc3_desc d = res"
  shows "(\<exists>d'. res = Inr (None, d') \<and> in_use d' = in_use d \<and> d' = d\<lparr>desc := desc d', free := free d'\<rparr> \<and>
        (\<forall>i\<in>in_use d. desc d' i = desc d i) \<and> card (in_use d) > NUM - 3) \<or>
    (\<exists>i0 i1 i2 f. res = Inr (Some (i0, i1, i2), d\<lparr>free := f\<rparr>) \<and> in_use (d\<lparr>free := f\<rparr>) = {i0, i1, i2} \<union> in_use d \<and>
        {i0, i1, i2} \<inter> in_use d = {} \<and> i0 < NUM \<and> i1 < NUM \<and> i2 < NUM \<and> i0 \<noteq> i1 \<and> i0 \<noteq> i2 \<and> i1 \<noteq> i2)"
proof -
  obtain i0 d0 where a0: "alloc_desc d = (i0, d0)" by (metis prod.exhaust)
  obtain i1 d1 where a1: "alloc_desc d0 = (i1, d1)" by (metis prod.exhaust)
  obtain i2 d2 where a2: "alloc_desc d1 = (i2, d2)" by (metis prod.exhaust)
  note s0 = alloc_desc_spec [OF a0] and s1 = alloc_desc_spec [OF a1] and s2 = alloc_desc_spec [OF a2]
  have cN: "card {..<NUM} = NUM" by simp
  show ?thesis
  proof (cases "i0 < 0")
    case True
    then show ?thesis using assms s0 by (auto simp: alloc3_desc_def a0 NUM_def)
  next
    case g0: False
    then have e0: "nat i0 < NUM" "nat i0 \<notin> in_use d" "d0 = d\<lparr>free := (free d)(nat i0 := False)\<rparr>"
      "in_use d0 = insert (nat i0) (in_use d)" using s0 by auto
    show ?thesis
    proof (cases "i1 < 0")
      case True
      then have e1: "d1 = d0" "in_use d0 = {..<NUM}" using s1 by auto
      then have "Suc (card (in_use d)) = NUM" using e0(2,4) cN by (metis card_insert_disjoint finite_in_use)
      moreover have f: "free_desc d0 (nat i0) = Inr (d0\<lparr>desc := (desc d0)(nat i0 := no_desc), free := (free d0)(nat i0 := True)\<rparr>)"
        (is "_ = Inr ?d2") using e0 by (simp add: free_desc_def)
      moreover have "in_use ?d2 = in_use d"
        using free_desc_in_use(1) [OF f] e0(2,4) by simp
      moreover have "\<forall>i\<in>in_use d. desc ?d2 i = desc d i" "?d2 = d\<lparr>desc := desc ?d2, free := free ?d2\<rparr>"
        using e0 by auto
      ultimately show ?thesis using assms g0 True e1(1) by (intro disjI1 exI [of _ ?d2]) (simp add: alloc3_desc_def a0 a1 NUM_def)
    next
      case g1: False
      then have e1: "nat i1 < NUM" "nat i1 \<notin> in_use d0" "d1 = d0\<lparr>free := (free d0)(nat i1 := False)\<rparr>"
        "in_use d1 = insert (nat i1) (in_use d0)" using s1 by auto
      have ne: "nat i0 \<noteq> nat i1" using e1(2) e0(4) by auto
      show ?thesis
      proof (cases "i2 < 0")
        case True
        then have e2: "d2 = d1" "in_use d1 = {..<NUM}" using s2 by auto
        then have "Suc (Suc (card (in_use d))) = NUM"
          using e0(2,4) e1(2,4) cN by (metis card_insert_disjoint finite_in_use)
        moreover have f: "free_desc d1 (nat i0) = Inr (d1\<lparr>desc := (desc d1)(nat i0 := no_desc), free := (free d1)(nat i0 := True)\<rparr>)"
          (is "_ = Inr ?d3") using e0 e1 ne by (simp add: free_desc_def)
        moreover have f': "free_desc ?d3 (nat i1) = Inr (?d3\<lparr>desc := (desc ?d3)(nat i1 := no_desc), free := (free ?d3)(nat i1 := True)\<rparr>)"
          (is "_ = Inr ?d4") using e0 e1 ne by (simp add: free_desc_def)
        moreover have "in_use ?d4 = in_use d"
          using free_desc_in_use(1) [OF f'] free_desc_in_use(1) [OF f] e0(2,4) e1(2,4) by auto
        moreover have "\<forall>i\<in>in_use d. desc ?d4 i = desc d i" "?d4 = d\<lparr>desc := desc ?d4, free := free ?d4\<rparr>"
          using e0 e1 by auto
        ultimately show ?thesis using assms g0 g1 True e2(1) by (intro disjI1 exI [of _ ?d4]) (simp add: alloc3_desc_def a0 a1 a2 NUM_def)
      next
        case g2: False
        then have e2: "nat i2 < NUM" "nat i2 \<notin> in_use d1" "d2 = d1\<lparr>free := (free d1)(nat i2 := False)\<rparr>"
          "in_use d2 = insert (nat i2) (in_use d1)" using s2 by auto
        have "res = Inr (Some (nat i0, nat i1, nat i2), d2)" using assms g0 g1 g2 by (simp add: alloc3_desc_def a0 a1 a2)
        moreover have "d2 = d\<lparr>free := free d2\<rparr>" using e0(3) e1(3) e2(3) by simp
        ultimately show ?thesis using e0 e1 e2 ne by (intro disjI2 exI [of _ "nat i0"] exI [of _ "nat i1"] exI [of _ "nat i2"] exI [of _ "free d2"]) auto
      qed
    qed
  qed
qed

text \<open>A change of the status bytes, the flags of the buffers or the used index is invisible to chains.\<close>

lemma vd_inv_cong:
  assumes "vd_inv A d fl" "\<forall>i\<in>in_use d. desc d' i = desc d i" "ops d' = ops d" "in_use d' = in_use d"
  shows "vd_inv A d' fl"
  using assms by (auto simp: vd_inv_def chain_ok_def rset_def)

text \<open>The interrupt handler on a used ring that holds the heads of the requests cp.\<close>

lemma virtio_disk_intr_spec:
  assumes "window ring (used_idx d) (map (\<lambda>r. of_nat (r0 r)) cp)" "used_idx d + of_nat (length cp) = di" "length cp < 2 ^ 16"
    "\<forall>r\<in>set cp. r0 r < NUM \<and> info_b d (r0 r) = Some (rbuf r)"
  shows "virtio_disk_intr di ring d =
    (if \<forall>r\<in>set cp. info_status d (r0 r) = 0
     then Inr (map rbuf cp, d\<lparr>bdisk := \<lambda>b. bdisk d b \<and> b \<notin> rbuf ` set cp, used_idx := di\<rparr>)
     else Inl (Panic ''virtio_disk_intr status''))"
  using assms
proof (induction cp arbitrary: d)
  case Nil
  then show ?case by (simp add: virtio_disk_intr.simps [of di ring d])
next
  case (Cons r cp)
  let ?d = "d\<lparr>bdisk := (bdisk d)(rbuf r := False), used_idx := used_idx d + 1\<rparr>"
  have ne: "used_idx d \<noteq> di"
  proof
    assume "used_idx d = di"
    then have "(of_nat (length (r # cp)) :: u16) = 0" using Cons.prems(2) by (simp add: algebra_simps)
    then have "unat (of_nat (length (r # cp)) :: u16) = 0" by simp
    then show False using Cons.prems(3) by (simp add: unat_of_nat del: of_nat_Suc)
  qed
  have w: "ring (unat (used_idx d) mod NUM) = of_nat (r0 r)" "window ring (used_idx d + 1) (map (\<lambda>r. of_nat (r0 r)) cp)"
    using window_pop [of ring "used_idx d"] Cons.prems(1) by auto
  have h: "unat (of_nat (r0 r) :: u32) = r0 r" "r0 r < NUM" "info_b d (r0 r) = Some (rbuf r)"
    using Cons.prems(4) by (simp_all add: NUM_def unat_of_nat)
  have "virtio_disk_intr di ring ?d = (if \<forall>r\<in>set cp. info_status ?d (r0 r) = 0
     then Inr (map rbuf cp, ?d\<lparr>bdisk := \<lambda>b. bdisk ?d b \<and> b \<notin> rbuf ` set cp, used_idx := di\<rparr>)
     else Inl (Panic ''virtio_disk_intr status''))"
    using w(2) Cons.prems by (intro Cons.IH) (simp_all add: algebra_simps)
  moreover have "(\<lambda>b. bdisk ?d b \<and> b \<notin> rbuf ` set cp) = (\<lambda>b. bdisk d b \<and> b \<notin> rbuf ` set (r # cp))" by auto
  ultimately show ?case using ne w(1) h by (simp add: virtio_disk_intr.simps [of di ring d] Let_def)
qed

text \<open>Freeing the chain of a request clears its three descriptors and nothing else, without a panic.\<close>

lemma free_chain_request:
  assumes "chain_ok A d r" "rset r \<subseteq> in_use d"
  shows "\<exists>d'. free_chain d (r0 r) = Inr d' \<and> in_use d' = in_use d - rset r \<and> d' = d\<lparr>desc := desc d', free := free d'\<rparr> \<and>
    (\<forall>i. i \<notin> rset r \<longrightarrow> desc d' i = desc d i)"
proof -
  let ?f = "\<lambda>d i. d\<lparr>desc := (desc d)(i := no_desc), free := (free d)(i := True)\<rparr>"
  have c: "r0 r < NUM" "r1 r < NUM" "r2 r < NUM" "r0 r \<noteq> r1 r" "r0 r \<noteq> r2 r" "r1 r \<noteq> r2 r"
    using assms(1) by (auto simp: chain_ok_def)
  have nf: "\<not> free d (r0 r)" "\<not> free d (r1 r)" "\<not> free d (r2 r)" using assms(2) by (auto simp: rset_def in_use_def)
  have u: "unat (of_nat i :: u16) = i" if "i < NUM" for i
    using that by (simp add: NUM_def unat_of_nat)
  define d1 where "d1 = ?f d (r0 r)"
  define d2 where "d2 = ?f d1 (r1 r)"
  define d3 where "d3 = ?f d2 (r2 r)"
  have e: "free_desc d (r0 r) = Inr d1" "free_desc d1 (r1 r) = Inr d2" "free_desc d2 (r2 r) = Inr d3"
    using c nf by (simp_all add: free_desc_def d1_def d2_def d3_def)
  have fl: "flags (desc d (r0 r)) AND VRING_DESC_F_NEXT \<noteq> 0" "unat (dnext (desc d (r0 r))) = r1 r"
    "flags (desc d1 (r1 r)) AND VRING_DESC_F_NEXT \<noteq> 0" "unat (dnext (desc d1 (r1 r))) = r2 r"
    "flags (desc d2 (r2 r)) AND VRING_DESC_F_NEXT = 0"
    using assms(1) c u by (auto simp: chain_ok_def d1_def d2_def VRING_DESC_F_NEXT_def VRING_DESC_F_WRITE_def)
  have "free_chain d2 (r2 r) = Inr d3" unfolding free_chain.simps [of d2] by (simp add: e fl)
  then have "free_chain d1 (r1 r) = Inr d3" unfolding free_chain.simps [of d1] by (simp add: e fl)
  then have "free_chain d (r0 r) = Inr d3" unfolding free_chain.simps [of d] by (simp add: e fl)
  moreover have "in_use d3 = in_use d - rset r" using free_desc_in_use(1) [OF e(1)] free_desc_in_use(1) [OF e(2)]
      free_desc_in_use(1) [OF e(3)] by (auto simp: rset_def)
  moreover have "d3 = d\<lparr>desc := desc d3, free := free d3\<rparr>" "\<forall>i. i \<notin> rset r \<longrightarrow> desc d3 i = desc d i"
    by (simp_all add: d1_def d2_def d3_def rset_def)
  ultimately show ?thesis by blast
qed

lemma vd_start_inv:
  assumes "vd_inv A d fl" "virtio_disk_rw_start A d b blockno wr = Inr (Some (i0, i1, i2), d')"
  shows "vd_inv A d' (\<lparr>r0 = i0, r1 = i1, r2 = i2, rbuf = b, rblock = blockno, rwrite = wr\<rparr> # fl)"
    (is "vd_inv A d' (?r # fl)")
proof -
  obtain d1 where a: "alloc3_desc d = Inr (Some (i0, i1, i2), d1)"
    using assms(2) by (cases "alloc3_desc d") (auto simp: virtio_disk_rw_start_def Let_def split: option.splits)
  from alloc3_desc_spec [OF a] obtain f where f: "d1 = d\<lparr>free := f\<rparr>" "in_use d1 = {i0, i1, i2} \<union> in_use d"
    "{i0, i1, i2} \<inter> in_use d = {}" "i0 < NUM" "i1 < NUM" "i2 < NUM" "i0 \<noteq> i1" "i0 \<noteq> i2" "i1 \<noteq> i2" by auto
  have d': "free d' = free d1" "ops d' = (ops d)(i0 := \<lparr>rtype = if wr then VIRTIO_BLK_T_OUT else VIRTIO_BLK_T_IN, reserved = 0, sector = ucast (blockno * 2)\<rparr>)"
    "desc d' = (desc d)(i0 := \<lparr>addr = ops_addr A i0, len = 16, flags = VRING_DESC_F_NEXT, dnext = of_nat i1\<rparr>,
       i1 := \<lparr>addr = data_addr A b, len = 1024, flags = (if wr then 0 else VRING_DESC_F_WRITE) OR VRING_DESC_F_NEXT, dnext = of_nat i2\<rparr>,
       i2 := \<lparr>addr = status_addr A i0, len = 1, flags = VRING_DESC_F_WRITE, dnext = 0\<rparr>)"
    using assms(2) a f(1) by (auto simp: virtio_disk_rw_start_def Let_def BSIZE_def)
  have iu: "in_use d' = {i0, i1, i2} \<union> in_use d" using f(2) d'(1) by (simp add: in_use_def)
  have sub: "rset r \<subseteq> in_use d" if "r \<in> set fl" for r using assms(1) that by (auto simp: vd_inv_def)
  have "chain_ok A d' ?r" using f(4-9) by (simp add: chain_ok_def d'(2,3))
  moreover have "chain_ok A d' r" if "r \<in> set fl" for r
  proof -
    have "chain_ok A d r" using assms(1) that by (simp add: vd_inv_def)
    moreover have "r0 r \<notin> {i0, i1, i2}" "r1 r \<notin> {i0, i1, i2}" "r2 r \<notin> {i0, i1, i2}"
      using sub [OF that] f(3) by (auto simp: rset_def)
    ultimately show ?thesis by (simp add: chain_ok_def d'(2,3))
  qed
  moreover have dj: "rset ?r \<inter> rset r = {}" if "r \<in> set fl" for r using sub [OF that] f(3) by (auto simp: rset_def)
  moreover have "?r \<notin> set fl" using dj [of ?r] by (auto simp: rset_def)
  ultimately show ?thesis using assms(1) iu by (auto simp: vd_inv_def pairwise_insert rset_def)
qed

lemma vd_start_effect:
  assumes "virtio_disk_rw_start A d b blockno wr = Inr (Some (i0, i1, i2), d')"
  shows "bdisk d' = (bdisk d)(b := True)" "info_b d' = (info_b d)(i0 := Some b)" "avail_idx d' = avail_idx d + 1"
    "avail_ring d' = (avail_ring d)(unat (avail_idx d) mod NUM := of_nat i0)" "used_idx d' = used_idx d"
proof -
  obtain d1 where a: "alloc3_desc d = Inr (Some (i0, i1, i2), d1)"
    using assms by (cases "alloc3_desc d") (auto simp: virtio_disk_rw_start_def Let_def split: option.splits)
  from alloc3_desc_spec [OF a] obtain f where f: "d1 = d\<lparr>free := f\<rparr>" by auto
  show "bdisk d' = (bdisk d)(b := True)" "info_b d' = (info_b d)(i0 := Some b)" "avail_idx d' = avail_idx d + 1"
    "avail_ring d' = (avail_ring d)(unat (avail_idx d) mod NUM := of_nat i0)" "used_idx d' = used_idx d"
    using assms a f by (auto simp: virtio_disk_rw_start_def Let_def)
qed

lemma vd_flow_length:
  assumes "vd_inv A d fl" "vd_flow d fl v av td cp"
  shows "length av + length td + length cp \<le> 2"
proof -
  have "length (av @ td @ cp) = card (set (av @ td @ cp))" using assms(2) by (simp only: vd_flow_def distinct_card)
  also have "\<dots> \<le> card (set fl)" using assms(2) by (intro card_mono) (simp_all add: vd_flow_def)
  also have "\<dots> \<le> length fl" by (rule card_length)
  finally show ?thesis using vd_inv_heads(3) [OF assms(1)] by simp
qed

lemma vd_start_flow:
  assumes "vd_inv A d fl" "vd_flow d fl v av td cp" "b \<notin> rbuf ` set fl"
    "virtio_disk_rw_start A d b blockno wr = Inr (Some (i0, i1, i2), d')"
    "r = \<lparr>r0 = i0, r1 = i1, r2 = i2, rbuf = b, rblock = blockno, rwrite = wr\<rparr>"
  shows "vd_flow d' (r # fl) v (av @ [r]) td cp"
proof -
  note e = vd_start_effect [OF assms(4)]
  have inv: "vd_inv A d' (r # fl)" unfolding assms(5) by (rule vd_start_inv [OF assms(1,4)])
  have new: "r0 r \<notin> r0 ` set fl" using vd_inv_heads(1) [OF inv] inv by (auto simp: vd_inv_def)
  have r: "r0 r = i0" "rbuf r = b" "r \<notin> set fl" using assms(5) inv by (simp_all add: vd_inv_def)
  have sub: "set (av @ td @ cp) \<subseteq> set fl" using assms(2) by (simp only: vd_flow_def)
  have n: "length av < NUM" using vd_flow_length [OF assms(1,2)] by (simp add: NUM_def)
  have av: "last_avail v + of_nat (length av) = avail_idx d" "window (avail_ring d) (last_avail v) (map (\<lambda>r. of_nat (r0 r)) av)"
    using assms(2) by (simp_all add: vd_flow_def)
  have "window (avail_ring d') (last_avail v) (map (\<lambda>r. of_nat (r0 r)) (av @ [r]))"
    using window_push [OF av(2), of "of_nat i0"] n by (simp add: e av(1) r)
  moreover have "info_b d' (r0 q) = Some (rbuf q) \<and> (bdisk d' (rbuf q) \<longleftrightarrow> q \<in> set ((av @ [r]) @ td @ cp))" if "q \<in> set (r # fl)" for q
  proof (cases "q = r")
    case False
    then have q: "q \<in> set fl" using that by simp
    then have "r0 q \<in> r0 ` set fl" "rbuf q \<in> rbuf ` set fl" by simp_all
    then have "r0 q \<noteq> i0" "rbuf q \<noteq> b" using new r(1) assms(3) by metis+
    then show ?thesis using assms(2) q False by (auto simp: vd_flow_def e)
  qed (simp add: e r)
  moreover have "last_avail v + of_nat (length (av @ [r])) = avail_idx d'" using av(1) by (simp add: e algebra_simps)
  moreover have "inj_on rbuf (set (r # fl))" using assms(2,3) r by (auto simp: vd_flow_def)
  moreover have "distinct ((av @ [r]) @ td @ cp)" using assms(2) r(3) sub by (auto simp: vd_flow_def)
  moreover have "taken v = r0 ` set td" "used_idx d' + of_nat (length cp) = uidx v"
    "window (uring v) (used_idx d') (map (\<lambda>r. of_nat (r0 r)) cp)" using assms(2) by (simp_all add: vd_flow_def e)
  ultimately show ?thesis using sub unfolding vd_flow_def by auto
qed

lemma vd_take_flow:
  assumes "vd_inv A d fl" "vd_flow d fl v av td cp" "last_avail v \<noteq> avail_idx d"
  shows "\<exists>r rest. av = r # rest \<and> unat (avail_ring d (unat (last_avail v) mod NUM)) = r0 r \<and>
    vd_flow d fl (v\<lparr>taken := insert (r0 r) (taken v), last_avail := last_avail v + 1\<rparr>) rest (r # td) cp"
proof -
  have "av \<noteq> []" using assms(2,3) by (auto simp: vd_flow_def)
  then obtain r rest where av: "av = r # rest" by (cases av) auto
  have "r \<in> set fl" using assms(2) av by (simp add: vd_flow_def)
  then have "unat (of_nat (r0 r) :: u16) = r0 r" using vd_inv_heads(2) [OF assms(1), of r] by (simp add: NUM_def unat_of_nat)
  moreover have "avail_ring d (unat (last_avail v) mod NUM) = of_nat (r0 r)"
    "window (avail_ring d) (last_avail v + 1) (map (\<lambda>r. of_nat (r0 r)) rest)"
    using window_pop [of "avail_ring d" "last_avail v"] assms(2) av by (auto simp: vd_flow_def)
  ultimately show ?thesis using assms(2) av
    by (intro exI [of _ r] exI [of _ rest]) (auto simp: vd_flow_def algebra_simps)
qed

lemma vd_complete_flow:
  assumes "vd_inv A d fl" "vd_flow d fl v av td cp" "h \<in> taken v"
  shows "\<exists>r\<in>set td. r0 r = h \<and> vd_flow (d\<lparr>info_status := (info_status d)(h := x)\<rparr>) fl
    (v\<lparr>taken := taken v - {h}, uring := (uring v)(unat (uidx v) mod NUM := of_nat h), uidx := uidx v + 1\<rparr>)
    av (remove1 r td) (cp @ [r])"
proof -
  obtain r where r: "r \<in> set td" "r0 r = h" using assms(2,3) by (auto simp: vd_flow_def)
  have fl: "set av \<union> set td \<union> set cp \<subseteq> set fl" and d: "distinct av" "distinct td" "distinct cp"
    "set av \<inter> set td = {}" "set av \<inter> set cp = {}" "set td \<inter> set cp = {}" using assms(2) by (auto simp: vd_flow_def)
  have td: "set (remove1 r td) = set td - {r}" by (rule set_remove1_eq [OF d(2)])
  have "r0 ` (set td - {r}) = r0 ` set td - {h}"
    using inj_on_image_set_diff [OF vd_inv_heads(1) [OF assms(1)], of "set td" "{r}"] fl r by auto
  moreover have u: "used_idx d + of_nat (length cp) = uidx v" "window (uring v) (used_idx d) (map (\<lambda>r. of_nat (r0 r)) cp)"
    using assms(2) by (simp_all add: vd_flow_def)
  moreover have "window ((uring v)(unat (uidx v) mod NUM := of_nat h)) (used_idx d) (map (\<lambda>r. of_nat (r0 r)) (cp @ [r]))"
    using window_push [OF u(2), of "of_nat h"] vd_flow_length [OF assms(1,2)] u(1) r(2) by (simp add: NUM_def)
  ultimately show ?thesis
    using assms(2) r td d by (intro bexI [of _ r] conjI) (auto simp: vd_flow_def distinct_remove1 algebra_simps)
qed

lemma vd_intr_flow:
  assumes "vd_inv A d fl" "vd_flow d fl v av td cp"
  shows "virtio_disk_intr (uidx v) (uring v) d =
    (if \<forall>r\<in>set cp. info_status d (r0 r) = 0
     then Inr (map rbuf cp, d\<lparr>bdisk := \<lambda>b. bdisk d b \<and> b \<notin> rbuf ` set cp, used_idx := uidx v\<rparr>)
     else Inl (Panic ''virtio_disk_intr status''))"
    "vd_flow (d\<lparr>bdisk := \<lambda>b. bdisk d b \<and> b \<notin> rbuf ` set cp, used_idx := uidx v\<rparr>) fl v av td []"
proof -
  have f: "set (av @ td @ cp) \<subseteq> set fl" "distinct (av @ td @ cp)" "inj_on rbuf (set fl)"
    "\<forall>r\<in>set fl. info_b d (r0 r) = Some (rbuf r) \<and> (bdisk d (rbuf r) \<longleftrightarrow> r \<in> set (av @ td @ cp))"
    "taken v = r0 ` set td" "last_avail v + of_nat (length av) = avail_idx d"
    "window (avail_ring d) (last_avail v) (map (\<lambda>r. of_nat (r0 r)) av)"
    "used_idx d + of_nat (length cp) = uidx v" "window (uring v) (used_idx d) (map (\<lambda>r. of_nat (r0 r)) cp)"
    using assms(2) unfolding vd_flow_def by blast+
  have fl: "set cp \<subseteq> set fl" using f(1) by simp
  have h: "\<forall>r\<in>set cp. r0 r < NUM \<and> info_b d (r0 r) = Some (rbuf r)"
    using f(4) fl vd_inv_heads(2) [OF assms(1)] by blast
  have n: "length cp < 2 ^ 16" using vd_flow_length [OF assms] by simp
  show "virtio_disk_intr (uidx v) (uring v) d =
    (if \<forall>r\<in>set cp. info_status d (r0 r) = 0
     then Inr (map rbuf cp, d\<lparr>bdisk := \<lambda>b. bdisk d b \<and> b \<notin> rbuf ` set cp, used_idx := uidx v\<rparr>)
     else Inl (Panic ''virtio_disk_intr status''))"
    by (rule virtio_disk_intr_spec [OF f(9,8) n h])
  have "bdisk d (rbuf r) \<and> rbuf r \<notin> rbuf ` set cp \<longleftrightarrow> r \<in> set (av @ td @ [])" if r: "r \<in> set fl" for r
  proof -
    have "rbuf r \<in> rbuf ` set cp \<longleftrightarrow> r \<in> set cp" using f(3) r fl by (rule inj_on_image_mem_iff)
    moreover have "bdisk d (rbuf r) \<longleftrightarrow> r \<in> set (av @ td @ cp)" using f(4) r by blast
    ultimately show ?thesis using f(2) by auto
  qed
  moreover have "set av \<inter> set td = {}" using f(2) by auto
  ultimately show "vd_flow (d\<lparr>bdisk := \<lambda>b. bdisk d b \<and> b \<notin> rbuf ` set cp, used_idx := uidx v\<rparr>) fl v av td []"
    using f by (simp add: vd_flow_def)
qed

lemma vd_finish_inv:
  assumes "vd_inv A d (fl1 @ r # fl2)" "virtio_disk_rw_finish d (rbuf r) (r0 r) = Inr (Some d')"
  shows "vd_inv A d' (fl1 @ fl2) \<and> \<not> bdisk d (rbuf r) \<and>
    (\<exists>x f. d' = d\<lparr>info_b := (info_b d)(r0 r := None), desc := x, free := f\<rparr>)"
proof -
  let ?d = "d\<lparr>info_b := (info_b d)(r0 r := None)\<rparr>"
  have r: "r \<in> set (fl1 @ r # fl2)" by simp
  have "chain_ok A ?d r" "rset r \<subseteq> in_use ?d" using assms(1) by (auto simp: vd_inv_def chain_ok_def in_use_def)
  from free_chain_request [OF this] obtain d2 where
    f: "free_chain ?d (r0 r) = Inr d2" "in_use d2 = in_use ?d - rset r" "d2 = ?d\<lparr>desc := desc d2, free := free d2\<rparr>"
      "\<forall>i. i \<notin> rset r \<longrightarrow> desc d2 i = desc ?d i"
    by blast
  have d': "d' = d2" "\<not> bdisk d (rbuf r)" using assms(2) f(1) by (auto simp: virtio_disk_rw_finish_def split: if_splits)
  have o: "ops d2 = ops d" using arg_cong [OF f(3), of ops] by simp
  have dj: "rset r \<inter> rset q = {}" if "q \<in> set (fl1 @ fl2)" for q
    using assms(1) that by (auto simp: vd_inv_def pairwise_def)
  have "chain_ok A d' q" if "q \<in> set (fl1 @ fl2)" for q
  proof -
    have "chain_ok A d q" using assms(1) that by (auto simp: vd_inv_def)
    moreover have "r0 q \<notin> rset r" "r1 q \<notin> rset r" "r2 q \<notin> rset r" using dj [OF that] by (auto simp: rset_def)
    ultimately show ?thesis using o f(4) by (simp add: chain_ok_def d')
  qed
  moreover have "in_use d' = (\<Union>q\<in>set (fl1 @ fl2). rset q)"
    using assms(1) f(2) dj by (auto simp: vd_inv_def d' in_use_def)
  ultimately have "vd_inv A d' (fl1 @ fl2)" using assms(1) by (auto simp: vd_inv_def pairwise_def)
  then show ?thesis using d' f(3) by blast
qed

lemma vd_run_inv: "vd_run A d fl v \<Longrightarrow> vd_inv A d fl \<and> (\<exists>av td cp. vd_flow d fl v av td cp)"
proof (induction rule: vd_run.induct)
  case (vd_init R d0 s ws d s')
  then have "free d = (\<lambda>i. True)" "avail_idx d = 0" "used_idx d = 0"
    by (auto simp: virtio_disk_init_def Let_def split: if_splits prod.splits)
  then show ?case by (simp add: vd_inv_def in_use_def vd_flow_def)
next
  case (vd_start d fl v b blockno wr i0 i1 i2 d')
  then obtain av td cp where i: "vd_inv A d fl" "vd_flow d fl v av td cp" by blast
  from vd_start_inv [OF i(1) vd_start.hyps(3)] vd_start_flow [OF i vd_start.hyps(2,3) refl] show ?case by blast
next
  case (vd_sleep d fl v b blockno wr d')
  then obtain x d1 where a: "alloc3_desc d = Inr (x, d1)"
    by (auto simp: virtio_disk_rw_start_def kr_simps Let_def)
  then have "x = None" "d1 = d'"
    using vd_sleep by (auto simp: virtio_disk_rw_start_def Let_def split: option.splits)
  then have "alloc3_desc d = Inr (None, d')" using a by simp
  from alloc3_desc_spec [OF this] have d': "in_use d' = in_use d" "d' = d\<lparr>desc := desc d', free := free d'\<rparr>"
    "\<forall>i\<in>in_use d. desc d' i = desc d i" by auto
  have e: "ops d' = ops d" "info_b d' = info_b d" "bdisk d' = bdisk d" "avail_idx d' = avail_idx d" "avail_ring d' = avail_ring d"
    "used_idx d' = used_idx d" by (subst d'(2), simp)+
  show ?case using vd_sleep.IH vd_inv_cong [of A d fl d'] d'(1,3) e by (simp add: vd_flow_def)
next
  case (vd_take d fl v)
  then obtain av td cp where i: "vd_inv A d fl" "vd_flow d fl v av td cp" by blast
  from vd_take_flow [OF i vd_take.hyps(2)] obtain r rest where
    "unat (avail_ring d (unat (last_avail v) mod NUM)) = r0 r"
    "vd_flow d fl (v\<lparr>taken := insert (r0 r) (taken v), last_avail := last_avail v + 1\<rparr>) rest (r # td) cp" by blast
  then show ?case using i(1) by auto
next
  case (vd_complete d fl v h x)
  then obtain av td cp where i: "vd_inv A d fl" "vd_flow d fl v av td cp" by blast
  have "vd_inv A (d\<lparr>info_status := (info_status d)(h := x)\<rparr>) fl" using i(1) by (auto intro!: vd_inv_cong [of A d fl] simp: in_use_def)
  moreover from vd_complete_flow [OF i vd_complete.hyps(2), of x] have
    "\<exists>av td cp. vd_flow (d\<lparr>info_status := (info_status d)(h := x)\<rparr>) fl
      (v\<lparr>taken := taken v - {h}, uring := (uring v)(unat (uidx v) mod NUM := of_nat h), uidx := uidx v + 1\<rparr>) av td cp"
    by (elim bexE conjE) (intro exI)
  ultimately show ?case by (rule conjI)
next
  case (vd_intr d fl v ws d')
  then obtain av td cp where i: "vd_inv A d fl" "vd_flow d fl v av td cp" by blast
  have d': "d' = d\<lparr>bdisk := \<lambda>b. bdisk d b \<and> b \<notin> rbuf ` set cp, used_idx := uidx v\<rparr>"
    using vd_intr.hyps(2) unfolding vd_intr_flow(1) [OF i] by (simp split: if_splits)
  then have "vd_inv A d' fl" by (intro vd_inv_cong [OF i(1)]) (simp_all add: in_use_def)
  moreover have "vd_flow d' fl v av td []" unfolding d' by (rule vd_intr_flow(2) [OF i])
  ultimately show ?case by blast
next
  case (vd_finish d fl1 r fl2 v d')
  then obtain av td cp where i: "vd_inv A d (fl1 @ r # fl2)" "vd_flow d (fl1 @ r # fl2) v av td cp" by blast
  from vd_finish_inv [OF i(1) vd_finish.hyps(2)] obtain x f where
    f: "vd_inv A d' (fl1 @ fl2)" "\<not> bdisk d (rbuf r)" "d' = d\<lparr>info_b := (info_b d)(r0 r := None), desc := x, free := f\<rparr>" by blast
  have "r \<notin> set (av @ td @ cp)" using i(2) f(2) by (auto simp: vd_flow_def)
  then have "set (av @ td @ cp) \<subseteq> set (fl1 @ fl2)" using i(2) by (auto simp: vd_flow_def)
  moreover have "r0 q \<noteq> r0 r" if "q \<in> set (fl1 @ fl2)" for q
    using vd_inv_heads(1) [OF i(1)] i(1) that by (auto simp: inj_on_def vd_inv_def)
  ultimately have "vd_flow d' (fl1 @ fl2) v av td cp" using i(2) by (auto simp: vd_flow_def f(3) inj_on_def)
  then show ?case using f(1) by blast
qed

lemma vd_start_total:
  "\<exists>x d'. virtio_disk_rw_start A d b blockno wr = Inr (x, d') \<and> (x = None \<longrightarrow> NUM - 3 < card (in_use d))"
  using alloc3_desc_spec [OF refl, of d] by (auto simp: virtio_disk_rw_start_def Let_def)

lemma vd_finish_total:
  assumes "vd_inv A d fl" "r \<in> set fl"
  shows "\<exists>x. virtio_disk_rw_finish d (rbuf r) (r0 r) = Inr x \<and> (x = None \<longleftrightarrow> bdisk d (rbuf r))"
proof -
  let ?d = "d\<lparr>info_b := (info_b d)(r0 r := None)\<rparr>"
  have "chain_ok A ?d r" "rset r \<subseteq> in_use ?d" using assms by (auto simp: vd_inv_def chain_ok_def in_use_def)
  from free_chain_request [OF this] show ?thesis by (auto simp: virtio_disk_rw_finish_def)
qed

section \<open>Properties\<close>

text \<open>
  C8. In every history of the driver and the device the requests in flight have disjoint chains of
  three descriptors that still hold what virtio_disk_rw wrote, header, data and status in this order,
  and a descriptor is free exactly when no request uses it. Starting a request never panics and waits
  only if fewer than three descriptors are free; finishing one never panics and waits only while the
  device owns its buffer. No request is lost or handed over twice: those whose buffers the device owns
  are av, td and cp, with the heads of av in the avail ring in front of the device, those of td with
  the device, and those of cp in the used ring. The interrupt handler gives back the buffers of cp,
  in this order, and panics exactly if the status of one of them is not zero.
\<close>

theorem virtio_requests_safe:
  assumes "vd_run A d fl v"
  shows "(\<forall>r\<in>set fl. chain_ok A d r) \<and> pairwise (\<lambda>r r'. rset r \<inter> rset r' = {}) (set fl) \<and>
    (\<forall>i<NUM. free d i \<longleftrightarrow> (\<forall>r\<in>set fl. i \<notin> rset r)) \<and>
    (\<forall>b blockno wr. \<exists>x d'. virtio_disk_rw_start A d b blockno wr = Inr (x, d') \<and>
       (x = None \<longrightarrow> card {i. i < NUM \<and> free d i} < 3)) \<and>
    (\<forall>r\<in>set fl. \<exists>x. virtio_disk_rw_finish d (rbuf r) (r0 r) = Inr x \<and> (x = None \<longleftrightarrow> bdisk d (rbuf r))) \<and>
    (\<exists>av td cp. distinct (av @ td @ cp) \<and> set (av @ td @ cp) = {r \<in> set fl. bdisk d (rbuf r)} \<and>
       map (\<lambda>k. avail_ring d (unat (last_avail v + of_nat k) mod NUM)) [0..<unat (avail_idx d - last_avail v)] = map (\<lambda>r. of_nat (r0 r)) av \<and>
       taken v = r0 ` set td \<and>
       map (\<lambda>k. uring v (unat (used_idx d + of_nat k) mod NUM)) [0..<unat (uidx v - used_idx d)] = map (\<lambda>r. of_nat (r0 r)) cp \<and>
       virtio_disk_intr (uidx v) (uring v) d =
         (if \<forall>r\<in>set cp. info_status d (r0 r) = 0
          then Inr (map rbuf cp, d\<lparr>bdisk := \<lambda>b. bdisk d b \<and> b \<notin> rbuf ` set cp, used_idx := uidx v\<rparr>)
          else Inl (Panic ''virtio_disk_intr status'')))"
proof -
  obtain av td cp where inv: "vd_inv A d fl" and flow: "vd_flow d fl v av td cp" using vd_run_inv [OF assms] by blast
  have fr: "\<forall>i<NUM. free d i \<longleftrightarrow> (\<forall>r\<in>set fl. i \<notin> rset r)" using inv by (auto simp: vd_inv_def in_use_def set_eq_iff)
  have "{i. i < NUM \<and> free d i} = {..<NUM} - in_use d" by (auto simp: in_use_def)
  then have "card {i. i < NUM \<and> free d i} = NUM - card (in_use d)"
    by (simp add: card_Diff_subset in_use_def subset_eq)
  then have start: "\<forall>b blockno wr. \<exists>x d'. virtio_disk_rw_start A d b blockno wr = Inr (x, d') \<and>
       (x = None \<longrightarrow> card {i. i < NUM \<and> free d i} < 3)"
    using vd_start_total [of A d] by (fastforce simp: NUM_def)
  have w: "map (\<lambda>k. avail_ring d (unat (last_avail v + of_nat k) mod NUM)) [0..<unat (avail_idx d - last_avail v)] = map (\<lambda>r. of_nat (r0 r)) av"
    "map (\<lambda>k. uring v (unat (used_idx d + of_nat k) mod NUM)) [0..<unat (uidx v - used_idx d)] = map (\<lambda>r. of_nat (r0 r)) cp"
    using flow vd_flow_length [OF inv flow] by (auto simp: vd_flow_def intro!: window_map)
  have f: "distinct (av @ td @ cp)" "set (av @ td @ cp) = {r \<in> set fl. bdisk d (rbuf r)}" "taken v = r0 ` set td"
    using flow unfolding vd_flow_def by blast+
  have c: "\<forall>r\<in>set fl. chain_ok A d r" "pairwise (\<lambda>r r'. rset r \<inter> rset r' = {}) (set fl)" using inv by (simp_all add: vd_inv_def)
  have fin: "\<forall>r\<in>set fl. \<exists>x. virtio_disk_rw_finish d (rbuf r) (r0 r) = Inr x \<and> (x = None \<longleftrightarrow> bdisk d (rbuf r))"
    using vd_finish_total [OF inv] by blast
  note flow_facts = f(1,2) w(1) f(3) w(2) vd_intr_flow(1) [OF inv flow]
  show ?thesis by (intro conjI exI [of _ av] exI [of _ td] exI [of _ cp]) (rule c fr start fin flow_facts)+
qed

definition sample_regs :: "reg \<Rightarrow> u32" where
  "sample_regs r = (case r of MAGIC_VALUE \<Rightarrow> 0x74726976 | VERSION \<Rightarrow> 2 | DEVICE_ID \<Rightarrow> 2 | VENDOR_ID \<Rightarrow> 0x554d4551
     | STATUS \<Rightarrow> 11 | QUEUE_NUM_MAX \<Rightarrow> 1024 | _ \<Rightarrow> 0)"

definition sample_disk :: disk where
  "sample_disk = \<lparr>desc = \<lambda>i. no_desc, avail_idx = 0, avail_ring = \<lambda>i. 0, free = \<lambda>i. True, used_idx = 0,
     info_b = \<lambda>i. None, info_status = \<lambda>i. 0, ops = \<lambda>i. \<lparr>rtype = 0, reserved = 0, sector = 0\<rparr>, bdisk = \<lambda>b. False\<rparr>"

definition sample_addrs :: addresses where
  "sample_addrs = \<lparr>data_addr = \<lambda>b. 0x80010000, ops_addr = \<lambda>i. 0x80020000, status_addr = \<lambda>i. 0x80030000\<rparr>"

definition sample_dev0 :: vdev where
  "sample_dev0 = \<lparr>last_avail = 0, taken = {}, uidx = 0, uring = \<lambda>i. 0\<rparr>"

lemma sample_vd_run: "vd_run sample_addrs sample_disk [] sample_dev0"
proof -
  obtain s1 where s1: "kalloc sample_kmem = (0x87FFF000, s1)" "kmem_inv s1 (tl sample_pages)"
    using kalloc_cons [of sample_kmem "0x87FFF000" "tl sample_pages"] sample_kmem(3) by (auto simp: sample_pages_def)
  obtain s2 where s2: "kalloc s1 = (0x87FFE000, s2)" "kmem_inv s2 (tl (tl sample_pages))"
    using kalloc_cons [of s1 "0x87FFE000" "tl (tl sample_pages)"] s1(2) by (auto simp: sample_pages_def)
  obtain s3 where s3: "kalloc s2 = (0x87FFD000, s3)"
    using kalloc_cons [of s2 "0x87FFD000" "tl (tl (tl sample_pages))"] s2(2) by (auto simp: sample_pages_def)
  obtain ws s' where "virtio_disk_init sample_regs sample_disk sample_kmem = Inr (ws, sample_disk, s')"
    by (simp add: virtio_disk_init_def sample_regs_def s1 s2 s3 NUM_def Let_def sample_disk_def)
  then show ?thesis unfolding sample_dev0_def by (rule vd_init) (simp add: sample_disk_def)
qed

text \<open>A write request: the device takes it off the ring and completes it, and the interrupt gives it back.\<close>

theorem virtio_requests_safe_witness:
  "\<exists>d v d'. vd_run sample_addrs d [\<lparr>r0 = 0, r1 = 1, r2 = 2, rbuf = 5, rblock = 46, rwrite = True\<rparr>] v \<and>
     chain_ok sample_addrs d \<lparr>r0 = 0, r1 = 1, r2 = 2, rbuf = 5, rblock = 46, rwrite = True\<rparr> \<and> \<not> free d 0 \<and> free d 3 \<and>
     virtio_disk_intr (uidx v) (uring v) d = Inr ([5], d') \<and> \<not> bdisk d' 5"
proof -
  let ?r = "\<lparr>r0 = 0, r1 = 1, r2 = 2, rbuf = 5, rblock = 46, rwrite = True\<rparr>"
  have "[0..<NUM] = [0, 1, 2, 3, 4, 5, 6, 7]" by (simp add: NUM_def upt_rec)
  then obtain d where d: "virtio_disk_rw_start sample_addrs sample_disk 5 46 True = Inr (Some (0, 1, 2), d)"
    by (simp add: virtio_disk_rw_start_def alloc3_desc_def alloc_desc_def sample_disk_def Let_def)
  have r1: "vd_run sample_addrs d [?r] sample_dev0" by (rule vd_start [OF sample_vd_run _ d]) simp
  note e = vd_start_effect [OF d]
  have s: "avail_idx d = 1" "avail_ring d 0 = 0" "used_idx d = 0" "bdisk d 5" by (simp_all add: e sample_disk_def)
  define v1 where "v1 = \<lparr>last_avail = 1, taken = {0}, uidx = 0, uring = \<lambda>i. 0\<rparr>"
  have r2: "vd_run sample_addrs d [?r] v1" using vd_take [OF r1] s by (simp add: sample_dev0_def v1_def)
  define d2 where "d2 = d\<lparr>info_status := (info_status d)(0 := 0)\<rparr>"
  define v2 where "v2 = \<lparr>last_avail = 1, taken = {}, uidx = 1, uring = (\<lambda>i. 0)(0 := 0)\<rparr>"
  have r3: "vd_run sample_addrs d2 [?r] v2" using vd_complete [OF r2, of 0 0] by (simp add: v1_def v2_def d2_def)
  note safe = virtio_requests_safe [OF r3]
  have "free d2 i \<longleftrightarrow> i \<notin> {0, 1, 2}" if "i < NUM" for i
    using safe [THEN conjunct2, THEN conjunct2, THEN conjunct1] that by (simp add: rset_def)
  from this [of 0] this [of 3] have f: "\<not> free d2 0" "free d2 3" by (simp_all add: NUM_def)
  have w: "last_avail v2 = 1" "avail_idx d2 = 1" "taken v2 = {}" "used_idx d2 = 0" "uidx v2 = 1" "info_status d2 0 = 0"
    using s by (simp_all add: v2_def d2_def)
  from safe [THEN conjunct2, THEN conjunct2, THEN conjunct2, THEN conjunct2, THEN conjunct2] obtain av td cp where c: "set (av @ td @ cp) = {r \<in> set [?r]. bdisk d2 (rbuf r)}"
    "map (\<lambda>k. avail_ring d2 (unat (last_avail v2 + of_nat k) mod NUM)) [0..<unat (avail_idx d2 - last_avail v2)] = map (\<lambda>r. of_nat (r0 r)) av"
    "taken v2 = r0 ` set td"
    "map (\<lambda>k. uring v2 (unat (used_idx d2 + of_nat k) mod NUM)) [0..<unat (uidx v2 - used_idx d2)] = map (\<lambda>r. of_nat (r0 r)) cp"
    "virtio_disk_intr (uidx v2) (uring v2) d2 =
         (if \<forall>r\<in>set cp. info_status d2 (r0 r) = 0
          then Inr (map rbuf cp, d2\<lparr>bdisk := \<lambda>b. bdisk d2 b \<and> b \<notin> rbuf ` set cp, used_idx := uidx v2\<rparr>)
          else Inl (Panic ''virtio_disk_intr status''))" by (elim exE conjE) (rule that)
  have "av = []" "td = []" using c(2,3) by (simp_all add: w)
  then have "set cp \<subseteq> {?r}" using c(1) by auto
  moreover have "length cp = 1" using arg_cong [OF c(4), of length] by (simp add: w)
  ultimately have cp: "cp = [?r]" by (cases cp) auto
  have "chain_ok sample_addrs d2 ?r" using safe [THEN conjunct1] by simp
  moreover have "virtio_disk_intr (uidx v2) (uring v2) d2 =
      Inr ([5], d2\<lparr>bdisk := \<lambda>b. bdisk d2 b \<and> b \<notin> rbuf ` set cp, used_idx := uidx v2\<rparr>)" (is "_ = Inr (_, ?d')")
    unfolding c(5) by (simp add: cp w(6))
  moreover have "\<not> bdisk ?d' 5" by (simp add: cp)
  ultimately show ?thesis using r3 f by blast
qed

end
