(* ===== verification/Xv6_Bytes.thy ===== *)
theory Xv6_Bytes
  imports Xv6_Prelude
begin

text \<open>
  Little-endian integers inside a block of bytes, as the casts of bp->data in log.c and fs.c read and
  write them. Fields at disjoint places do not affect each other.
\<close>

definition get16 :: "byte list \<Rightarrow> nat \<Rightarrow> u16" where
  "get16 d i = ucast (d ! i) OR push_bit 8 (ucast (d ! (i + 1)))"

definition put16 :: "byte list \<Rightarrow> nat \<Rightarrow> u16 \<Rightarrow> byte list" where
  "put16 d i v = d[i := ucast v, i + 1 := ucast (drop_bit 8 v)]"

definition get32 :: "byte list \<Rightarrow> nat \<Rightarrow> u32" where
  "get32 d i =
     ucast (d ! i) OR push_bit 8 (ucast (d ! (i + 1))) OR push_bit 16 (ucast (d ! (i + 2))) OR
     push_bit 24 (ucast (d ! (i + 3)))"

definition put32 :: "byte list \<Rightarrow> nat \<Rightarrow> u32 \<Rightarrow> byte list" where
  "put32 d i v =
     d[i := ucast v, i + 1 := ucast (drop_bit 8 v), i + 2 := ucast (drop_bit 16 v),
       i + 3 := ucast (drop_bit 24 v)]"

lemma length_put [simp]: "length (put16 d i v) = length d" "length (put32 d i w) = length d"
  by (simp_all add: put16_def put32_def)

lemma bytes_of_word16:
  fixes v :: u16
  shows "ucast (ucast v :: byte) OR push_bit 8 (ucast (ucast (drop_bit 8 v) :: byte)) = v" (is "?l = v")
proof (rule bit_word_eqI)
  fix n :: nat
  assume "n < LENGTH(16)"
  then consider "n < 8" | "8 \<le> n" "n < 16" by fastforce
  then show "bit ?l n \<longleftrightarrow> bit v n"
    by cases (auto simp add: bit_or_iff bit_push_bit_iff bit_unsigned_iff bit_drop_bit_eq less_diff_conv2)
qed

lemma bytes_of_word32:
  fixes v :: u32
  shows "ucast (ucast v :: byte) OR push_bit 8 (ucast (ucast (drop_bit 8 v) :: byte)) OR
     push_bit 16 (ucast (ucast (drop_bit 16 v) :: byte)) OR
     push_bit 24 (ucast (ucast (drop_bit 24 v) :: byte)) = v" (is "?l = v")
proof (rule bit_word_eqI)
  fix n :: nat
  assume "n < LENGTH(32)"
  then consider "n < 8" | "8 \<le> n" "n < 16" | "16 \<le> n" "n < 24" | "24 \<le> n" "n < 32" by fastforce
  then show "bit ?l n \<longleftrightarrow> bit v n"
    by cases (auto simp add: bit_or_iff bit_push_bit_iff bit_unsigned_iff bit_drop_bit_eq less_diff_conv2)
qed

lemma get16_put16 [simp]: "i + 2 \<le> length d \<Longrightarrow> get16 (put16 d i v) i = v"
  by (simp add: get16_def put16_def bytes_of_word16)

lemma get32_put32 [simp]: "i + 4 \<le> length d \<Longrightarrow> get32 (put32 d i v) i = v"
  by (simp add: get32_def put32_def nth_list_update bytes_of_word32)

lemma put32_nth: "j < i \<or> i + 4 \<le> j \<Longrightarrow> put32 d i v ! j = d ! j"
  by (auto simp: put32_def)

lemma put16_nth: "j < i \<or> i + 2 \<le> j \<Longrightarrow> put16 d i v ! j = d ! j"
  by (auto simp: put16_def)

lemma get32_put32_other: "j + 4 \<le> i \<or> i + 4 \<le> j \<Longrightarrow> get32 (put32 d i v) j = get32 d j"
  by (auto simp: get32_def put32_nth)

lemma get32_put16_other: "j + 4 \<le> i \<or> i + 2 \<le> j \<Longrightarrow> get32 (put16 d i v) j = get32 d j"
  by (auto simp: get32_def put16_nth)

lemma get16_put32_other: "j + 2 \<le> i \<or> i + 4 \<le> j \<Longrightarrow> get16 (put32 d i v) j = get16 d j"
  by (auto simp: get16_def put32_nth)

lemma get16_put16_other: "j + 2 \<le> i \<or> i + 2 \<le> j \<Longrightarrow> get16 (put16 d i v) j = get16 d j"
  by (auto simp: get16_def put16_nth)

text \<open>An array of 32-bit words in a block.\<close>

primrec put_words :: "byte list \<Rightarrow> nat \<Rightarrow> u32 list \<Rightarrow> byte list" where
  "put_words d i [] = d"
| "put_words d i (w # ws) = put_words (put32 d i w) (i + 4) ws"

definition get_words :: "byte list \<Rightarrow> nat \<Rightarrow> nat \<Rightarrow> u32 list" where
  "get_words d i n = map (\<lambda>k. get32 d (i + 4 * k)) [0..<n]"

lemma length_put_words [simp]: "length (put_words d i ws) = length d"
  by (induction ws arbitrary: d i) auto

lemma get32_put_words_other: "j + 4 \<le> i \<Longrightarrow> get32 (put_words d i ws) j = get32 d j"
  by (induction ws arbitrary: d i) (auto simp: get32_put32_other)

lemma get_words_put_words: "i + 4 * length ws \<le> length d \<Longrightarrow> get_words (put_words d i ws) i (length ws) = ws"
proof (induction ws arbitrary: d i)
  case (Cons w ws)
  have "get_words (put_words (put32 d i w) (i + 4) ws) (i + 4) (length ws) = ws"
    using Cons.prems by (intro Cons.IH) simp
  moreover have "get32 (put_words (put32 d i w) (i + 4) ws) i = w"
    using Cons.prems by (simp add: get32_put_words_other)
  ultimately show ?case
    by (simp add: get_words_def upt_conv_Cons map_Suc_upt [symmetric] algebra_simps comp_def del: upt_Suc)
qed (simp add: get_words_def)

end
