(* ===== verification/Xv6_Lock.thy ===== *)
theory Xv6_Lock
  imports Xv6_Prelude
begin

text \<open>
  Spin locks (spinlock.c) and sleep locks (sleeplock.c). Acquire and release of a spin lock are cut
  at the points where another CPU can interfere: the interrupt bookkeeping and the check, the atomic
  swap, the recording of the owner, the clearing of the owner, the atomic clear, and the final
  pop_off. A step relation interleaves these pieces over any number of CPUs. A critical section of a
  sleep lock runs under its spin lock and is one function.
\<close>

section \<open>Interrupt bookkeeping\<close>

record cpu =
  noff :: int
  intena :: bool
  intr :: bool

definition push_off :: "cpu \<Rightarrow> cpu" where
  "push_off c =
     (let old = intr c; c1 = c\<lparr>intr := False\<rparr>;
          c2 = (if noff c1 = 0 then c1\<lparr>intena := old\<rparr> else c1)
      in c2\<lparr>noff := noff c2 + 1\<rparr>)"

definition pop_off :: "cpu \<Rightarrow> cpu kr" where
  "pop_off c =
     (if intr c then Inl (Panic ''pop_off - interruptible'')
      else if noff c < 1 then Inl (Panic ''pop_off'')
      else let c1 = c\<lparr>noff := noff c - 1\<rparr> in
           Inr (if noff c1 = 0 \<and> intena c1 then c1\<lparr>intr := True\<rparr> else c1))"

text \<open>A CPU running a sequence of the two, and the sequences in which they match.\<close>

datatype off_op = Push | Pop

fun run_offs :: "off_op list \<Rightarrow> cpu \<Rightarrow> cpu kr" where
  "run_offs [] c = Inr c"
| "run_offs (Push # ops) c = run_offs ops (push_off c)"
| "run_offs (Pop # ops) c = kbind (pop_off c) (run_offs ops)"

inductive matched :: "off_op list \<Rightarrow> bool" where
  mt_nil: "matched []"
| mt_pair: "matched xs \<Longrightarrow> matched ys \<Longrightarrow> matched (Push # xs @ Pop # ys)"

section \<open>Spin locks\<close>

record spinlock =
  locked :: bool
  lcpu :: "nat option"

definition initlock :: spinlock where
  "initlock = \<lparr>locked = False, lcpu = None\<rparr>"

definition holding :: "nat \<Rightarrow> spinlock \<Rightarrow> bool" where
  "holding i lk = (locked lk \<and> lcpu lk = Some i)"

text \<open>acquire up to its loop, one turn of the loop, and what follows it.\<close>

definition acquire_enter :: "nat \<Rightarrow> spinlock \<Rightarrow> cpu \<Rightarrow> cpu kr" where
  "acquire_enter i lk c =
     (let c1 = push_off c in if holding i lk then Inl (Panic ''acquire'') else Inr c1)"

definition test_and_set :: "spinlock \<Rightarrow> bool \<times> spinlock" where
  "test_and_set lk = (locked lk, lk\<lparr>locked := True\<rparr>)"

definition acquire_own :: "nat \<Rightarrow> spinlock \<Rightarrow> spinlock" where
  "acquire_own i lk = lk\<lparr>lcpu := Some i\<rparr>"

definition release_enter :: "nat \<Rightarrow> spinlock \<Rightarrow> spinlock kr" where
  "release_enter i lk =
     (if \<not> holding i lk then Inl (Panic ''release'') else Inr (lk\<lparr>lcpu := None\<rparr>))"

definition release_unlock :: "spinlock \<Rightarrow> spinlock" where
  "release_unlock lk = lk\<lparr>locked := False\<rparr>"

text \<open>
  The CPUs around one lock. Outside a CPU may have any interrupt state of its own; Dead is a CPU that
  panicked.
\<close>

datatype phase = Outside | Spinning | Swapped | Inside | Leaving | Unlocked | Dead

record spin_sys =
  lk :: spinlock
  cpus :: "nat \<Rightarrow> cpu"
  pc :: "nat \<Rightarrow> phase"

inductive spin_step :: "spin_sys \<Rightarrow> spin_sys \<Rightarrow> bool" where
  sp_enter: "pc s i = Outside \<Longrightarrow> acquire_enter i (lk s) (cpus s i) = Inr c \<Longrightarrow>
    spin_step s (s\<lparr>cpus := (cpus s)(i := c), pc := (pc s)(i := Spinning)\<rparr>)"
| sp_panic: "pc s i = Outside \<Longrightarrow> acquire_enter i (lk s) (cpus s i) = Inl e \<Longrightarrow>
    spin_step s (s\<lparr>pc := (pc s)(i := Dead)\<rparr>)"
| sp_swap: "pc s i = Spinning \<Longrightarrow> test_and_set (lk s) = (old, l) \<Longrightarrow>
    spin_step s (s\<lparr>lk := l, pc := (pc s)(i := if old then Spinning else Swapped)\<rparr>)"
| sp_own: "pc s i = Swapped \<Longrightarrow>
    spin_step s (s\<lparr>lk := acquire_own i (lk s), pc := (pc s)(i := Inside)\<rparr>)"
| sp_leave: "pc s i = Inside \<Longrightarrow> release_enter i (lk s) = Inr l \<Longrightarrow>
    spin_step s (s\<lparr>lk := l, pc := (pc s)(i := Leaving)\<rparr>)"
| sp_leave_panic: "pc s i = Inside \<Longrightarrow> release_enter i (lk s) = Inl e \<Longrightarrow>
    spin_step s (s\<lparr>pc := (pc s)(i := Dead)\<rparr>)"
| sp_unlock: "pc s i = Leaving \<Longrightarrow>
    spin_step s (s\<lparr>lk := release_unlock (lk s), pc := (pc s)(i := Unlocked)\<rparr>)"
| sp_out: "pc s i = Unlocked \<Longrightarrow> pop_off (cpus s i) = Inr c \<Longrightarrow>
    spin_step s (s\<lparr>cpus := (cpus s)(i := c), pc := (pc s)(i := Outside)\<rparr>)"
| sp_out_panic: "pc s i = Unlocked \<Longrightarrow> pop_off (cpus s i) = Inl e \<Longrightarrow>
    spin_step s (s\<lparr>pc := (pc s)(i := Dead)\<rparr>)"

text \<open>Outside the lock, a CPU's interrupt bookkeeping is in order.\<close>

definition cpu_ok :: "cpu \<Rightarrow> bool" where
  "cpu_ok c \<longleftrightarrow> 0 \<le> noff c \<and> (0 < noff c \<longrightarrow> \<not> intr c)"

inductive spin_reach :: "spin_sys \<Rightarrow> bool" where
  sr_init: "lk s = initlock \<Longrightarrow> (\<And>i. pc s i = Outside) \<Longrightarrow> (\<And>i. cpu_ok (cpus s i)) \<Longrightarrow> spin_reach s"
| sr_step: "spin_reach s \<Longrightarrow> spin_step s s' \<Longrightarrow> spin_reach s'"

section \<open>Sleep locks\<close>

record sleeplock =
  slocked :: bool
  spid :: int

definition initsleeplock :: sleeplock where
  "initsleeplock = \<lparr>slocked = False, spid = 0\<rparr>"

text \<open>None: the caller goes to sleep on the lock.\<close>

definition acquiresleep :: "int \<Rightarrow> sleeplock \<Rightarrow> sleeplock option" where
  "acquiresleep pid l = (if slocked l then None else Some (l\<lparr>slocked := True, spid := pid\<rparr>))"

text \<open>releasesleep takes the address of the lock, and returns the channels it calls wakeup on.\<close>

definition releasesleep :: "'a \<Rightarrow> sleeplock \<Rightarrow> sleeplock \<times> 'a list" where
  "releasesleep a l = (l\<lparr>slocked := False, spid := 0\<rparr>, [a])"

definition holdingsleep :: "int \<Rightarrow> sleeplock \<Rightarrow> bool" where
  "holdingsleep pid l = (slocked l \<and> spid l = pid)"

text \<open>
  A history of the sleep lock at address a: who is inside, and which process sleeps on which channel.
  A process that is awake tries the lock, and sleeps on its address when it is taken. Processes may
  sleep on other channels, and a sleeping process may be woken for other reasons (kill). A process
  releases only what it holds, and wakes whoever sleeps on the channels releasesleep names.
\<close>

inductive sleep_reach :: "'a \<Rightarrow> sleeplock \<Rightarrow> int list \<Rightarrow> (int \<times> 'a) set \<Rightarrow> bool" where
  sl_init: "sleep_reach a initsleeplock [] {}"
| sl_get: "sleep_reach a l hs ws \<Longrightarrow> p \<notin> fst ` ws \<Longrightarrow> acquiresleep p l = Some l' \<Longrightarrow> sleep_reach a l' (p # hs) ws"
| sl_wait: "sleep_reach a l hs ws \<Longrightarrow> p \<notin> fst ` ws \<Longrightarrow> acquiresleep p l = None \<Longrightarrow>
    sleep_reach a l hs (insert (p, a) ws)"
| sl_other: "sleep_reach a l hs ws \<Longrightarrow> p \<notin> fst ` ws \<Longrightarrow> ch \<noteq> a \<Longrightarrow> sleep_reach a l hs (insert (p, ch) ws)"
| sl_wake: "sleep_reach a l hs ws \<Longrightarrow> sleep_reach a l hs (ws - {w})"
| sl_release: "sleep_reach a l hs ws \<Longrightarrow> p \<notin> fst ` ws \<Longrightarrow> holdingsleep p l \<Longrightarrow> releasesleep a l = (l', chs) \<Longrightarrow>
    sleep_reach a l' (remove1 p hs) {w \<in> ws. snd w \<notin> set chs}"

section \<open>Invariants\<close>

definition owns :: "phase \<Rightarrow> bool" where
  "owns p \<longleftrightarrow> p \<in> {Swapped, Inside, Leaving}"

definition spin_inv :: "nat option \<Rightarrow> spin_sys \<Rightarrow> bool" where
  "spin_inv own s \<longleftrightarrow> (locked (lk s) \<longleftrightarrow> own \<noteq> None) \<and>
     (\<forall>i. pc s i \<noteq> Dead \<and> (owns (pc s i) \<longleftrightarrow> own = Some i) \<and> (lcpu (lk s) = Some i \<longleftrightarrow> pc s i = Inside) \<and>
        cpu_ok (cpus s i) \<and> (pc s i \<noteq> Outside \<longrightarrow> 0 < noff (cpus s i)))"

lemma push_off_ok: "cpu_ok c \<Longrightarrow> cpu_ok (push_off c) \<and> 0 < noff (push_off c)"
  by (auto simp: push_off_def cpu_ok_def Let_def)

lemma pop_off_ok: "cpu_ok c \<Longrightarrow> 0 < noff c \<Longrightarrow> \<exists>c'. pop_off c = Inr c' \<and> cpu_ok c'"
  by (auto simp: pop_off_def cpu_ok_def Let_def)

lemma push_off_simps:
  "noff (push_off c) = noff c + 1" "\<not> intr (push_off c)" "intena (push_off c) = (if noff c = 0 then intr c else intena c)"
  by (simp_all add: push_off_def Let_def)

lemma run_offs_append: "run_offs (xs @ ys) c = kbind (run_offs xs c) (run_offs ys)"
proof (induction xs c rule: run_offs.induct)
  case (3 ops c)
  then show ?case by (cases "pop_off c") simp_all
qed simp_all

text \<open>The depth counts the calls of push_off that are not undone, and interrupts are off above zero.\<close>

lemma run_offs_depth:
  assumes "run_offs ops c = Inr d" "cpu_ok c"
  shows "cpu_ok d \<and> noff d = noff c + int (count_list ops Push) - int (count_list ops Pop)"
  using assms
proof (induction ops c rule: run_offs.induct)
  case (2 ops c)
  then show ?case using push_off_ok [of c] by (simp add: push_off_simps)
next
  case (3 ops c)
  then obtain c1 where c1: "pop_off c = Inr c1" by (cases "pop_off c") simp_all
  then have "0 < noff c" "noff c1 = noff c - 1" by (auto simp: pop_off_def Let_def split: if_splits)
  then show ?case using 3 c1 pop_off_ok [of c] by simp
qed simp

lemma run_offs_matched:
  assumes "matched ops" "cpu_ok c"
  shows "\<exists>c'. run_offs ops c = Inr c' \<and> noff c' = noff c \<and> intr c' = intr c \<and> (0 < noff c \<longrightarrow> intena c' = intena c)"
  using assms
proof (induction arbitrary: c rule: matched.induct)
  case (mt_pair xs ys)
  obtain c1 where c1: "run_offs xs (push_off c) = Inr c1" "noff c1 = noff c + 1" "\<not> intr c1" "intena c1 = intena (push_off c)"
    using mt_pair.IH(1) [of "push_off c"] push_off_ok [OF mt_pair.prems] by (auto simp: push_off_simps)
  obtain c2 where c2: "pop_off c1 = Inr c2" "noff c2 = noff c" "intr c2 = intr c" "0 < noff c \<longrightarrow> intena c2 = intena c"
    using c1(2-4) mt_pair.prems by (auto simp: pop_off_def push_off_simps cpu_ok_def Let_def)
  then show ?case using mt_pair.IH(2) [of c2] mt_pair.prems c1(1) by (auto simp: run_offs_append cpu_ok_def)
qed simp

lemma spin_inv_update:
  assumes "spin_inv own s" "cpus s' = (cpus s)(i := c)" "pc s' = (pc s)(i := p)" "p \<noteq> Dead"
    "locked (lk s') \<longleftrightarrow> own' \<noteq> None" "owns p \<longleftrightarrow> own' = Some i" "lcpu (lk s') = Some i \<longleftrightarrow> p = Inside"
    "\<And>j. j \<noteq> i \<Longrightarrow> own' = Some j \<longleftrightarrow> own = Some j" "\<And>j. j \<noteq> i \<Longrightarrow> lcpu (lk s') = Some j \<longleftrightarrow> lcpu (lk s) = Some j"
    "cpu_ok c" "p \<noteq> Outside \<Longrightarrow> 0 < noff c"
  shows "\<exists>own'. spin_inv own' s'"
proof (intro exI [of _ own'])
  have "pc s' j \<noteq> Dead \<and> (owns (pc s' j) \<longleftrightarrow> own' = Some j) \<and> (lcpu (lk s') = Some j \<longleftrightarrow> pc s' j = Inside) \<and>
      cpu_ok (cpus s' j) \<and> (pc s' j \<noteq> Outside \<longrightarrow> 0 < noff (cpus s' j))" for j
    using assms by (cases "j = i") (simp_all add: spin_inv_def)
  then show "spin_inv own' s'" using assms(5) by (simp add: spin_inv_def)
qed

lemma spin_step_inv:
  assumes "spin_inv own s" "spin_step s s'"
  shows "\<exists>own'. spin_inv own' s'"
proof -
  have at: "pc s i \<noteq> Dead" "owns (pc s i) \<longleftrightarrow> own = Some i" "lcpu (lk s) = Some i \<longleftrightarrow> pc s i = Inside"
      "cpu_ok (cpus s i)" "pc s i \<noteq> Outside \<Longrightarrow> 0 < noff (cpus s i)" for i
    using assms(1) by (simp_all add: spin_inv_def)
  have lo: "locked (lk s) \<longleftrightarrow> own \<noteq> None" using assms(1) by (simp add: spin_inv_def)
  show ?thesis
    using assms(2)
  proof (cases rule: spin_step.cases)
    case (sp_enter i c)
    then have c: "c = push_off (cpus s i)" by (auto simp: acquire_enter_def Let_def split: if_splits)
    show ?thesis
      by (rule spin_inv_update [OF assms(1), of s' i c Spinning own])
        (use sp_enter c push_off_ok [OF at(4)] at [of i] lo in \<open>simp_all add: owns_def\<close>)
  next
    case (sp_panic i e)
    then show ?thesis using at(3) [of i] by (auto simp: acquire_enter_def holding_def Let_def split: if_splits)
  next
    case (sp_swap i old l)
    then have o: "old = locked (lk s)" "l = (lk s)\<lparr>locked := True\<rparr>" by (auto simp: test_and_set_def)
    show ?thesis
      by (rule spin_inv_update [OF assms(1), of s' i "cpus s i" "if old then Spinning else Swapped" "if old then own else Some i"])
        (use sp_swap o at [of i] lo in \<open>simp_all add: owns_def\<close>)
  next
    case (sp_own i)
    have "lcpu (lk s) \<noteq> Some j" if "j \<noteq> i" for j using sp_own that at(2) [of i] at(2,3) [of j] by (auto simp: owns_def)
    then show ?thesis
      by (intro spin_inv_update [OF assms(1), of s' i "cpus s i" Inside own])
        (use sp_own at [of i] lo in \<open>simp_all add: owns_def acquire_own_def\<close>)
  next
    case (sp_leave i l)
    then have l: "l = (lk s)\<lparr>lcpu := None\<rparr>" by (auto simp: release_enter_def split: if_splits)
    have "lcpu (lk s) \<noteq> Some j" if "j \<noteq> i" for j using sp_leave that at(3) [of i] by auto
    then show ?thesis
      by (intro spin_inv_update [OF assms(1), of s' i "cpus s i" Leaving own])
        (use sp_leave l at [of i] lo in \<open>simp_all add: owns_def\<close>)
  next
    case (sp_leave_panic i e)
    then have "locked (lk s)" "lcpu (lk s) = Some i" using at [of i] lo by (auto simp: owns_def)
    then show ?thesis using sp_leave_panic by (auto simp: release_enter_def holding_def)
  next
    case (sp_unlock i)
    show ?thesis
      by (rule spin_inv_update [OF assms(1), of s' i "cpus s i" Unlocked None])
        (use sp_unlock at [of i] lo in \<open>auto simp: owns_def release_unlock_def\<close>)
  next
    case (sp_out i c)
    then have "cpu_ok c" using pop_off_ok [OF at(4) at(5), of i] by auto
    then show ?thesis
      using spin_inv_update [OF assms(1), of s' i c Outside own] sp_out at [of i] lo by (simp add: owns_def)
  next
    case (sp_out_panic i e)
    then show ?thesis using pop_off_ok [OF at(4) at(5), of i] by auto
  qed
qed

lemma spin_reach_inv: "spin_reach s \<Longrightarrow> \<exists>own. spin_inv own s"
proof (induction rule: spin_reach.induct)
  case (sr_init s)
  then have "spin_inv None s" by (simp add: spin_inv_def owns_def initlock_def)
  then show ?case ..
next
  case (sr_step s s')
  then show ?case by (blast intro: spin_step_inv)
qed

lemma sleep_reach_inv:
  "sleep_reach a l hs ws \<Longrightarrow> (if slocked l then hs = [spid l] else hs = [] \<and> (\<forall>p. (p, a) \<notin> ws))"
proof (induction rule: sleep_reach.induct)
  case (sl_get a l hs ws p l')
  then show ?case by (auto simp: acquiresleep_def split: if_splits)
next
  case (sl_wait a l hs ws p)
  then show ?case by (auto simp: acquiresleep_def split: if_splits)
next
  case (sl_release a l hs ws p l' chs)
  then show ?case by (auto simp: releasesleep_def holdingsleep_def split: if_splits)
qed (auto simp: initsleeplock_def split: if_splits)

section \<open>Properties\<close>

text \<open>
  C7. Spin locks exclude each other on any interleaving of any number of CPUs: at most one CPU is
  between its atomic swap and its unlock, and the lock word says so. Neither acquire nor release
  panics, and every CPU inside runs with interrupts off.
\<close>

theorem spinlock_mutex:
  assumes "spin_reach s"
  shows "(\<forall>i j. owns (pc s i) \<and> owns (pc s j) \<longrightarrow> i = j) \<and> (locked (lk s) \<longleftrightarrow> (\<exists>i. owns (pc s i))) \<and>
    (\<forall>i. pc s i \<noteq> Dead \<and> (pc s i \<noteq> Outside \<longrightarrow> \<not> intr (cpus s i)) \<and> (holding i (lk s) \<longleftrightarrow> pc s i = Inside))"
proof -
  obtain own where inv: "spin_inv own s" using spin_reach_inv [OF assms] ..
  then have ow: "owns (pc s i) \<longleftrightarrow> own = Some i" for i by (simp add: spin_inv_def)
  have "holding i (lk s) \<longleftrightarrow> pc s i = Inside" for i
    using inv ow [of i] by (auto simp: spin_inv_def holding_def owns_def)
  moreover have "pc s i \<noteq> Dead \<and> (pc s i \<noteq> Outside \<longrightarrow> \<not> intr (cpus s i))" for i
    using inv by (auto simp: spin_inv_def cpu_ok_def)
  moreover have "locked (lk s) \<longleftrightarrow> (\<exists>i. owns (pc s i))" using inv ow by (auto simp: spin_inv_def)
  ultimately show ?thesis using ow by auto
qed

definition sample_spin :: spin_sys where
  "sample_spin = \<lparr>lk = initlock, cpus = \<lambda>i. \<lparr>noff = 0, intena = False, intr = True\<rparr>, pc = \<lambda>i. Outside\<rparr>"

theorem spinlock_mutex_witness:
  "\<exists>s. spin_reach s \<and> pc s 1 = Spinning \<and> \<not> intr (cpus s 1) \<and> \<not> holding 1 (lk s)"
proof -
  have "spin_reach sample_spin"
    by (rule sr_init) (simp_all add: sample_spin_def cpu_ok_def)
  moreover have "spin_step sample_spin (sample_spin\<lparr>cpus := (cpus sample_spin)(1 := push_off (cpus sample_spin 1)),
      pc := (pc sample_spin)(1 := Spinning)\<rparr>)" (is "spin_step _ ?s")
    by (rule sp_enter) (simp_all add: sample_spin_def acquire_enter_def holding_def initlock_def)
  ultimately have r: "spin_reach ?s" by (rule sr_step)
  have "pc ?s 1 = Spinning" by simp
  moreover have "pc ?s 1 \<noteq> Outside \<longrightarrow> \<not> intr (cpus ?s 1)" "holding 1 (lk ?s) \<longleftrightarrow> pc ?s 1 = Inside"
    using spinlock_mutex [OF r] by blast+
  ultimately show ?thesis using r by auto
qed

text \<open>
  C35. push_off and pop_off nest: any sequence of the two in which they match, to any depth, runs
  without a panic and leaves the depth and the interrupt flag as they were, and within an outer pair
  also the saved flag. At every point of it where some push_off is not yet undone, interrupts are off.
\<close>

theorem push_pop_off:
  assumes "matched ops" "cpu_ok c"
  shows "(\<exists>c'. run_offs ops c = Inr c' \<and> noff c' = noff c \<and> intr c' = intr c \<and> (0 < noff c \<longrightarrow> intena c' = intena c)) \<and>
    (\<forall>xs ys. ops = xs @ ys \<and> count_list xs Push > count_list xs Pop \<longrightarrow> (\<exists>d. run_offs xs c = Inr d \<and> \<not> intr d))"
proof (intro conjI allI impI; (elim conjE)?)
  show fin: "\<exists>c'. run_offs ops c = Inr c' \<and> noff c' = noff c \<and> intr c' = intr c \<and> (0 < noff c \<longrightarrow> intena c' = intena c)"
    using run_offs_matched [OF assms] .
  fix xs ys assume ops: "ops = xs @ ys" and cnt: "count_list xs Push > count_list xs Pop"
  from fin obtain d where d: "run_offs xs c = Inr d" by (cases "run_offs xs c") (auto simp: ops run_offs_append)
  then have "cpu_ok d" "0 < noff d" using run_offs_depth [OF d assms(2)] cnt assms(2) by (auto simp: cpu_ok_def)
  then show "\<exists>d. run_offs xs c = Inr d \<and> \<not> intr d" using d by (auto simp: cpu_ok_def)
qed

theorem push_pop_off_witness:
  "\<exists>c'. run_offs [Push, Push, Pop, Pop] \<lparr>noff = 0, intena = False, intr = True\<rparr> = Inr c' \<and> noff c' = 0 \<and> intr c'"
proof -
  have "matched [Push, Push, Pop, Pop]" using mt_pair [OF mt_pair [OF mt_nil mt_nil] mt_nil] by simp
  from push_pop_off [OF this, of "\<lparr>noff = 0, intena = False, intr = True\<rparr>"] show ?thesis by (auto simp: cpu_ok_def)
qed



end
