(* ===== verification/Xv6_Bio.thy ===== *)
theory Xv6_Bio
  imports Xv6_Lock
begin

text \<open>
  The buffer cache, bio.c. The NBUF buffers and the list head are nodes 0 .. NBUF of a store of
  records linked by prev and next, as in the code. A section under bcache.lock is one function; the
  sleep lock of a buffer is taken in a separate step. The disk is the function from block numbers to
  contents, and a completed request of the driver transfers one block.
\<close>

section \<open>State and operations\<close>

definition NBUF :: nat where "NBUF = 30"

abbreviation HEAD :: nat where "HEAD \<equiv> NBUF"

type_synonym block = "byte list"

record buf =
  valid :: bool
  dev :: u32
  blockno :: u32
  lock :: sleeplock
  refcnt :: u32
  prev :: nat
  nxt :: nat
  data :: block

type_synonym bcache = "nat \<Rightarrow> buf"
type_synonym diskc = "u32 \<Rightarrow> block"

text \<open>The four assignments that put b in front of the list, and the two that take it out.\<close>

definition link_front :: "nat \<Rightarrow> bcache \<Rightarrow> bcache" where
  "link_front b bc =
     (let bc = bc(b := (bc b)\<lparr>nxt := nxt (bc HEAD)\<rparr>);
          bc = bc(b := (bc b)\<lparr>prev := HEAD\<rparr>);
          h = nxt (bc HEAD);
          bc = bc(h := (bc h)\<lparr>prev := b\<rparr>)
      in bc(HEAD := (bc HEAD)\<lparr>nxt := b\<rparr>))"

definition unlink_buf :: "nat \<Rightarrow> bcache \<Rightarrow> bcache" where
  "unlink_buf b bc =
     (let n = nxt (bc b); bc = bc(n := (bc n)\<lparr>prev := prev (bc b)\<rparr>); p = prev (bc b)
      in bc(p := (bc p)\<lparr>nxt := nxt (bc b)\<rparr>))"

definition binit_buf :: "nat \<Rightarrow> bcache \<Rightarrow> bcache" where
  "binit_buf b bc = link_front b (bc(b := (bc b)\<lparr>lock := initsleeplock\<rparr>))"

definition binit :: "bcache \<Rightarrow> bcache" where
  "binit bc =
     (let bc = bc(HEAD := (bc HEAD)\<lparr>prev := HEAD, nxt := HEAD\<rparr>)
      in fold binit_buf [0..<NBUF] bc)"

partial_function (option) find_cached :: "u32 \<Rightarrow> u32 \<Rightarrow> bcache \<Rightarrow> nat \<Rightarrow> nat option option" where
  "find_cached dv bn bc b =
     (if b = HEAD then Some None
      else if dev (bc b) = dv \<and> blockno (bc b) = bn then Some (Some b)
      else find_cached dv bn bc (nxt (bc b)))"

partial_function (option) find_unused :: "bcache \<Rightarrow> nat \<Rightarrow> nat option option" where
  "find_unused bc b =
     (if b = HEAD then Some None
      else if refcnt (bc b) = 0 then Some (Some b)
      else find_unused bc (prev (bc b)))"

text \<open>The section of bget under bcache.lock; None only if the list were not circular.\<close>

definition bget :: "u32 \<Rightarrow> u32 \<Rightarrow> bcache \<Rightarrow> (nat \<times> bcache) kr option" where
  "bget dv bn bc =
     Option.bind (find_cached dv bn bc (nxt (bc HEAD))) (\<lambda>hit. case hit of
       Some b \<Rightarrow> Some (Inr (b, bc(b := (bc b)\<lparr>refcnt := refcnt (bc b) + 1\<rparr>)))
     | None \<Rightarrow>
         Option.bind (find_unused bc (prev (bc HEAD))) (\<lambda>lru. case lru of
           Some b \<Rightarrow> Some (Inr (b, bc(b := (bc b)\<lparr>dev := dv, blockno := bn, valid := False, refcnt := 1\<rparr>)))
         | None \<Rightarrow> Some (Inl (Panic ''bget: no buffers''))))"

text \<open>The end of bget: take the buffer's sleep lock; None if the caller sleeps.\<close>

definition bget_lock :: "int \<Rightarrow> nat \<Rightarrow> bcache \<Rightarrow> bcache option" where
  "bget_lock pid b bc = map_option (\<lambda>l. bc(b := (bc b)\<lparr>lock := l\<rparr>)) (acquiresleep pid (lock (bc b)))"

text \<open>bread after bget: read the block unless the buffer is valid.\<close>

definition bread_fill :: "diskc \<Rightarrow> nat \<Rightarrow> bcache \<Rightarrow> bcache" where
  "bread_fill dk b bc =
     (if valid (bc b) then bc else bc(b := (bc b)\<lparr>data := dk (blockno (bc b)), valid := True\<rparr>))"

definition bread :: "int \<Rightarrow> u32 \<Rightarrow> u32 \<Rightarrow> diskc \<Rightarrow> bcache \<Rightarrow> (nat \<times> bcache option) kr option" where
  "bread pid dv bn dk bc =
     map_option (\<lambda>r. kbind r (\<lambda>(b, bc). Inr (b, map_option (bread_fill dk b) (bget_lock pid b bc)))) (bget dv bn bc)"

definition bwrite :: "int \<Rightarrow> nat \<Rightarrow> bcache \<Rightarrow> diskc \<Rightarrow> diskc kr" where
  "bwrite pid b bc dk =
     (if \<not> holdingsleep pid (lock (bc b)) then Inl (Panic ''bwrite'')
      else Inr (dk(blockno (bc b) := data (bc b))))"

text \<open>The processes that releasesleep wakes are not part of the cache.\<close>

definition brelse :: "int \<Rightarrow> nat \<Rightarrow> bcache \<Rightarrow> bcache kr" where
  "brelse pid b bc =
     (if \<not> holdingsleep pid (lock (bc b)) then Inl (Panic ''brelse'')
      else let bc = bc(b := (bc b)\<lparr>lock := fst (releasesleep b (lock (bc b)))\<rparr>);
               bc = bc(b := (bc b)\<lparr>refcnt := refcnt (bc b) - 1\<rparr>)
           in Inr (if refcnt (bc b) = 0 then link_front b (unlink_buf b bc) else bc))"

definition bpin :: "nat \<Rightarrow> bcache \<Rightarrow> bcache" where
  "bpin b bc = bc(b := (bc b)\<lparr>refcnt := refcnt (bc b) + 1\<rparr>)"

definition bunpin :: "nat \<Rightarrow> bcache \<Rightarrow> bcache" where
  "bunpin b bc = bc(b := (bc b)\<lparr>refcnt := refcnt (bc b) - 1\<rparr>)"

section \<open>The list of buffers\<close>

text \<open>Neighbours point at each other.\<close>

definition adj :: "bcache \<Rightarrow> nat \<Rightarrow> nat \<Rightarrow> bool" where
  "adj bc a b \<longleftrightarrow> nxt (bc a) = b \<and> prev (bc b) = a"

text \<open>xs are the linked buffers, most recently used first.\<close>

definition linked :: "bcache \<Rightarrow> nat list \<Rightarrow> bool" where
  "linked bc xs \<longleftrightarrow> distinct xs \<and> HEAD \<notin> set xs \<and> successively (adj bc) (HEAD # xs @ [HEAD])"

lemma successively_change:
  assumes "successively P xs" "\<And>x y. x \<in> set (butlast xs) \<Longrightarrow> y \<in> set (tl xs) \<Longrightarrow> P x y \<Longrightarrow> Q x y"
  shows "successively Q xs"
  using assms
proof (induction P xs rule: successively.induct)
  case (3 P x y xs)
  have "Q x y" using "3.prems" by simp
  moreover have "successively Q (y # xs)"
  proof (rule "3.IH")
    show "successively P (y # xs)" using "3.prems" by simp
    fix u v assume "u \<in> set (butlast (y # xs))" "v \<in> set (tl (y # xs))" "P u v"
    then show "Q u v" using "3.prems"(2) by simp
  qed
  ultimately show ?case by simp
qed simp_all

lemma successively_snoc2: "successively P (x # xs @ [y, z]) \<longleftrightarrow> successively P (x # xs @ [y]) \<and> P y z"
  using successively_append_iff [of P "x # xs @ [y]" "[z]"] by simp

lemma linked_next: "linked bc xs \<Longrightarrow> nxt (bc HEAD) = hd (xs @ [HEAD])"
  by (cases xs) (auto simp: linked_def adj_def)

lemma linked_prev: "linked bc xs \<Longrightarrow> prev (bc HEAD) = last (HEAD # xs)"
  by (cases xs rule: rev_cases) (auto simp: linked_def adj_def successively_snoc2)

lemma find_cached_linked:
  assumes "successively (adj bc) (b # ys @ [HEAD])" "HEAD \<notin> set (b # ys)"
  shows "find_cached dv bn bc b = Some (find (\<lambda>b. dev (bc b) = dv \<and> blockno (bc b) = bn) (b # ys))"
  using assms
proof (induction ys arbitrary: b)
  case Nil
  then have "nxt (bc b) = HEAD" by (simp add: adj_def)
  then show ?case using Nil by (simp add: find_cached.simps [of dv bn bc b] find_cached.simps [of dv bn bc HEAD])
next
  case (Cons y ys)
  have "nxt (bc b) = y" "successively (adj bc) (y # ys @ [HEAD])" using Cons.prems by (simp_all add: adj_def)
  then show ?case using Cons.IH [of y] Cons.prems by (simp add: find_cached.simps [of dv bn bc b])
qed

lemma find_unused_linked:
  assumes "successively (adj bc) (HEAD # ys @ [b])" "HEAD \<notin> set (b # ys)"
  shows "find_unused bc b = Some (find (\<lambda>b. refcnt (bc b) = 0) (rev (ys @ [b])))"
  using assms
proof (induction ys arbitrary: b rule: rev_induct)
  case Nil
  then have "prev (bc b) = HEAD" by (simp add: adj_def)
  then show ?case using Nil by (simp add: find_unused.simps [of bc b] find_unused.simps [of bc HEAD])
next
  case (snoc y ys)
  have "prev (bc b) = y" "successively (adj bc) (HEAD # ys @ [y])"
    using snoc.prems by (auto simp: adj_def successively_snoc2)
  then show ?case using snoc.IH [of y] snoc.prems by (simp add: find_unused.simps [of bc b])
qed

lemma bget_linked:
  assumes "linked bc xs"
  shows "bget dv bn bc = Some
    (case find (\<lambda>b. dev (bc b) = dv \<and> blockno (bc b) = bn) xs of
       Some b \<Rightarrow> Inr (b, bc(b := (bc b)\<lparr>refcnt := refcnt (bc b) + 1\<rparr>))
     | None \<Rightarrow>
         (case find (\<lambda>b. refcnt (bc b) = 0) (rev xs) of
            Some b \<Rightarrow> Inr (b, bc(b := (bc b)\<lparr>dev := dv, blockno := bn, valid := False, refcnt := 1\<rparr>))
          | None \<Rightarrow> Inl (Panic ''bget: no buffers'')))"
proof -
  have l: "distinct xs" "HEAD \<notin> set xs" "successively (adj bc) (HEAD # xs @ [HEAD])"
    using assms by (auto simp: linked_def)
  have c: "find_cached dv bn bc (nxt (bc HEAD)) = Some (find (\<lambda>b. dev (bc b) = dv \<and> blockno (bc b) = bn) xs)"
  proof (cases xs)
    case (Cons y ys)
    then have "successively (adj bc) (y # ys @ [HEAD])" using l(3) by simp
    then show ?thesis using find_cached_linked [of bc y ys dv bn] l(2) linked_next [OF assms] Cons by simp
  qed (use linked_next [OF assms] in \<open>simp add: find_cached.simps [of dv bn bc HEAD]\<close>)
  have u: "find_unused bc (prev (bc HEAD)) = Some (find (\<lambda>b. refcnt (bc b) = 0) (rev xs))"
  proof (cases xs rule: rev_cases)
    case (snoc ys y)
    then have "successively (adj bc) (HEAD # ys @ [y])" using l(3) by (simp add: successively_snoc2)
    then show ?thesis using find_unused_linked [of bc ys y] l(2) linked_prev [OF assms] snoc by simp
  qed (use linked_prev [OF assms] in \<open>simp add: find_unused.simps [of bc HEAD]\<close>)
  show ?thesis unfolding bget_def c u by (simp split: option.splits)
qed

text \<open>The links do not depend on the other fields.\<close>

lemma linked_cong: "linked bc xs \<Longrightarrow> (\<And>a. nxt (bc' a) = nxt (bc a) \<and> prev (bc' a) = prev (bc a)) \<Longrightarrow> linked bc' xs"
  by (simp add: linked_def adj_def)

lemma linked_update:
  assumes "linked bc xs" "nxt v = nxt (bc b)" "prev v = prev (bc b)"
  shows "linked (bc(b := v)) xs"
  by (rule linked_cong [OF assms(1)]) (use assms in auto)

lemma unlink_linked:
  assumes "linked bc (us @ b # vs)"
  shows "linked (unlink_buf b bc) (us @ vs)"
proof -
  define a where "a = last (HEAD # us)"
  define c where "c = hd (vs @ [HEAD])"
  let ?bc = "unlink_buf b bc"
  have l: "distinct (us @ b # vs)" "HEAD \<notin> set (us @ b # vs)" "successively (adj bc) ((HEAD # us) @ b # (vs @ [HEAD]))"
    using assms by (auto simp: linked_def)
  define R where "R = vs @ [HEAD]"
  have "successively (adj bc) ((HEAD # us) @ b # R)" "R \<noteq> []" "c = hd R" using l(3) by (simp_all add: R_def c_def)
  then have "successively (adj bc) (HEAD # us)" "adj bc a b" "adj bc b c" "successively (adj bc) R"
    unfolding successively_append_iff by (auto simp: a_def successively_Cons)
  note L = this [unfolded R_def]
  have bc': "nxt (?bc x) = (if x = a then c else nxt (bc x))" "prev (?bc x) = (if x = c then a else prev (bc x))" for x
    using L(2,3) by (auto simp: unlink_buf_def Let_def adj_def)
  have "successively (adj ?bc) (HEAD # us)"
  proof (rule successively_change [OF L(1)])
    fix x y assume "x \<in> set (butlast (HEAD # us))" "y \<in> set (tl (HEAD # us))" "adj bc x y"
    moreover have "a \<notin> set (butlast (HEAD # us))"
      using l(1,2) unfolding a_def by (metis append_butlast_last_id distinct.simps(2) distinct_append list.distinct(1) not_distinct_conv_prefix Un_iff set_append)
    moreover have "c \<notin> set us" using l(1,2) by (cases vs) (auto simp: c_def)
    ultimately show "adj ?bc x y" by (auto simp: adj_def bc')
  qed
  moreover have "successively (adj ?bc) R"
    unfolding R_def
  proof (rule successively_change [OF L(4)])
    fix x y assume "x \<in> set (butlast (vs @ [HEAD]))" "y \<in> set (tl (vs @ [HEAD]))" "adj bc x y"
    moreover have "a \<notin> set vs" using l(1,2) by (cases us rule: rev_cases) (auto simp: a_def)
    moreover have "c \<notin> set (tl (vs @ [HEAD]))" using l(1,2) by (cases vs) (auto simp: c_def)
    ultimately show "adj ?bc x y" by (auto simp: adj_def bc')
  qed
  moreover have "adj ?bc a c" by (simp add: adj_def bc')
  ultimately have "successively (adj ?bc) ((HEAD # us) @ R)"
    using \<open>c = hd R\<close> successively_append_iff [of "adj ?bc" "HEAD # us" R] by (simp add: a_def)
  then have "successively (adj ?bc) ((HEAD # us) @ (vs @ [HEAD]))" by (simp add: R_def)
  then show ?thesis using l(1,2) by (simp add: linked_def)
qed

lemma link_front_linked:
  assumes "linked bc xs" "b \<notin> set xs" "b \<noteq> HEAD"
  shows "linked (link_front b bc) (b # xs)"
proof -
  define c where "c = hd (xs @ [HEAD])"
  let ?bc = "link_front b bc"
  have l: "distinct xs" "HEAD \<notin> set xs" "successively (adj bc) (HEAD # xs @ [HEAD])"
    using assms(1) by (auto simp: linked_def)
  have n: "nxt (bc HEAD) = c" using linked_next [OF assms(1)] by (simp add: c_def)
  have cb: "c \<noteq> b" using assms(2,3) by (cases xs) (auto simp: c_def)
  have bc': "nxt (?bc x) = (if x = HEAD then b else if x = b then c else nxt (bc x))"
    "prev (?bc x) = (if x = c then b else if x = b then HEAD else prev (bc x))" for x
    using n assms(3) cb by (auto simp: link_front_def Let_def)
  have "successively (adj bc) (xs @ [HEAD])" using l(3) by (cases xs) auto
  then have "successively (adj ?bc) (xs @ [HEAD])"
  proof (rule successively_change)
    fix x y assume "x \<in> set (butlast (xs @ [HEAD]))" "y \<in> set (tl (xs @ [HEAD]))" "adj bc x y"
    moreover have "c \<notin> set (tl (xs @ [HEAD]))" using l(1,2) by (cases xs) (auto simp: c_def)
    moreover have "b \<notin> set (tl (xs @ [HEAD]))" using assms(2,3) by (cases xs) auto
    ultimately show "adj ?bc x y" using assms(2) l(2) by (auto simp: adj_def bc')
  qed
  moreover have "adj ?bc HEAD b" "adj ?bc b c" using assms(3) cb by (auto simp: adj_def bc')
  ultimately have "successively (adj ?bc) (HEAD # b # xs @ [HEAD])" by (cases xs) (auto simp: c_def)
  then show ?thesis using l assms by (simp add: linked_def)
qed

section \<open>The cache as a view of the disk\<close>

text \<open>What buffer v says about block n of device dv.\<close>

definition entry :: "u32 \<Rightarrow> buf \<Rightarrow> u32 \<Rightarrow> block option" where
  "entry dv v n = (if valid v \<and> dev v = dv \<and> blockno v = n then Some (data v) else None)"

text \<open>The contents of a block as the kernel sees them: the cached copy if there is one.\<close>

definition cview :: "u32 \<Rightarrow> bcache \<Rightarrow> diskc \<Rightarrow> u32 \<Rightarrow> block" where
  "cview dv bc dk n =
     (case find (\<lambda>b. entry dv (bc b) n \<noteq> None) [0..<NBUF] of Some b \<Rightarrow> the (entry dv (bc b) n) | None \<Rightarrow> dk n)"

definition one_copy :: "bcache \<Rightarrow> bool" where
  "one_copy bc \<longleftrightarrow> (\<forall>i<NBUF. \<forall>j<NBUF. dev (bc i) = dev (bc j) \<and> blockno (bc i) = blockno (bc j) \<and> dev (bc i) \<noteq> 0 \<longrightarrow> i = j)"

lemma one_copyD:
  "one_copy bc \<Longrightarrow> i < NBUF \<Longrightarrow> j < NBUF \<Longrightarrow> dev (bc i) = dev (bc j) \<Longrightarrow> blockno (bc i) = blockno (bc j) \<Longrightarrow>
    dev (bc i) \<noteq> 0 \<Longrightarrow> i = j"
  unfolding one_copy_def by blast

text \<open>
  The invariant of the cache of device dv: the list links all buffers, no block has two buffers, only
  blocks of dv are cached, and a buffer nobody refers to equals its block.
\<close>

definition bio_inv :: "u32 \<Rightarrow> bcache \<Rightarrow> diskc \<Rightarrow> nat list \<Rightarrow> bool" where
  "bio_inv dv bc dk xs \<longleftrightarrow> dv \<noteq> 0 \<and> linked bc xs \<and> set xs = {..<NBUF} \<and> one_copy bc \<and>
     (\<forall>b<NBUF. valid (bc b) \<longrightarrow> dev (bc b) = dv \<and> (refcnt (bc b) = 0 \<longrightarrow> data (bc b) = dk (blockno (bc b))))"

lemma cview_hit:
  assumes "one_copy bc" "dv \<noteq> 0" "b < NBUF" "entry dv (bc b) n = Some d"
  shows "cview dv bc dk n = d"
proof (cases "find (\<lambda>b. entry dv (bc b) n \<noteq> None) [0..<NBUF]")
  case None
  then show ?thesis using assms(3,4) by (auto simp: find_None_iff)
next
  case (Some c)
  then have "c < NBUF" "entry dv (bc c) n \<noteq> None" by (auto simp: find_Some_iff)
  then have "c = b" using assms by (auto simp: one_copy_def entry_def split: if_splits)
  then show ?thesis using Some assms(4) by (simp add: cview_def)
qed

lemma cview_miss: "\<forall>b<NBUF. entry dv (bc b) n = None \<Longrightarrow> cview dv bc dk n = dk n"
  by (auto simp: cview_def find_Some_iff split: option.splits)

lemma cview_cong: "(\<And>c n. entry dv (bc' c) n = entry dv (bc c) n) \<Longrightarrow> cview dv bc' dk n = cview dv bc dk n"
  by (simp only: cview_def)

lemma cview_update:
  assumes "one_copy bc" "one_copy (bc(b := v))" "dv \<noteq> 0" "b < NBUF"
  shows "cview dv (bc(b := v)) dk n =
    (case entry dv v n of Some d \<Rightarrow> d | None \<Rightarrow> if entry dv (bc b) n \<noteq> None then dk n else cview dv bc dk n)"
proof (cases "entry dv v n")
  case (Some d)
  then show ?thesis using cview_hit [OF assms(2-4)] by simp
next
  case None
  show ?thesis
  proof (cases "\<exists>c<NBUF. c \<noteq> b \<and> entry dv (bc c) n \<noteq> None")
    case True
    then obtain c d where c: "c < NBUF" "c \<noteq> b" "entry dv (bc c) n = Some d" by auto
    then have "entry dv (bc b) n = None" using assms(1,3,4) by (auto simp: one_copy_def entry_def split: if_splits)
    then show ?thesis using None c cview_hit [OF assms(1,3) c(1,3)] cview_hit [OF assms(2,3) c(1)] by simp
  next
    case False
    then have m: "cview dv (bc(b := v)) dk n = dk n" using None by (intro cview_miss) auto
    show ?thesis
    proof (cases "entry dv (bc b) n")
      case bn: None
      then have "\<forall>c<NBUF. entry dv (bc c) n = None" using False by auto
      then show ?thesis using m None bn cview_miss [of dv bc n dk] by simp
    qed (use m None in simp)
  qed
qed

lemma bio_find:
  assumes "bio_inv dv bc dk xs"
  shows "find (\<lambda>b. dev (bc b) = dv \<and> blockno (bc b) = n) xs = Some b \<longleftrightarrow> b < NBUF \<and> dev (bc b) = dv \<and> blockno (bc b) = n"
    and "find (\<lambda>b. dev (bc b) = dv \<and> blockno (bc b) = n) xs = None \<longleftrightarrow> (\<forall>b<NBUF. \<not> (dev (bc b) = dv \<and> blockno (bc b) = n))"
proof -
  have x: "set xs = {..<NBUF}" "one_copy bc" "dv \<noteq> 0" using assms by (auto simp: bio_inv_def)
  show n: "find (\<lambda>b. dev (bc b) = dv \<and> blockno (bc b) = n) xs = None \<longleftrightarrow> (\<forall>b<NBUF. \<not> (dev (bc b) = dv \<and> blockno (bc b) = n))"
    using x(1) by (auto simp: find_None_iff)
  show "find (\<lambda>b. dev (bc b) = dv \<and> blockno (bc b) = n) xs = Some b \<longleftrightarrow> b < NBUF \<and> dev (bc b) = dv \<and> blockno (bc b) = n"
    (is "?l \<longleftrightarrow> ?r")
  proof
    assume ?l
    then have "b \<in> set xs" "dev (bc b) = dv \<and> blockno (bc b) = n" by (auto simp: find_Some_iff)
    then show ?r using x(1) by auto
  next
    assume r: ?r
    then have "find (\<lambda>b. dev (bc b) = dv \<and> blockno (bc b) = n) xs \<noteq> None" using n by blast
    then obtain c where c: "find (\<lambda>b. dev (bc b) = dv \<and> blockno (bc b) = n) xs = Some c" by blast
    then have "c \<in> set xs" "dev (bc c) = dv \<and> blockno (bc c) = n" by (auto simp: find_Some_iff)
    then have "c < NBUF" "dev (bc c) = dev (bc b) \<and> blockno (bc c) = blockno (bc b) \<and> dev (bc c) \<noteq> 0" using r x by auto
    then have "c = b" using r by (intro one_copyD [OF x(2)]) auto
    then show ?l using c by simp
  qed
qed

text \<open>A buffer's record changes but its links do not.\<close>

lemma bio_inv_update:
  assumes "bio_inv dv bc dk xs" "b < NBUF" "nxt v = nxt (bc b)" "prev v = prev (bc b)"
    "one_copy (bc(b := v))" "valid v \<Longrightarrow> dev v = dv" "valid v \<Longrightarrow> refcnt v = 0 \<Longrightarrow> data v = dk (blockno v)"
  shows "bio_inv dv (bc(b := v)) dk xs"
  using assms linked_update [of bc xs v b] by (auto simp: bio_inv_def)

lemma one_copy_same:
  assumes "one_copy bc" "dev v = dev (bc b)" "blockno v = blockno (bc b)"
  shows "one_copy (bc(b := v))"
proof -
  have "dev ((bc(b := v)) i) = dev (bc i)" "blockno ((bc(b := v)) i) = blockno (bc i)" for i using assms by auto
  then show ?thesis using assms(1) by (simp only: one_copy_def)
qed

lemma one_copy_new:
  assumes "one_copy bc" "\<forall>i<NBUF. \<not> (dev (bc i) = dev v \<and> blockno (bc i) = blockno v)"
  shows "one_copy (bc(b := v))"
  unfolding one_copy_def
proof (intro allI impI)
  fix i j assume "i < NBUF" "j < NBUF" "dev ((bc(b := v)) i) = dev ((bc(b := v)) j) \<and>
    blockno ((bc(b := v)) i) = blockno ((bc(b := v)) j) \<and> dev ((bc(b := v)) i) \<noteq> 0"
  then show "i = j" using assms(2) one_copyD [OF assms(1), of i j] by (cases "i = b"; cases "j = b") auto
qed

section \<open>Operations on the view\<close>

text \<open>The sections of bread after bget: the buffer is held and valid, and the view has not changed.\<close>

lemma fill_correct:
  assumes "bio_inv dv bc dk xs" "b < NBUF" "dev (bc b) = dv" "refcnt (bc b) \<noteq> 0"
    "bget_lock pid b bc = Some bc1" "bc' = bread_fill dk b bc1"
  shows "bio_inv dv bc' dk xs \<and> valid (bc' b) \<and> holdingsleep pid (lock (bc' b)) \<and> dev (bc' b) = dv \<and>
    blockno (bc' b) = blockno (bc b) \<and> refcnt (bc' b) = refcnt (bc b) \<and>
    data (bc' b) = cview dv bc dk (blockno (bc b)) \<and> (\<forall>n. cview dv bc' dk n = cview dv bc dk n)"
proof -
  define l where "l = \<lparr>slocked = True, spid = pid\<rparr>"
  define v where "v = (bc b)\<lparr>lock := l, data := if valid (bc b) then data (bc b) else dk (blockno (bc b)), valid := True\<rparr>"
  have "bc1 = bc(b := (bc b)\<lparr>lock := l\<rparr>)"
    using assms(5) by (auto simp: bget_lock_def acquiresleep_def l_def split: if_splits)
  then have bc': "bc' = bc(b := v)" using assms(6) by (auto simp: bread_fill_def v_def)
  have oc: "one_copy bc" "dv \<noteq> 0" using assms(1) by (auto simp: bio_inv_def)
  have oc': "one_copy (bc(b := v))" by (rule one_copy_same [OF oc(1)]) (simp_all add: v_def)
  have inv: "bio_inv dv bc' dk xs" unfolding bc'
    by (rule bio_inv_update [OF assms(1,2) _ _ oc']) (use assms(3,4) in \<open>simp_all add: v_def\<close>)
  have ev: "entry dv v n = (if n = blockno (bc b) then Some (data v) else None)" for n
    using assms(3) by (auto simp: entry_def v_def)
  have d: "data v = cview dv bc dk (blockno (bc b))"
  proof (cases "valid (bc b)")
    case True
    then have "entry dv (bc b) (blockno (bc b)) = Some (data (bc b))" using assms(3) by (simp add: entry_def)
    from cview_hit [OF oc assms(2) this] show ?thesis using True by (simp add: v_def)
  next
    case False
    have "entry dv (bc c) (blockno (bc b)) = None" if "c < NBUF" for c
      using False oc that assms(2,3) one_copyD [OF oc(1) that assms(2)] by (auto simp: entry_def)
    then have "cview dv bc dk (blockno (bc b)) = dk (blockno (bc b))" by (intro cview_miss) blast
    then show ?thesis using False by (simp add: v_def)
  qed
  have "cview dv bc' dk n = cview dv bc dk n" for n
    unfolding bc' cview_update [OF oc(1) oc' oc(2) assms(2)] ev using d by (auto simp: entry_def)
  then show ?thesis using inv d assms(3) by (simp add: bc' v_def l_def holdingsleep_def)
qed

lemma bget_hit_inv:
  assumes "bio_inv dv bc dk xs" "b < NBUF" "dev (bc b) = dv" "refcnt (bc b) \<noteq> -1"
    "bc' = bc(b := (bc b)\<lparr>refcnt := refcnt (bc b) + 1\<rparr>)"
  shows "bio_inv dv bc' dk xs \<and> refcnt (bc' b) \<noteq> 0 \<and> (\<forall>n. cview dv bc' dk n = cview dv bc dk n)"
proof -
  have nz: "refcnt (bc b) + 1 \<noteq> 0" using assms(4) by (metis add.inverse_unique add.commute)
  have oc: "one_copy bc" "dv \<noteq> 0" using assms(1) by (auto simp: bio_inv_def)
  have oc': "one_copy bc'" unfolding assms(5) by (rule one_copy_same [OF oc(1)]) simp_all
  have "bio_inv dv bc' dk xs" unfolding assms(5)
    by (rule bio_inv_update [OF assms(1,2) _ _ oc' [unfolded assms(5)]]) (use assms(3) nz in simp_all)
  moreover have "entry dv (bc' c) n = entry dv (bc c) n" for c n using assms(5) by (auto simp: entry_def)
  then have "cview dv bc' dk n = cview dv bc dk n" for n by (rule cview_cong)
  ultimately show ?thesis using nz assms(5) by simp
qed

lemma bget_recycle_inv:
  assumes "bio_inv dv bc dk xs" "b < NBUF" "refcnt (bc b) = 0" "\<forall>i<NBUF. \<not> (dev (bc i) = dv \<and> blockno (bc i) = n)"
    "bc' = bc(b := (bc b)\<lparr>dev := dv, blockno := n, valid := False, refcnt := 1\<rparr>)"
  shows "bio_inv dv bc' dk xs \<and> (\<forall>m. cview dv bc' dk m = cview dv bc dk m)"
proof -
  let ?v = "(bc b)\<lparr>dev := dv, blockno := n, valid := False, refcnt := 1\<rparr>"
  have oc: "one_copy bc" "dv \<noteq> 0" using assms(1) by (auto simp: bio_inv_def)
  have oc': "one_copy (bc(b := ?v))" by (rule one_copy_new [OF oc(1)]) (use assms(4) in simp)
  have inv: "bio_inv dv bc' dk xs" unfolding assms(5) by (rule bio_inv_update [OF assms(1,2) _ _ oc']) simp_all
  have "cview dv bc' dk m = cview dv bc dk m" for m
  proof (cases "entry dv (bc b) m")
    case None
    then show ?thesis unfolding assms(5) cview_update [OF oc(1) oc' oc(2) assms(2)] by (simp add: entry_def)
  next
    case (Some d)
    then have "d = dk m" using assms(1-3) by (auto simp: bio_inv_def entry_def split: if_splits)
    then show ?thesis unfolding assms(5) cview_update [OF oc(1) oc' oc(2) assms(2)]
      using cview_hit [OF oc assms(2) Some] Some by (simp add: entry_def)
  qed
  then show ?thesis using inv by blast
qed

text \<open>The other fields are not touched by the surgery on the links.\<close>

lemma link_fields:
  "dev (link_front b bc x) = dev (bc x)" "blockno (link_front b bc x) = blockno (bc x)" "valid (link_front b bc x) = valid (bc x)"
  "refcnt (link_front b bc x) = refcnt (bc x)" "data (link_front b bc x) = data (bc x)" "lock (link_front b bc x) = lock (bc x)"
  "dev (unlink_buf b bc x) = dev (bc x)" "blockno (unlink_buf b bc x) = blockno (bc x)" "valid (unlink_buf b bc x) = valid (bc x)"
  "refcnt (unlink_buf b bc x) = refcnt (bc x)" "data (unlink_buf b bc x) = data (bc x)" "lock (unlink_buf b bc x) = lock (bc x)"
  by (simp_all add: link_front_def unlink_buf_def Let_def)

lemma move_front_linked:
  assumes "linked bc xs" "b \<in> set xs"
  shows "linked (link_front b (unlink_buf b bc)) (b # remove1 b xs)"
proof -
  obtain us vs where xs: "xs = us @ b # vs" using split_list [OF assms(2)] by blast
  have d: "distinct xs" "HEAD \<notin> set xs" using assms(1) by (auto simp: linked_def)
  have r: "remove1 b xs = us @ vs" using d xs by (simp add: remove1_append)
  have "linked (unlink_buf b bc) (us @ vs)" using unlink_linked assms(1) xs by blast
  then show ?thesis unfolding r using d xs by (intro link_front_linked) auto
qed

definition zero_cache :: bcache where
  "zero_cache = (\<lambda>b. \<lparr>valid = False, dev = 0, blockno = 0, lock = initsleeplock, refcnt = 0, prev = 0, nxt = 0, data = []\<rparr>)"

lemma binit_loop:
  assumes "linked bc xs" "set xs \<inter> set bs = {}" "distinct bs" "HEAD \<notin> set bs"
  shows "linked (fold binit_buf bs bc) (rev bs @ xs)"
  using assms
proof (induction bs arbitrary: bc xs)
  case (Cons b bs)
  have "linked (bc(b := (bc b)\<lparr>lock := initsleeplock\<rparr>)) xs" by (rule linked_update [OF Cons.prems(1)]) simp_all
  then have "linked (binit_buf b bc) (b # xs)"
    unfolding binit_buf_def by (rule link_front_linked) (use Cons.prems in auto)
  from Cons.IH [OF this] show ?case using Cons.prems by auto
qed simp

lemma binit_linked: "linked (binit bc) (rev [0..<NBUF])"
proof -
  have "linked (bc(HEAD := (bc HEAD)\<lparr>prev := HEAD, nxt := HEAD\<rparr>)) []" by (simp add: linked_def adj_def)
  from binit_loop [OF this, of "[0..<NBUF]"] show ?thesis by (simp add: binit_def)
qed

lemma binit_fields:
  "valid (binit bc x) = valid (bc x)" "dev (binit bc x) = dev (bc x)" "refcnt (binit bc x) = refcnt (bc x)"
  "lock (binit bc x) = (if x < NBUF then initsleeplock else lock (bc x))"
proof -
  have "valid (fold binit_buf bs bc x) = valid (bc x) \<and> dev (fold binit_buf bs bc x) = dev (bc x) \<and>
    refcnt (fold binit_buf bs bc x) = refcnt (bc x) \<and>
    lock (fold binit_buf bs bc x) = (if x \<in> set bs then initsleeplock else lock (bc x))" for bs bc
    by (induction bs arbitrary: bc) (auto simp: link_fields binit_buf_def)
  from this [of "[0..<NBUF]" "bc(HEAD := (bc HEAD)\<lparr>prev := HEAD, nxt := HEAD\<rparr>)"]
  show "valid (binit bc x) = valid (bc x)" "dev (binit bc x) = dev (bc x)" "refcnt (binit bc x) = refcnt (bc x)"
    "lock (binit bc x) = (if x < NBUF then initsleeplock else lock (bc x))" by (simp_all add: binit_def)
qed

lemma boot_bio_inv: "bio_inv 1 (binit zero_cache) dk (rev [0..<NBUF])"
  using binit_linked [of zero_cache] binit_fields [of zero_cache]
  by (auto simp: bio_inv_def one_copy_def zero_cache_def)

section \<open>Properties\<close>

text \<open>
  C9. bread finds the one copy of a block: the returned buffer is locked, valid and holds the block's
  contents as the kernel sees them. Neither the view of any block nor the invariant changes, even when
  a buffer is recycled for the new block.
\<close>

theorem bread_correct:
  assumes "bio_inv dv bc dk xs" "\<forall>b<NBUF. refcnt (bc b) \<noteq> -1" "bread pid dv n dk bc = Some (Inr (b, Some bc'))"
  shows "b < NBUF \<and> dev (bc' b) = dv \<and> blockno (bc' b) = n \<and> valid (bc' b) \<and> holdingsleep pid (lock (bc' b)) \<and>
    data (bc' b) = cview dv bc dk n \<and> (\<forall>m. cview dv bc' dk m = cview dv bc dk m) \<and> bio_inv dv bc' dk xs \<and> refcnt (bc' b) \<noteq> 0"
proof -
  have l: "linked bc xs" "set xs = {..<NBUF}" using assms(1) by (auto simp: bio_inv_def)
  from assms(3) obtain bc1 bc2 where r: "bget dv n bc = Some (Inr (b, bc1))" "bget_lock pid b bc1 = Some bc2"
      "bc' = bread_fill dk b bc2"
    by (auto simp: bread_def kr_simps split: prod.splits)
  have "b < NBUF \<and> dev (bc1 b) = dv \<and> blockno (bc1 b) = n \<and> refcnt (bc1 b) \<noteq> 0 \<and> bio_inv dv bc1 dk xs \<and>
    (\<forall>m. cview dv bc1 dk m = cview dv bc dk m)"
  proof (cases "find (\<lambda>b. dev (bc b) = dv \<and> blockno (bc b) = n) xs")
    case (Some c)
    then have "b = c" "bc1 = bc(c := (bc c)\<lparr>refcnt := refcnt (bc c) + 1\<rparr>)"
      using r(1) by (auto simp: bget_linked [OF l(1)])
    then show ?thesis using Some bio_find(1) [OF assms(1)] bget_hit_inv [OF assms(1), of b bc1] assms(2) by auto
  next
    case None
    then obtain "find (\<lambda>b. refcnt (bc b) = 0) (rev xs) = Some b"
      "bc1 = bc(b := (bc b)\<lparr>dev := dv, blockno := n, valid := False, refcnt := 1\<rparr>)"
      using r(1) by (auto simp: bget_linked [OF l(1)] split: option.splits)
    moreover from this(1) have "b < NBUF" "refcnt (bc b) = 0" using l(2) nth_mem [of _ "rev xs"] by (auto simp: find_Some_iff)
    ultimately show ?thesis using None bio_find(2) [OF assms(1)] bget_recycle_inv [OF assms(1), of b n bc1] by auto
  qed
  then show ?thesis using fill_correct [of dv bc1 dk xs b pid bc2 bc'] r(2,3) by auto
qed

theorem bread_correct_witness:
  "\<exists>b bc'. bread 3 1 46 (\<lambda>n. [7]) (binit zero_cache) = Some (Inr (b, Some bc')) \<and> data (bc' b) = [7]"
proof -
  have r0: "\<forall>b<NBUF. refcnt (binit zero_cache b) \<noteq> -1" using binit_fields [of zero_cache] by (simp add: zero_cache_def)
  have "find (\<lambda>b. refcnt (binit zero_cache b) = 0) (rev (rev [0..<NBUF])) = Some 0"
    using binit_fields [of zero_cache] by (simp add: zero_cache_def NBUF_def upt_rec)
  moreover have "find (\<lambda>b. dev (binit zero_cache b) = 1 \<and> blockno (binit zero_cache b) = 46) (rev [0..<NBUF]) = None"
    using binit_fields [of zero_cache] by (simp add: zero_cache_def find_None_iff)
  ultimately have g: "bget 1 46 (binit zero_cache) = Some (Inr (0, (binit zero_cache)(0 := (binit zero_cache 0)\<lparr>dev := 1, blockno := 46, valid := False, refcnt := 1\<rparr>)))"
    by (simp add: bget_linked [OF binit_linked])
  have lk: "lock (binit zero_cache 0) = initsleeplock" by (simp add: binit_fields NBUF_def)
  obtain bc' where r: "bread 3 1 46 (\<lambda>n. [7]) (binit zero_cache) = Some (Inr (0, Some bc'))"
    by (simp add: bread_def g bget_lock_def acquiresleep_def lk initsleeplock_def)
  from bread_correct [OF boot_bio_inv r0 r]
  have "data (bc' 0) = cview 1 (binit zero_cache) (\<lambda>n. [7]) 46" by blast
  also have "\<dots> = [7]" by (rule cview_miss) (simp add: entry_def binit_fields zero_cache_def)
  finally show ?thesis using r by blast
qed

lemma find_rev_split: "find P (rev xs) = Some b \<Longrightarrow> \<exists>us vs. xs = us @ b # vs \<and> P b \<and> (\<forall>i\<in>set vs. \<not> P i)"
proof (induction xs rule: rev_induct)
  case (snoc x xs)
  show ?case
  proof (cases "P x")
    case True
    then show ?thesis using snoc.prems by (intro exI [of _ xs] exI [of _ "[]"]) simp
  next
    case False
    then obtain us vs where "xs = us @ b # vs" "P b" "\<forall>i\<in>set vs. \<not> P i" using snoc by auto
    then show ?thesis using False by (intro exI [of _ us] exI [of _ "vs @ [x]"]) auto
  qed
qed simp

text \<open>Where bget found its buffer: the cached copy, or the last unused buffer of the list.\<close>

definition lru_choice :: "u32 \<Rightarrow> u32 \<Rightarrow> bcache \<Rightarrow> nat list \<Rightarrow> nat \<Rightarrow> bool" where
  "lru_choice dv n bc xs b \<longleftrightarrow> b < NBUF \<and>
     ((dev (bc b) = dv \<and> blockno (bc b) = n) \<or>
      (\<forall>i<NBUF. \<not> (dev (bc i) = dv \<and> blockno (bc i) = n)) \<and> refcnt (bc b) = 0 \<and>
        (\<exists>us vs. xs = us @ b # vs \<and> (\<forall>i\<in>set vs. refcnt (bc i) \<noteq> 0)))"

lemma bget_lru:
  assumes "bio_inv dv bc dk xs"
  shows "(\<exists>b bc'. bget dv n bc = Some (Inr (b, bc')) \<and> lru_choice dv n bc xs b) \<or>
    bget dv n bc = Some (Inl (Panic ''bget: no buffers'')) \<and>
      (\<forall>b<NBUF. refcnt (bc b) \<noteq> 0 \<and> \<not> (dev (bc b) = dv \<and> blockno (bc b) = n))"
proof -
  have l: "linked bc xs" "set xs = {..<NBUF}" using assms by (auto simp: bio_inv_def)
  show ?thesis
  proof (cases "find (\<lambda>b. dev (bc b) = dv \<and> blockno (bc b) = n) xs")
    case (Some c)
    then have "lru_choice dv n bc xs c" using bio_find(1) [OF assms, of n c] by (simp add: lru_choice_def)
    then show ?thesis using Some by (simp add: bget_linked [OF l(1)])
  next
    case None
    note no = this [unfolded bio_find(2) [OF assms]]
    show ?thesis
    proof (cases "find (\<lambda>b. refcnt (bc b) = 0) (rev xs)")
      case n2: None
      then have "\<forall>b<NBUF. refcnt (bc b) \<noteq> 0" using l(2) by (auto simp: find_None_iff)
      then show ?thesis using None n2 no by (simp add: bget_linked [OF l(1)])
    next
      case (Some b)
      from find_rev_split [OF this] obtain us vs where u: "xs = us @ b # vs" "refcnt (bc b) = 0" "\<forall>i\<in>set vs. refcnt (bc i) \<noteq> 0" by blast
      then have "b < NBUF" using l(2) by auto
      then have "lru_choice dv n bc xs b" using no u unfolding lru_choice_def by blast
      then show ?thesis using None Some by (simp add: bget_linked [OF l(1)])
    qed
  qed
qed

lemma brelse_lru:
  assumes "linked bc xs" "b \<in> set xs" "brelse pid b bc = Inr bc'"
  shows "linked bc' (if refcnt (bc b) = 1 then b # remove1 b xs else xs)"
proof -
  define bc1 where "bc1 = bc(b := (bc b)\<lparr>lock := fst (releasesleep b (lock (bc b))), refcnt := refcnt (bc b) - 1\<rparr>)"
  have k: "linked bc1 xs" unfolding bc1_def by (rule linked_update [OF assms(1)]) simp_all
  have "bc' = (if refcnt (bc b) - 1 = 0 then link_front b (unlink_buf b bc1) else bc1)"
    using assms(3) by (simp add: brelse_def Let_def bc1_def split: if_splits)
  then show ?thesis using k move_front_linked [OF k assms(2)] by simp
qed

text \<open>
  C12. The cache is least-recently-used: bget returns the buffer that holds the block if there is one,
  else the last unused buffer of the list, and panics exactly if every buffer is in use for another
  block. brelse puts a buffer nobody else refers to in front and keeps the order of the others.
\<close>

theorem bcache_lru:
  assumes "bio_inv dv bc dk xs"
  shows "((\<exists>b bc'. bget dv n bc = Some (Inr (b, bc')) \<and> lru_choice dv n bc xs b) \<or>
      bget dv n bc = Some (Inl (Panic ''bget: no buffers'')) \<and>
        (\<forall>b<NBUF. refcnt (bc b) \<noteq> 0 \<and> \<not> (dev (bc b) = dv \<and> blockno (bc b) = n))) \<and>
    (\<forall>b<NBUF. \<forall>bc'. brelse pid b bc = Inr bc' \<longrightarrow> linked bc' (if refcnt (bc b) = 1 then b # remove1 b xs else xs))"
proof -
  have "linked bc xs" "set xs = {..<NBUF}" using assms by (auto simp: bio_inv_def)
  then show ?thesis using bget_lru [OF assms, of n] brelse_lru [of bc xs _ pid] by (intro conjI) auto
qed

theorem bcache_lru_witness:
  "\<exists>b bc'. bget 1 46 (binit zero_cache) = Some (Inr (b, bc')) \<and> b < NBUF"
proof -
  have "refcnt (binit zero_cache 0) = 0" "0 < NBUF" by (simp_all add: binit_fields zero_cache_def NBUF_def)
  then show ?thesis using bcache_lru [OF boot_bio_inv [of "\<lambda>n. []"], where n = 46 and pid = 0]
    by (auto simp: lru_choice_def)
qed

end
