(* ===== verification/Xv6_Log.thy ===== *)
theory Xv6_Log
  imports Xv6_Bytes Xv6_Bio
begin

text \<open>
  The write-ahead log, log.c. The log sits between the file system, which changes cached blocks, and
  the disk: cache gives the contents of a block as bread returns them, every bwrite appends one block
  write to the sequence the disk receives, and pins counts the bpin calls that bunpin has not undone. A crash keeps a prefix of that sequence and loses
  the cache.
\<close>

section \<open>State\<close>

definition LOGSIZE :: nat where "LOGSIZE = 30"
definition MAXOPBLOCKS :: nat where "MAXOPBLOCKS = 10"

record dstate =
  cache :: "u32 \<Rightarrow> block"
  writes :: "(u32 \<times> block) list"
  pins :: "u32 \<Rightarrow> int"

text \<open>lh is the in-memory header: the n block numbers logged so far.\<close>

record log =
  start :: u32
  lsize :: u32
  outstanding :: int
  committing :: bool
  lh :: "u32 list"

definition bwrite_block :: "u32 \<Rightarrow> dstate \<Rightarrow> dstate" where
  "bwrite_block b s = s\<lparr>writes := writes s @ [(b, cache s b)]\<rparr>"

definition set_block :: "u32 \<Rightarrow> block \<Rightarrow> dstate \<Rightarrow> dstate" where
  "set_block b d s = s\<lparr>cache := (cache s)(b := d)\<rparr>"

definition bpin_block :: "u32 \<Rightarrow> dstate \<Rightarrow> dstate" where
  "bpin_block b s = s\<lparr>pins := (pins s)(b := pins s b + 1)\<rparr>"

definition bunpin_block :: "u32 \<Rightarrow> dstate \<Rightarrow> dstate" where
  "bunpin_block b s = s\<lparr>pins := (pins s)(b := pins s b - 1)\<rparr>"

section \<open>Operations\<close>

text \<open>Copy committed blocks from the log to their home locations.\<close>

definition install_trans :: "bool \<Rightarrow> log \<Rightarrow> dstate \<Rightarrow> dstate" where
  "install_trans recovering lg s =
     fold (\<lambda>tail s.
         let dbuf = lh lg ! tail; s = bwrite_block dbuf (set_block dbuf (cache s (start lg + of_nat tail + 1)) s)
         in if recovering then s else bunpin_block dbuf s)
       [0..<length (lh lg)] s"

text \<open>
  The header block: the count, then the block numbers. A count outside 0 .. LOGSIZE would run over the
  array of the in-memory header.
\<close>

definition read_head :: "log \<Rightarrow> dstate \<Rightarrow> log kr" where
  "read_head lg s =
     (let d = cache s (start lg); n = sint (get32 d 0) in
      if n > int LOGSIZE then Inl (Fault ''read_head'')
      else Inr (lg\<lparr>lh := get_words d 4 (nat n)\<rparr>))"

definition write_head :: "log \<Rightarrow> dstate \<Rightarrow> dstate" where
  "write_head lg s =
     bwrite_block (start lg)
       (set_block (start lg) (put_words (put32 (cache s (start lg)) 0 (of_nat (length (lh lg)))) 4 (lh lg)) s)"

definition recover_from_log :: "log \<Rightarrow> dstate \<Rightarrow> (log \<times> dstate) kr" where
  "recover_from_log lg s =
     kbind (read_head lg s) (\<lambda>lg.
       let s = install_trans True lg s; lg = lg\<lparr>lh := []\<rparr>
       in Inr (lg, write_head lg s))"

text \<open>
  initlog; its first test compares two constants, the 124 bytes of the header with the 1024 of a block.
\<close>

definition initlog :: "log \<Rightarrow> u32 \<Rightarrow> u32 \<Rightarrow> dstate \<Rightarrow> (log \<times> dstate) kr" where
  "initlog lg logstart nlog s = recover_from_log (lg\<lparr>start := logstart, lsize := nlog\<rparr>) s"

text \<open>begin_op: None if the caller sleeps on the log.\<close>

definition begin_op :: "log \<Rightarrow> log option" where
  "begin_op lg =
     (if committing lg then None
      else if int (length (lh lg)) + (outstanding lg + 1) * int MAXOPBLOCKS > int LOGSIZE then None
      else Some (lg\<lparr>outstanding := outstanding lg + 1\<rparr>))"

definition write_log :: "log \<Rightarrow> dstate \<Rightarrow> dstate" where
  "write_log lg s =
     fold (\<lambda>tail s. bwrite_block (start lg + of_nat tail + 1)
         (set_block (start lg + of_nat tail + 1) (cache s (lh lg ! tail)) s))
       [0..<length (lh lg)] s"

definition commit :: "log \<Rightarrow> dstate \<Rightarrow> log \<times> dstate" where
  "commit lg s =
     (if length (lh lg) > 0
      then let s = write_log lg s; s = write_head lg s; s = install_trans False lg s; lg = lg\<lparr>lh := []\<rparr>
           in (lg, write_head lg s)
      else (lg, s))"

text \<open>
  end_op in three parts: the first critical section, which tells whether to commit, the commit without
  the lock, and the second critical section. The sleepers on the log are woken in the first unless a
  commit follows, and in the last.
\<close>

definition end_op_enter :: "log \<Rightarrow> (bool \<times> log) kr" where
  "end_op_enter lg =
     (let lg = lg\<lparr>outstanding := outstanding lg - 1\<rparr> in
      if committing lg then Inl (Panic ''log.committing'')
      else if outstanding lg = 0 then Inr (True, lg\<lparr>committing := True\<rparr>)
      else Inr (False, lg))"

definition end_op :: "log \<Rightarrow> dstate \<Rightarrow> (log \<times> dstate) kr" where
  "end_op lg s =
     kbind (end_op_enter lg) (\<lambda>(do_commit, lg).
       if do_commit then case commit lg s of (lg, s) \<Rightarrow> Inr (lg\<lparr>committing := False\<rparr>, s)
       else Inr (lg, s))"

text \<open>log_write of the buffer of block b; a block already in the log is absorbed, a new one is pinned.\<close>

definition log_write :: "u32 \<Rightarrow> log \<Rightarrow> dstate \<Rightarrow> (log \<times> dstate) kr" where
  "log_write b lg s =
     (if length (lh lg) \<ge> LOGSIZE \<or> int (length (lh lg)) \<ge> sint (lsize lg) - 1 then Inl (Panic ''too big a transaction'')
      else if outstanding lg < 1 then Inl (Panic ''log_write outside of trans'')
      else Inr (if b \<in> set (lh lg) then (lg, s) else (lg\<lparr>lh := lh lg @ [b]\<rparr>, bpin_block b s)))"

section \<open>The disk after a sequence of writes\<close>

definition apply_writes :: "(u32 \<times> block) list \<Rightarrow> diskc \<Rightarrow> diskc" where
  "apply_writes ws d = foldl (\<lambda>d (b, x). d(b := x)) d ws"

lemma apply_writes_simps [simp]:
  "apply_writes [] d = d" "apply_writes (ws @ ws') d = apply_writes ws' (apply_writes ws d)"
  "apply_writes [(b, x)] d = d(b := x)"
  by (simp_all add: apply_writes_def)

lemma apply_map_miss: "(\<And>t. t < k \<Longrightarrow> f t \<noteq> b) \<Longrightarrow> apply_writes (map (\<lambda>t. (f t, g t)) [0..<k]) d b = d b"
  by (induction k) auto

lemma apply_map_hit:
  "t < k \<Longrightarrow> inj_on f {..<k} \<Longrightarrow> apply_writes (map (\<lambda>t. (f t, g t)) [0..<k]) d (f t) = g t"
proof (induction k)
  case (Suc k)
  show ?case
  proof (cases "t = k")
    case False
    then have "f k \<noteq> f t" using Suc.prems by (auto simp: inj_on_def)
    moreover have "inj_on f {..<k}" using Suc.prems(2) by (rule inj_on_subset) auto
    ultimately show ?thesis using Suc False by simp
  qed simp
qed simp

definition slot :: "log \<Rightarrow> nat \<Rightarrow> u32" where
  "slot lg t = start lg + of_nat t + 1"

text \<open>The blocks of the log: its header and the slots behind it.\<close>

definition log_region :: "log \<Rightarrow> u32 set" where
  "log_region lg = {start lg + of_nat k | k. k < unat (lsize lg)}"

lemma slot_region: "Suc t < unat (lsize lg) \<Longrightarrow> slot lg t \<in> log_region lg" "0 < unat (lsize lg) \<Longrightarrow> start lg \<in> log_region lg"
proof -
  show "start lg \<in> log_region lg" if "0 < unat (lsize lg)" using that by (auto simp: log_region_def intro!: exI [of _ 0])
  show "slot lg t \<in> log_region lg" if "Suc t < unat (lsize lg)"
    using that by (auto simp: log_region_def slot_def intro!: exI [of _ "Suc t"])
qed

lemma slot_home: "Suc t < unat (lsize lg) \<Longrightarrow> b \<notin> log_region lg \<Longrightarrow> slot lg t \<noteq> b \<and> b \<noteq> slot lg t"
  using slot_region(1) by metis

lemma log_slot_inj: "inj_on (slot lg) {..<LOGSIZE}"
proof (rule inj_onI)
  fix t u assume tu: "t \<in> {..<LOGSIZE}" "u \<in> {..<LOGSIZE}" "slot lg t = slot lg u"
  then have "(of_nat t :: u32) = of_nat u" by (simp add: slot_def)
  then have "unat (of_nat t :: u32) = unat (of_nat u :: u32)" by simp
  moreover have "unat (of_nat k :: u32) = k" if "k < LOGSIZE" for k
    using that by (simp add: LOGSIZE_def unsigned_of_nat take_bit_eq_mod)
  ultimately show "t = u" using tu by simp
qed

lemma slot_start: "t < LOGSIZE \<Longrightarrow> slot lg t \<noteq> start lg"
proof
  assume t: "t < LOGSIZE" and "slot lg t = start lg"
  then have "(of_nat t + 1 :: u32) = 0" by (simp add: slot_def add.assoc)
  then have "unat (of_nat (Suc t) :: u32) = 0" by (simp add: add.commute)
  moreover have "unat (of_nat (Suc t) :: u32) = Suc t"
    using t by (simp add: LOGSIZE_def unsigned_of_nat take_bit_eq_mod del: of_nat_Suc)
  ultimately show False by simp
qed

lemma copy_loop:
  assumes "\<And>t u. t < k \<Longrightarrow> u < k \<Longrightarrow> dst t \<noteq> src u"
  shows "fold (\<lambda>t s. bwrite_block (dst t) (set_block (dst t) (cache s (src t)) s)) [0..<k] s =
    s\<lparr>cache := apply_writes (map (\<lambda>t. (dst t, cache s (src t))) [0..<k]) (cache s),
      writes := writes s @ map (\<lambda>t. (dst t, cache s (src t))) [0..<k]\<rparr>" (is "fold ?f _ s = ?R k")
  using assms
proof (induction k)
  case (Suc k)
  have IH: "fold ?f [0..<k] s = ?R k" using Suc by simp
  have "cache (?R k) (src k) = cache s (src k)" using Suc.prems by (simp add: apply_map_miss)
  then have "?f k (?R k) = ?R (Suc k)" by (simp add: bwrite_block_def set_block_def fun_upd_def)
  then show ?case using IH by simp
qed simp

lemma write_log_loop:
  assumes "k < unat (lsize lg)" "\<And>t. t < k \<Longrightarrow> h t \<notin> log_region lg"
  shows "fold (\<lambda>t s. bwrite_block (start lg + of_nat t + 1) (set_block (start lg + of_nat t + 1) (cache s (h t)) s)) [0..<k] s =
    s\<lparr>cache := apply_writes (map (\<lambda>t. (slot lg t, cache s (h t))) [0..<k]) (cache s),
      writes := writes s @ map (\<lambda>t. (slot lg t, cache s (h t))) [0..<k]\<rparr>"
  unfolding slot_def [symmetric] using assms slot_home by (intro copy_loop) auto

text \<open>Unpinning does not affect the copies of install_trans.\<close>

lemma install_pins:
  "\<exists>p. install_trans r lg s =
    (fold (\<lambda>t s. bwrite_block (lh lg ! t) (set_block (lh lg ! t) (cache s (start lg + of_nat t + 1)) s)) [0..<length (lh lg)] s)\<lparr>pins := p\<rparr> \<and>
    (\<forall>b. p b = pins s b - (if r then 0 else int (count_list (lh lg) b)))"
proof -
  let ?f = "\<lambda>t s. bwrite_block (lh lg ! t) (set_block (lh lg ! t) (cache s (start lg + of_nat t + 1)) s)"
  let ?g = "\<lambda>t s. if r then ?f t s else bunpin_block (lh lg ! t) (?f t s)"
  have "\<exists>p. fold ?g [0..<k] s = (fold ?f [0..<k] s)\<lparr>pins := p\<rparr> \<and>
      (\<forall>b. p b = pins s b - (if r then 0 else int (count_list (take k (lh lg)) b)))" if "k \<le> length (lh lg)" for k
    using that
  proof (induction k)
    case 0
    show ?case by (intro exI [of _ "pins s"]) simp
  next
    case (Suc k)
    then obtain p where p: "fold ?g [0..<k] s = (fold ?f [0..<k] s)\<lparr>pins := p\<rparr>"
      "\<forall>b. p b = pins s b - (if r then 0 else int (count_list (take k (lh lg)) b))" by auto
    have c: "?g k (x\<lparr>pins := p\<rparr>) = (?f k x)\<lparr>pins := if r then p else p(lh lg ! k := p (lh lg ! k) - 1)\<rparr>" for x
      by (simp add: bwrite_block_def set_block_def bunpin_block_def)
    show ?case
    proof (rule exI [of _ "if r then p else p(lh lg ! k := p (lh lg ! k) - 1)"], intro conjI allI)
      show "fold ?g [0..<Suc k] s = (fold ?f [0..<Suc k] s)\<lparr>pins := if r then p else p(lh lg ! k := p (lh lg ! k) - 1)\<rparr>"
      proof -
        have "fold ?g [0..<Suc k] s = ?g k ((fold ?f [0..<k] s)\<lparr>pins := p\<rparr>)" unfolding p(1) [symmetric] by simp
        then show ?thesis unfolding c by simp
      qed
      show "(if r then p else p(lh lg ! k := p (lh lg ! k) - 1)) b = pins s b - (if r then 0 else int (count_list (take (Suc k) (lh lg)) b))" for b
        using p(2) Suc.prems by (simp add: take_Suc_conv_app_nth)
    qed
  qed
  from this [OF order_refl] show ?thesis unfolding install_trans_def Let_def take_all [OF order_refl] .
qed

lemma install_loop:
  assumes "length (lh lg) < unat (lsize lg)" "\<And>t. t < length (lh lg) \<Longrightarrow> lh lg ! t \<notin> log_region lg"
  shows "\<exists>p. install_trans r lg s =
    s\<lparr>cache := apply_writes (map (\<lambda>t. (lh lg ! t, cache s (slot lg t))) [0..<length (lh lg)]) (cache s),
      writes := writes s @ map (\<lambda>t. (lh lg ! t, cache s (slot lg t))) [0..<length (lh lg)], pins := p\<rparr>"
proof -
  from install_pins [of r lg s] obtain p where "install_trans r lg s =
    (fold (\<lambda>t s. bwrite_block (lh lg ! t) (set_block (lh lg ! t) (cache s (slot lg t)) s)) [0..<length (lh lg)] s)\<lparr>pins := p\<rparr>"
    unfolding slot_def by blast
  moreover have "fold (\<lambda>t s. bwrite_block (lh lg ! t) (set_block (lh lg ! t) (cache s (slot lg t)) s)) [0..<length (lh lg)] s =
    s\<lparr>cache := apply_writes (map (\<lambda>t. (lh lg ! t, cache s (slot lg t))) [0..<length (lh lg)]) (cache s),
      writes := writes s @ map (\<lambda>t. (lh lg ! t, cache s (slot lg t))) [0..<length (lh lg)]\<rparr>"
    using assms slot_home by (intro copy_loop) auto
  ultimately show ?thesis by auto
qed

text \<open>A list of home blocks a transaction may contain.\<close>

definition trans_ok :: "log \<Rightarrow> u32 list \<Rightarrow> bool" where
  "trans_ok lg bs \<longleftrightarrow> length bs \<le> LOGSIZE \<and> length bs < unat (lsize lg) \<and> distinct bs \<and> set bs \<inter> log_region lg = {}"

lemma trans_inj: "trans_ok lg bs \<Longrightarrow> inj_on ((!) bs) {..<length bs}"
  by (auto simp: trans_ok_def inj_on_def nth_eq_iff_index_eq)

lemma trans_home: "trans_ok lg bs \<Longrightarrow> t < length bs \<Longrightarrow> bs ! t \<notin> log_region lg \<and> bs ! t \<noteq> start lg"
  using slot_region(2) [of lg] nth_mem [of t bs] unfolding trans_ok_def by (metis disjoint_iff gr_zeroI not_less_zero)

definition header :: "block \<Rightarrow> u32 list \<Rightarrow> block" where
  "header d bs = put_words (put32 d 0 (of_nat (length bs))) 4 bs"

lemma header_decode:
  assumes "length d = 1024" "length bs \<le> LOGSIZE"
  shows "sint (get32 (header d bs) 0) = int (length bs)" "get_words (header d bs) 4 (length bs) = bs" "length (header d bs) = 1024"
proof -
  have "get32 (header d bs) 0 = of_nat (length bs)"
    using assms by (simp add: header_def get32_put_words_other)
  moreover have "sint (of_nat (length bs) :: u32) = int (length bs)"
    using assms(2) by (simp add: LOGSIZE_def sint_uint unsigned_of_nat take_bit_eq_mod signed_take_bit_eq_if_positive bit_iff_odd)
  ultimately show "sint (get32 (header d bs) 0) = int (length bs)" by simp
  show "get_words (header d bs) 4 (length bs) = bs"
    using assms by (simp add: header_def get_words_put_words LOGSIZE_def)
  show "length (header d bs) = 1024" using assms(1) by (simp add: header_def)
qed

text \<open>What the disk looks like once recovery, started with an empty cache, has finished.\<close>

definition boot :: "diskc \<Rightarrow> dstate" where
  "boot d = \<lparr>cache = d, writes = [], pins = (\<lambda>b. 0)\<rparr>"

definition recovered :: "log \<Rightarrow> diskc \<Rightarrow> diskc option" where
  "recovered lg d =
     (case recover_from_log lg (boot d) of
        Inl e \<Rightarrow> None | Inr (lg', s) \<Rightarrow> Some (apply_writes (writes s) d))"

lemma recover_writes:
  assumes "trans_ok lg bs" "sint (get32 (d (start lg)) 0) = int (length bs)" "get_words (d (start lg)) 4 (length bs) = bs"
  shows "\<exists>lg' s. recover_from_log lg (boot d) = Inr (lg', s) \<and> lh lg' = [] \<and>
    writes s = map (\<lambda>t. (bs ! t, d (slot lg t))) [0..<length bs] @ [(start lg, header (d (start lg)) [])]"
proof -
  have rh: "read_head lg (boot d) = Inr (lg\<lparr>lh := bs\<rparr>)"
    using assms by (simp add: read_head_def trans_ok_def boot_def)
  let ?lg = "lg\<lparr>lh := bs\<rparr>"
  let ?W = "map (\<lambda>t. (bs ! t, d (slot lg t))) [0..<length bs]"
  have "lh ?lg ! t \<notin> log_region ?lg" if "t < length (lh ?lg)" for t
    using trans_home [OF assms(1), of t] that by (simp add: log_region_def)
  from install_loop [of ?lg True "boot d", OF _ this] obtain p where
    inst: "install_trans True ?lg (boot d) = \<lparr>cache = apply_writes ?W d, writes = ?W, pins = p\<rparr>"
    using assms(1) by (auto simp: trans_ok_def slot_def boot_def)
  have "apply_writes ?W d (start lg) = d (start lg)"
    using trans_home [OF assms(1)] by (intro apply_map_miss) auto
  then show ?thesis
    by (simp add: recover_from_log_def rh inst Let_def write_head_def bwrite_block_def set_block_def header_def)
qed

lemma recovered_spec:
  assumes "trans_ok lg bs" "length (d (start lg)) = 1024"
    "sint (get32 (d (start lg)) 0) = int (length bs)" "get_words (d (start lg)) 4 (length bs) = bs"
  shows "\<exists>d'. recovered lg d = Some d' \<and> (\<forall>t<length bs. d' (bs ! t) = d (slot lg t)) \<and>
    (\<forall>b. b \<notin> set bs \<and> b \<noteq> start lg \<longrightarrow> d' b = d b) \<and> get32 (d' (start lg)) 0 = 0"
proof -
  from recover_writes [where d = d, OF assms(1,3,4)] obtain lg' s where r: "recover_from_log lg (boot d) = Inr (lg', s)"
    "writes s = map (\<lambda>t. (bs ! t, d (slot lg t))) [0..<length bs] @ [(start lg, header (d (start lg)) [])]" by blast
  define d1 where "d1 = apply_writes (map (\<lambda>t. (bs ! t, d (slot lg t))) [0..<length bs]) d"
  have d': "recovered lg d = Some (d1(start lg := header (d (start lg)) []))"
    by (simp add: recovered_def r d1_def)
  have ns: "bs ! t \<noteq> start lg" if "t < length bs" for t using trans_home [OF assms(1) that] by simp
  have hit: "d1 (bs ! t) = d (slot lg t)" if "t < length bs" for t
    unfolding d1_def by (rule apply_map_hit [OF that trans_inj [OF assms(1)]])
  have miss: "d1 b = d b" if "b \<notin> set bs" for b
    unfolding d1_def using that by (intro apply_map_miss) auto
  have "get32 (header (d (start lg)) []) 0 = 0" using assms(2) by (simp add: header_def)
  then show ?thesis
    using d' hit miss ns by (intro exI [of _ "d1(start lg := header (d (start lg)) [])"]) simp
qed

section \<open>Commit\<close>

lemma commit_writes:
  assumes "trans_ok lg bs" "lh lg = bs" "bs \<noteq> []" "writes s = []"
  shows "\<exists>h. writes (snd (commit lg s)) =
    map (\<lambda>t. (slot lg t, cache s (bs ! t))) [0..<length bs] @ [(start lg, header (cache s (start lg)) bs)] @
    map (\<lambda>t. (bs ! t, cache s (bs ! t))) [0..<length bs] @ [(start lg, header h [])] \<and>
    (length (cache s (start lg)) = 1024 \<longrightarrow> length h = 1024)"
proof -
  let ?n = "length bs"
  let ?W1 = "map (\<lambda>t. (slot lg t, cache s (bs ! t))) [0..<?n]"
  have n: "?n \<le> LOGSIZE" and ns: "?n < unat (lsize lg)" using assms(1) by (simp_all add: trans_ok_def)
  have hm: "bs ! t \<notin> log_region lg" if "t < ?n" for t using trans_home [OF assms(1) that] by simp
  define c1 where "c1 = apply_writes ?W1 (cache s)"
  have wl: "write_log lg s = s\<lparr>cache := c1, writes := ?W1\<rparr>"
    unfolding write_log_def c1_def using write_log_loop [OF ns, of "(!) bs" s] hm assms(2,4) by simp
  have c1a: "c1 (start lg) = cache s (start lg)"
    unfolding c1_def using slot_start n by (intro apply_map_miss) (metis less_le_trans)
  have inj: "inj_on (slot lg) {..<?n}" by (rule inj_on_subset [OF log_slot_inj]) (use n in auto)
  have c1s: "c1 (slot lg t) = cache s (bs ! t)" if "t < ?n" for t
    unfolding c1_def by (rule apply_map_hit [OF that inj])
  define c2 where "c2 = c1(start lg := header (cache s (start lg)) bs)"
  have wh: "write_head lg (s\<lparr>cache := c1, writes := ?W1\<rparr>) = s\<lparr>cache := c2, writes := ?W1 @ [(start lg, header (cache s (start lg)) bs)]\<rparr>"
    by (simp add: write_head_def bwrite_block_def set_block_def header_def c2_def c1a assms(2))
  have c2s: "c2 (slot lg t) = cache s (bs ! t)" if "t < ?n" for t
    using c1s [OF that] slot_start [of t lg] that n by (simp add: c2_def)
  let ?W2 = "map (\<lambda>t. (bs ! t, cache s (bs ! t))) [0..<?n]"
  have w2: "map (\<lambda>t. (bs ! t, c2 (slot lg t))) [0..<?n] = ?W2" using c2s by simp
  have "lh lg ! t \<notin> log_region lg" if "t < length (lh lg)" for t using hm that assms(2) by simp
  note install_loop [of lg False "s\<lparr>cache := c2, writes := ?W1 @ [(start lg, header (cache s (start lg)) bs)]\<rparr>", OF _ this]
  then obtain p where it: "install_trans False lg (s\<lparr>cache := c2, writes := ?W1 @ [(start lg, header (cache s (start lg)) bs)]\<rparr>) =
      s\<lparr>cache := apply_writes ?W2 c2, writes := (?W1 @ [(start lg, header (cache s (start lg)) bs)]) @ ?W2, pins := p\<rparr>"
    using ns assms(2) w2 by auto
  have "apply_writes ?W2 c2 (start lg) = c2 (start lg)" using trans_home [OF assms(1)] by (intro apply_map_miss) auto
  then have h: "apply_writes ?W2 c2 (start lg) = header (cache s (start lg)) bs" by (simp add: c2_def)
  have c: "commit lg s = (lg\<lparr>lh := []\<rparr>, write_head (lg\<lparr>lh := []\<rparr>) (install_trans False lg (write_head lg (write_log lg s))))"
    using assms(2,3) by (simp add: commit_def Let_def)
  have "writes (snd (commit lg s)) = ?W1 @ [(start lg, header (cache s (start lg)) bs)] @ ?W2 @
      [(start lg, header (header (cache s (start lg)) bs) [])]"
    unfolding c wl wh it by (simp add: write_head_def bwrite_block_def set_block_def h) (simp add: header_def)
  then show ?thesis by (intro exI [of _ "header (cache s (start lg)) bs"]) (simp add: header_def)
qed

text \<open>The three states a crash during commit can leave on the disk.\<close>

lemma crash_before:
  assumes "length (d0 (start lg)) = 1024" "get32 (d0 (start lg)) 0 = 0" "k \<le> LOGSIZE" "k < unat (lsize lg)"
    "d = apply_writes (map (\<lambda>t. (slot lg t, g t)) [0..<k]) d0"
  shows "\<exists>d'. recovered lg d = Some d' \<and> (\<forall>b. b \<notin> log_region lg \<longrightarrow> d' b = d0 b)"
proof -
  have da: "d (start lg) = d0 (start lg)"
    unfolding assms(5) using slot_start assms(3) by (intro apply_map_miss) (metis less_le_trans)
  have sz: "0 < unat (lsize lg)" using assms(4) by linarith
  have "trans_ok lg []" using sz by (simp add: trans_ok_def)
  from recovered_spec [OF this, of d] obtain d' where
    "recovered lg d = Some d'" "\<forall>b. b \<notin> set [] \<and> b \<noteq> start lg \<longrightarrow> d' b = d b"
    using assms(1,2) da by (auto simp: get_words_def)
  moreover have "d b = d0 b" if "b \<notin> log_region lg" for b
    unfolding assms(5) using slot_home [OF _ that] assms(4) by (intro apply_map_miss) auto
  ultimately show ?thesis using slot_region(2) [OF sz] by (metis empty_iff list.set(1))
qed

lemma crash_after:
  assumes "trans_ok lg bs" "length (d (start lg)) = 1024" "d (start lg) = header h bs" "length h = 1024"
    "\<And>t. t < length bs \<Longrightarrow> d (slot lg t) = c (bs ! t)" "\<And>b. b \<notin> log_region lg \<Longrightarrow> b \<notin> set bs \<Longrightarrow> d b = c b"
  shows "\<exists>d'. recovered lg d = Some d' \<and> (\<forall>b. b \<notin> log_region lg \<longrightarrow> d' b = c b)"
proof -
  have n: "length bs \<le> LOGSIZE" and sz: "0 < unat (lsize lg)" using assms(1) by (auto simp: trans_ok_def)
  from recovered_spec [where d = d, OF assms(1,2)] obtain d' where d': "recovered lg d = Some d'" "\<forall>t<length bs. d' (bs ! t) = d (slot lg t)"
    "\<forall>b. b \<notin> set bs \<and> b \<noteq> start lg \<longrightarrow> d' b = d b"
    using header_decode [OF assms(4) n] assms(3) by auto
  have "d' b = c b" if b: "b \<notin> log_region lg" for b
  proof (cases "b \<in> set bs")
    case True
    then obtain t where "t < length bs" "b = bs ! t" by (metis in_set_conv_nth)
    then show ?thesis using d'(2) assms(5) by simp
  next
    case False
    then show ?thesis using d'(3) assms(6) b slot_region(2) [OF sz] by metis
  qed
  then show ?thesis using d'(1) by blast
qed

text \<open>The disk once the log blocks and the header are written and j home blocks are installed.\<close>

lemma crash_mid:
  assumes "trans_ok lg bs" "length (d0 (start lg)) = 1024" "\<forall>b. b \<notin> set bs \<longrightarrow> c b = d0 b" "j \<le> length bs"
    "d = apply_writes (map (\<lambda>t. (bs ! t, c (bs ! t))) [0..<j])
       ((apply_writes (map (\<lambda>t. (slot lg t, c (bs ! t))) [0..<length bs]) d0)(start lg := header (d0 (start lg)) bs))"
  shows "(\<exists>d'. recovered lg d = Some d' \<and> (\<forall>b. b \<notin> log_region lg \<longrightarrow> d' b = c b)) \<and>
    (j = length bs \<longrightarrow> (\<forall>b. b \<notin> log_region lg \<longrightarrow> d b = c b))"
proof -
  let ?n = "length bs"
  have n: "?n \<le> LOGSIZE" and ns: "?n < unat (lsize lg)" and sz: "0 < unat (lsize lg)"
    using assms(1) by (auto simp: trans_ok_def)
  define e where "e = apply_writes (map (\<lambda>t. (slot lg t, c (bs ! t))) [0..<?n]) d0"
  define e' where "e' = e(start lg := header (d0 (start lg)) bs)"
  have d: "d = apply_writes (map (\<lambda>t. (bs ! t, c (bs ! t))) [0..<j]) e'" using assms(5) by (simp add: e_def e'_def)
  have es: "e (slot lg t) = c (bs ! t)" if "t < ?n" for t
    unfolding e_def by (rule apply_map_hit [OF that inj_on_subset [OF log_slot_inj]]) (use n in auto)
  have eh: "e b = d0 b" if "b \<notin> log_region lg" for b
    unfolding e_def using slot_home [OF _ that] ns by (intro apply_map_miss) auto
  have da: "d (start lg) = header (d0 (start lg)) bs"
  proof -
    have "d (start lg) = e' (start lg)" unfolding d using trans_home [OF assms(1)] assms(4) by (intro apply_map_miss) auto
    then show ?thesis by (simp add: e'_def)
  qed
  have ds: "d (slot lg t) = c (bs ! t)" if t: "t < ?n" for t
  proof -
    have "d (slot lg t) = e' (slot lg t)"
      unfolding d using trans_home [OF assms(1)] slot_home [of t lg] t ns assms(4) by (intro apply_map_miss) auto
    then show ?thesis using es [OF t] slot_start [of t lg] t n by (simp add: e'_def)
  qed
  have dh: "d b = c b" if b: "b \<notin> log_region lg" "b \<notin> set bs" for b
  proof -
    have "d b = e' b" unfolding d using b(2) assms(4) by (intro apply_map_miss) auto
    moreover have "b \<noteq> start lg" using b(1) slot_region(2) [OF sz] by auto
    ultimately show ?thesis using eh [OF b(1)] b assms(3) by (simp add: e'_def)
  qed
  have "d b = c b" if j: "j = ?n" and b: "b \<in> set bs" for b
  proof -
    obtain t where "t < ?n" "b = bs ! t" using b by (metis in_set_conv_nth)
    then show ?thesis unfolding d using apply_map_hit [of t j "(!) bs"] trans_inj [OF assms(1)] j by simp
  qed
  then have "j = ?n \<longrightarrow> (\<forall>b. b \<notin> log_region lg \<longrightarrow> d b = c b)" using dh by blast
  moreover have "length (header (d0 (start lg)) bs) = 1024" by (rule header_decode(3) [OF assms(2) n])
  ultimately show ?thesis using crash_after [where d = d and h = "d0 (start lg)" and c = c and lg = lg and bs = bs] ds dh da assms(1,2) by simp
qed

section \<open>Space in the log\<close>

text \<open>
  Histories of the log: us holds, for each operation between begin_op and end_op, how many blocks it
  has logged so far. An operation changes the cached block b and logs it, at most MAXOPBLOCKS times.
\<close>

inductive log_run :: "log \<Rightarrow> dstate \<Rightarrow> nat list \<Rightarrow> bool" where
  lr_init: "lh lg = [] \<Longrightarrow> outstanding lg = 0 \<Longrightarrow> \<not> committing lg \<Longrightarrow> (\<And>b. pins s b = 0) \<Longrightarrow> log_run lg s []"
| lr_begin: "log_run lg s us \<Longrightarrow> begin_op lg = Some lg' \<Longrightarrow> log_run lg' s (0 # us)"
| lr_write: "log_run lg s (us @ u # vs) \<Longrightarrow> u < MAXOPBLOCKS \<Longrightarrow> log_write b lg (set_block b x s) = Inr (lg', s') \<Longrightarrow>
    log_run lg' s' (us @ Suc u # vs)"
| lr_end: "log_run lg s (us @ u # vs) \<Longrightarrow> end_op lg s = Inr (lg', s') \<Longrightarrow> log_run lg' s' (us @ vs)"

definition reserved_space :: "nat list \<Rightarrow> nat" where
  "reserved_space us = (\<Sum>u\<leftarrow>us. MAXOPBLOCKS - u)"

lemma reserved_bound: "reserved_space us \<le> length us * MAXOPBLOCKS"
  by (induction us) (auto simp: reserved_space_def)

definition log_inv :: "log \<Rightarrow> dstate \<Rightarrow> nat list \<Rightarrow> bool" where
  "log_inv lg s us \<longleftrightarrow> length (lh lg) + reserved_space us \<le> LOGSIZE \<and> outstanding lg = int (length us) \<and> \<not> committing lg \<and>
     distinct (lh lg) \<and> (\<forall>b. pins s b = (if b \<in> set (lh lg) then 1 else 0)) \<and>
     (lh lg = [] \<or> int (length (lh lg)) \<le> sint (lsize lg) - 1)"

lemma log_inv_begin:
  assumes "log_inv lg s us" "begin_op lg = Some lg'"
  shows "log_inv lg' s (0 # us)"
proof -
  have lg': "lg' = lg\<lparr>outstanding := outstanding lg + 1\<rparr>"
    "int (length (lh lg)) + (outstanding lg + 1) * int MAXOPBLOCKS \<le> int LOGSIZE"
    using assms(2) by (auto simp: begin_op_def split: if_splits)
  then have "int (length (lh lg) + (length us + 1) * MAXOPBLOCKS) \<le> int LOGSIZE" using assms(1) by (simp add: log_inv_def algebra_simps)
  then have "length (lh lg) + (length us + 1) * MAXOPBLOCKS \<le> LOGSIZE" by (simp only: of_nat_le_iff)
  moreover have "reserved_space (0 # us) \<le> (length us + 1) * MAXOPBLOCKS" using reserved_bound [of "0 # us"] by simp
  ultimately show ?thesis using assms(1) lg'(1) by (simp add: log_inv_def)
qed

lemma log_inv_write:
  assumes "log_inv lg s (us @ u # vs)" "u < MAXOPBLOCKS" "log_write b lg (set_block b x s) = Inr (lg', s')"
  shows "log_inv lg' s' (us @ Suc u # vs)"
proof -
  have p: "pins (set_block b x s) = pins s" by (simp add: set_block_def)
  have r: "Suc (reserved_space (us @ Suc u # vs)) = reserved_space (us @ u # vs)" using assms(2) by (simp add: reserved_space_def)
  have w: "(lg', s') = (if b \<in> set (lh lg) then (lg, set_block b x s) else (lg\<lparr>lh := lh lg @ [b]\<rparr>, bpin_block b (set_block b x s)))"
    using assms(3) by (auto simp: log_write_def split: if_splits)
  show ?thesis
  proof (cases "b \<in> set (lh lg)")
    case True
    then show ?thesis using w r p assms(1) by (simp add: log_inv_def)
  next
    case False
    moreover have "int (length (lh lg)) + 1 \<le> sint (lsize lg) - 1" using assms(3) by (auto simp: log_write_def split: if_splits)
    ultimately show ?thesis using w r p assms(1) by (simp add: log_inv_def bpin_block_def)
  qed
qed

lemma count_distinct: "distinct xs \<Longrightarrow> count_list xs b = (if b \<in> set xs then 1 else 0)"
  by (induction xs) auto

lemma commit_pins: "distinct (lh lg) \<Longrightarrow> pins (snd (commit lg s)) b = pins s b - (if b \<in> set (lh lg) then 1 else 0)"
proof (cases "lh lg = []")
  case False
  assume d: "distinct (lh lg)"
  have f: "pins (fold (\<lambda>t s. bwrite_block (f t) (set_block (f t) (g t s) s)) ts s) = pins s" for f g ts s
    by (induction ts arbitrary: s) (simp_all add: bwrite_block_def set_block_def)
  have h: "pins (write_head l s) = pins s" for l s by (simp add: write_head_def bwrite_block_def set_block_def)
  have w: "pins (write_log lg s) = pins s" unfolding write_log_def by (rule f)
  from install_pins [of False lg "write_head lg (write_log lg s)"]
  have "pins (install_trans False lg (write_head lg (write_log lg s))) b = pins s b - int (count_list (lh lg) b)"
    by (auto simp: h w)
  moreover have "count_list (lh lg) b = (if b \<in> set (lh lg) then 1 else 0)" by (rule count_distinct [OF d])
  ultimately show ?thesis using False by (simp add: commit_def Let_def h)
qed (simp add: commit_def)

lemma log_inv_end:
  assumes "log_inv lg s (us @ u # vs)" "end_op lg s = Inr (lg', s')"
  shows "log_inv lg' s' (us @ vs)"
proof (cases "outstanding lg = 1")
  case True
  then have "length us + length vs = 0" using assms(1) by (simp add: log_inv_def flip: of_nat_add)
  then have e: "us = []" "vs = []" by simp_all
  let ?lg = "lg\<lparr>outstanding := 0, committing := True\<rparr>"
  have c: "lg' = (fst (commit ?lg s))\<lparr>committing := False\<rparr>" "s' = snd (commit ?lg s)"
    using assms True by (auto simp: end_op_def end_op_enter_def log_inv_def Let_def split: prod.splits)
  have "lh lg' = [] \<and> outstanding lg' = 0 \<and> \<not> committing lg'"
    unfolding c by (auto simp: commit_def Let_def)
  moreover have "pins s' b = 0" for b
    unfolding c(2) using commit_pins [of ?lg s b] assms(1) by (simp add: log_inv_def)
  ultimately show ?thesis by (simp add: e log_inv_def reserved_space_def)
next
  case False
  have r: "reserved_space (us @ vs) \<le> reserved_space (us @ u # vs)" by (simp add: reserved_space_def)
  have "lg' = lg\<lparr>outstanding := outstanding lg - 1\<rparr>" "s' = s"
    using assms False by (auto simp: end_op_def end_op_enter_def log_inv_def Let_def split: if_splits)
  then show ?thesis using assms(1) r by (simp add: log_inv_def)
qed

lemma log_run_inv: "log_run lg s us \<Longrightarrow> log_inv lg s us"
proof (induction rule: log_run.induct)
  case (lr_init lg s)
  then show ?case by (simp add: log_inv_def reserved_space_def)
qed (blast intro: log_inv_begin log_inv_write log_inv_end)+

lemma log_run_writes:
  assumes "log_run lg s (us @ u # vs)" "lsize lg = 30" "lh lg = map of_nat [0..<n]" "u + k \<le> MAXOPBLOCKS" "n + k \<le> 29"
  shows "\<exists>lg' s'. log_run lg' s' (us @ (u + k) # vs) \<and> lsize lg' = 30 \<and> lh lg' = map of_nat [0..<n + k]"
  using assms(4,5)
proof (induction k)
  case 0
  then show ?case using assms(1-3) by auto
next
  case (Suc k)
  then obtain lg' s' where l: "log_run lg' s' (us @ (u + k) # vs)" "lsize lg' = 30" "lh lg' = map of_nat [0..<n + k]" by auto
  have "outstanding lg' \<ge> 1" using log_run_inv [OF l(1)] by (simp add: log_inv_def)
  moreover have "(of_nat (n + k) :: u32) \<notin> set (lh lg')"
  proof
    assume "(of_nat (n + k) :: u32) \<in> set (lh lg')"
    then obtain i where i: "i < n + k" "(of_nat (n + k) :: u32) = of_nat i" using l(3) by auto
    have "unat (of_nat j :: u32) = j" if "j \<le> 30" for j using that by (simp add: unsigned_of_nat take_bit_eq_mod)
    then have "n + k = i" using arg_cong [OF i(2), of unat] i(1) Suc.prems(2) by (simp del: of_nat_add)
    then show False using i(1) by simp
  qed
  ultimately have w: "log_write (of_nat (n + k)) lg' (set_block (of_nat (n + k)) x s') =
      Inr (lg'\<lparr>lh := lh lg' @ [of_nat (n + k)]\<rparr>, bpin_block (of_nat (n + k)) (set_block (of_nat (n + k)) x s'))" for x
    using Suc.prems l(2,3) by (auto simp: log_write_def LOGSIZE_def)
  have "u + k < MAXOPBLOCKS" using Suc.prems by simp
  note n = lr_write [OF l(1) this w [of undefined]]
  show ?case using n l(2,3)
    by (intro exI [of _ "lg'\<lparr>lh := lh lg' @ [of_nat (n + k)]\<rparr>"]
      exI [of _ "bpin_block (of_nat (n + k)) (set_block (of_nat (n + k)) undefined s')"]) simp
qed

section \<open>Properties\<close>

text \<open>
  C1. Crash safety: if the machine stops after any number k of the block writes of a commit, recovery
  on the next boot succeeds and leaves on the disk either every home block as before the transaction
  or every home block as the transaction changed it, never a mixture; after all writes it is the
  latter.
\<close>

theorem log_crash_safe:
  assumes "trans_ok lg (lh lg)" "lh lg \<noteq> []" "writes s = []"
    "length (d0 (start lg)) = 1024" "get32 (d0 (start lg)) 0 = 0" "\<forall>b. b \<notin> set (lh lg) \<longrightarrow> cache s b = d0 b"
    "ws = writes (snd (commit lg s))" "k \<le> length ws"
  shows "\<exists>d'. recovered lg (apply_writes (take k ws) d0) = Some d' \<and>
    ((\<forall>b. b \<notin> log_region lg \<longrightarrow> d' b = d0 b) \<and> k < length ws \<or> (\<forall>b. b \<notin> log_region lg \<longrightarrow> d' b = cache s b))"
proof -
  define bs where "bs = lh lg"
  let ?n = "length bs"
  have ok: "trans_ok lg bs" and n: "?n \<le> LOGSIZE" "?n < unat (lsize lg)" and ne: "bs \<noteq> []" and co: "\<forall>b. b \<notin> set bs \<longrightarrow> cache s b = d0 b"
    using assms(1,2,6) by (simp_all add: bs_def trans_ok_def)
  have sz: "0 < unat (lsize lg)" using n(2) by linarith
  have sa: "cache s (start lg) = d0 (start lg)"
    using assms(1,6) slot_region(2) [OF sz] by (auto simp: trans_ok_def disjoint_iff)
  define W1 where "W1 = map (\<lambda>t. (slot lg t, cache s (bs ! t))) [0..<?n]"
  define W2 where "W2 = map (\<lambda>t. (bs ! t, cache s (bs ! t))) [0..<?n]"
  define H where "H = header (d0 (start lg)) bs"
  from commit_writes [OF ok bs_def [symmetric] ne assms(3)] obtain h where
    ws: "ws = W1 @ (start lg, H) # W2 @ [(start lg, header h [])]" and h: "length h = 1024"
    unfolding W1_def W2_def H_def using sa assms(4,7) by auto
  have lw: "length W1 = ?n" "length W2 = ?n" by (simp_all add: W1_def W2_def)
  have mid: "d = apply_writes (take j W2) ((apply_writes W1 d0)(start lg := H)) \<Longrightarrow> j \<le> ?n \<Longrightarrow>
      (\<exists>d'. recovered lg d = Some d' \<and> (\<forall>b. b \<notin> log_region lg \<longrightarrow> d' b = cache s b)) \<and>
      (j = ?n \<longrightarrow> (\<forall>b. b \<notin> log_region lg \<longrightarrow> d b = cache s b))" for d j
    using crash_mid [OF ok assms(4) co, of j d] by (simp add: W1_def W2_def H_def take_map)
  consider "k \<le> ?n" | "?n < k" "k \<le> ?n + ?n + 1" | "k = ?n + ?n + 2"
    using assms(8) lw unfolding ws by fastforce
  then show ?thesis
  proof cases
    assume k: "k \<le> ?n"
    then have "take k ws = map (\<lambda>t. (slot lg t, cache s (bs ! t))) [0..<k]" by (simp add: ws W1_def take_map)
    moreover have "k < length ws" using k lw by (simp add: ws)
    ultimately show ?thesis
      using crash_before [of d0 lg k _ "\<lambda>t. cache s (bs ! t)"] assms(4,5) k n by auto
  next
    assume k: "?n < k" "k \<le> ?n + ?n + 1"
    define j where "j = k - ?n - 1"
    have j: "k = Suc (?n + j)" "j \<le> ?n" using k by (auto simp: j_def)
    then have "take k ws = W1 @ (start lg, H) # take j W2" using lw by (simp add: ws)
    then have "apply_writes (take k ws) d0 = apply_writes (take j W2) ((apply_writes W1 d0)(start lg := H))"
      by (simp add: apply_writes_def)
    then show ?thesis using mid [OF _ j(2)] by blast
  next
    assume k: "k = ?n + ?n + 2"
    define d where "d = apply_writes W2 ((apply_writes W1 d0)(start lg := H))"
    have "\<forall>b. b \<notin> log_region lg \<longrightarrow> d b = cache s b" using mid [of d ?n] lw by (simp add: d_def)
    moreover have "apply_writes (take k ws) d0 = d(start lg := header h [])"
      using lw by (simp add: ws k d_def apply_writes_def)
    moreover have "length (header h []) = 1024" using h by (simp add: header_def)
    moreover have "\<exists>d'. recovered lg (d(start lg := header h [])) = Some d' \<and> (\<forall>b. b \<notin> log_region lg \<longrightarrow> d' b = cache s b)"
    proof (rule crash_after [where bs = "[]" and h = h])
      fix b assume "b \<notin> log_region lg"
      then show "(d(start lg := header h [])) b = cache s b" using calculation(1) slot_region(2) [OF sz] by auto
    qed (use h sz calculation(3) in \<open>auto simp: trans_ok_def\<close>)
    ultimately show ?thesis by auto
  qed
qed

definition sample_log :: log where
  "sample_log = \<lparr>start = 2, lsize = 30, outstanding = 0, committing = True, lh = [46, 70]\<rparr>"

definition sample_dev :: diskc where
  "sample_dev = (\<lambda>b. replicate 1024 0)"

lemma sample_trans_ok: "trans_ok sample_log (lh sample_log)"
proof -
  have "(2 :: u32) + of_nat k \<noteq> 46 \<and> (2 :: u32) + of_nat k \<noteq> 70" if "k < 30" for k :: nat
  proof -
    have "unat ((2 :: u32) + of_nat k) = 2 + k" using that by (simp add: unat_word_ariths unsigned_of_nat take_bit_eq_mod)
    moreover have "unat (46 :: u32) = 46" "unat (70 :: u32) = 70" by simp_all
    ultimately show ?thesis using that by auto
  qed
  then show ?thesis by (auto simp: trans_ok_def sample_log_def log_region_def LOGSIZE_def)
qed

definition sample_cached :: dstate where
  "sample_cached = \<lparr>cache = sample_dev(46 := replicate 1024 1, 70 := replicate 1024 2), writes = [], pins = (\<lambda>b. if b = 46 \<or> b = 70 then 1 else 0)\<rparr>"

theorem log_crash_safe_witness:
  "\<exists>d'. recovered sample_log (apply_writes (take 4 (writes (snd (commit sample_log sample_cached)))) sample_dev) = Some d' \<and>
    ((\<forall>b. b \<notin> log_region sample_log \<longrightarrow> d' b = sample_dev b) \<or> (\<forall>b. b \<notin> log_region sample_log \<longrightarrow> d' b = cache sample_cached b))"
proof -
  let ?ws = "writes (snd (commit sample_log sample_cached))"
  have p: "lh sample_log \<noteq> []" "writes sample_cached = []" "length (sample_dev (start sample_log)) = 1024"
    "get32 (sample_dev (start sample_log)) 0 = 0" "\<forall>b. b \<notin> set (lh sample_log) \<longrightarrow> cache sample_cached b = sample_dev b"
    by (simp_all add: sample_log_def sample_cached_def sample_dev_def get32_def)
  have "4 \<le> length ?ws"
    using commit_writes [OF sample_trans_ok refl p(1,2)] by (auto simp: sample_log_def)
  from log_crash_safe [OF sample_trans_ok p(1,2,3,4,5) refl this] show ?thesis by blast
qed

text \<open>
  C11. Recovery can itself be interrupted: stopping it after any number j of its writes and running it
  again gives the same home blocks.
\<close>

theorem recovery_idempotent:
  assumes "trans_ok lg bs" "length (d (start lg)) = 1024" "sint (get32 (d (start lg)) 0) = int (length bs)"
    "get_words (d (start lg)) 4 (length bs) = bs" "recover_from_log lg (boot d) = Inr (lg1, s1)"
    "recovered lg d = Some d'" "j \<le> length (writes s1)"
  shows "\<exists>d''. recovered lg (apply_writes (take j (writes s1)) d) = Some d'' \<and> (\<forall>b. b \<notin> log_region lg \<longrightarrow> d'' b = d' b)"
proof -
  let ?n = "length bs"
  let ?W = "map (\<lambda>t. (bs ! t, d (slot lg t))) [0..<?n]"
  have sz: "0 < unat (lsize lg)" using assms(1) by (auto simp: trans_ok_def)
  from recover_writes [where d = d, OF assms(1,3,4)] have ws: "writes s1 = ?W @ [(start lg, header (d (start lg)) [])]"
    using assms(5) by auto
  from recovered_spec [where d = d, OF assms(1-4)] have d': "\<forall>t<?n. d' (bs ! t) = d (slot lg t)"
    "\<forall>b. b \<notin> set bs \<and> b \<noteq> start lg \<longrightarrow> d' b = d b" using assms(6) by auto
  define e where "e i = apply_writes (map (\<lambda>t. (bs ! t, d (slot lg t))) [0..<i]) d" for i
  have ea: "e i (start lg) = d (start lg)" if "i \<le> ?n" for i
    unfolding e_def using trans_home [OF assms(1)] that by (intro apply_map_miss) auto
  have es: "e i (slot lg t) = d (slot lg t)" if "i \<le> ?n" "t < ?n" for i t
    unfolding e_def using trans_home [OF assms(1)] slot_home [of t lg] that assms(1)
    by (intro apply_map_miss) (auto simp: trans_ok_def)
  have eb: "e i b = d b" if "i \<le> ?n" "b \<notin> set bs" for i b
    unfolding e_def using that by (intro apply_map_miss) auto
  have eh: "e ?n (bs ! t) = d (slot lg t)" if "t < ?n" for t
    unfolding e_def by (rule apply_map_hit [OF that trans_inj [OF assms(1)]])
  show ?thesis
  proof (cases "j \<le> ?n")
    case True
    then have "apply_writes (take j (writes s1)) d = e j" by (simp add: ws e_def take_map)
    moreover obtain d'' where "recovered lg (e j) = Some d''" "\<forall>t<?n. d'' (bs ! t) = e j (slot lg t)"
      "\<forall>b. b \<notin> set bs \<and> b \<noteq> start lg \<longrightarrow> d'' b = e j b"
      using recovered_spec [where d = "e j", OF assms(1)] assms(2-4) ea [OF True] by auto
    moreover have "d'' b = d' b" if "b \<notin> log_region lg" for b
    proof (cases "b \<in> set bs")
      case in_bs: True
      then obtain t where "t < ?n" "b = bs ! t" by (metis in_set_conv_nth)
      then show ?thesis using calculation(3) d'(1) es [OF True] by simp
    next
      case False
      moreover have "b \<noteq> start lg" using that slot_region(2) [OF sz] by auto
      ultimately show ?thesis using \<open>\<forall>b. b \<notin> set bs \<and> b \<noteq> start lg \<longrightarrow> d'' b = e j b\<close> d'(2) eb [OF True] by simp
    qed
    ultimately show ?thesis by auto
  next
    case False
    then have "take j (writes s1) = writes s1" using assms(7) ws by simp
    then have f: "apply_writes (take j (writes s1)) d = (e ?n)(start lg := header (d (start lg)) [])" by (simp add: ws e_def)
    have "\<exists>d''. recovered lg ((e ?n)(start lg := header (d (start lg)) [])) = Some d'' \<and> (\<forall>b. b \<notin> log_region lg \<longrightarrow> d'' b = d' b)"
    proof (rule crash_after [where bs = "[]" and h = "d (start lg)"])
      fix b assume b: "b \<notin> log_region lg"
      then have "b \<noteq> start lg" using slot_region(2) [OF sz] by auto
      then show "((e ?n)(start lg := header (d (start lg)) [])) b = d' b"
        using d' eb [of ?n b] eh by (cases "b \<in> set bs") (auto simp: in_set_conv_nth)
    qed (use assms(2) sz in \<open>auto simp: trans_ok_def header_def\<close>)
    then show ?thesis unfolding f .
  qed
qed

text \<open>A disk with a committed transaction of two blocks: recovery stops after the first and runs again.\<close>

definition sample_committed :: diskc where
  "sample_committed = sample_dev(2 := header (sample_dev 2) [46, 70], 3 := replicate 1024 1, 4 := replicate 1024 2)"

theorem recovery_idempotent_witness:
  "\<exists>lg s d''. recover_from_log sample_log (boot sample_committed) = Inr (lg, s) \<and> length (writes s) = 3 \<and>
     recovered sample_log (apply_writes (take 1 (writes s)) sample_committed) = Some d'' \<and>
     d'' 46 = replicate 1024 1 \<and> d'' 70 = replicate 1024 2"
proof -
  have ok: "trans_ok sample_log [46, 70]" using sample_trans_ok by (simp add: sample_log_def)
  have h0: "length (sample_dev 2) = 1024" "length [46 :: u32, 70] \<le> LOGSIZE" by (simp_all add: sample_dev_def LOGSIZE_def)
  have st: "sample_committed (start sample_log) = header (sample_dev 2) [46, 70]" by (simp add: sample_committed_def sample_log_def)
  note h = header_decode(3,1,2) [OF h0, folded st]
  from recover_writes [where d = sample_committed, OF ok h(2,3)] obtain lg' s where
    r: "recover_from_log sample_log (boot sample_committed) = Inr (lg', s)" "length (writes s) = 3" by auto
  from recovered_spec [where d = sample_committed, OF ok h] obtain d' where
    d': "recovered sample_log sample_committed = Some d'" "\<forall>t<2. d' ([46, 70] ! t) = sample_committed (slot sample_log t)"
    by auto
  have dd: "d' 46 = replicate 1024 1" "d' 70 = replicate 1024 2"
    using d'(2) [rule_format, of 0] d'(2) [rule_format, of 1] by (simp_all add: slot_def sample_log_def sample_committed_def)
  have home: "46 \<notin> log_region sample_log" "70 \<notin> log_region sample_log" using ok by (auto simp: trans_ok_def)
  from recovery_idempotent [where d = sample_committed, OF ok h r(1) d'(1), of 1] r obtain d'' where
    "recovered sample_log (apply_writes (take 1 (writes s)) sample_committed) = Some d''"
    "\<forall>b. b \<notin> log_region sample_log \<longrightarrow> d'' b = d' b" by auto
  then show ?thesis using r dd home by auto
qed



text \<open>
  C38. The log of mkfs is one block short: with the 30 log blocks it makes, three operations that each
  keep to their ten blocks are admitted together, and the last block makes log_write panic.
\<close>

theorem log_short_panic:
  "\<exists>lg s us. log_run lg s us \<and> lsize lg = 30 \<and> (\<exists>u\<in>set us. u < MAXOPBLOCKS) \<and>
     log_write 100 lg s = Inl (Panic ''too big a transaction'')"
proof -
  define l0 where "l0 = \<lparr>start = 2, lsize = 30, outstanding = 0, committing = False, lh = []\<rparr>"
  let ?s = "boot sample_dev"
  have "log_run l0 ?s []" by (rule lr_init) (simp_all add: l0_def boot_def)
  then have "log_run (l0\<lparr>outstanding := 1\<rparr>) ?s [0]"
    by (rule lr_begin) (simp add: begin_op_def l0_def MAXOPBLOCKS_def LOGSIZE_def)
  then have "log_run (l0\<lparr>outstanding := 2\<rparr>) ?s [0, 0]"
    by (rule lr_begin) (simp add: begin_op_def l0_def MAXOPBLOCKS_def LOGSIZE_def)
  then have "log_run (l0\<lparr>outstanding := 3\<rparr>) ?s ([] @ 0 # [0, 0])"
    by (simp add: lr_begin begin_op_def l0_def MAXOPBLOCKS_def LOGSIZE_def)
  from log_run_writes [OF this, of 0 10] obtain l1 s1 where
    l1: "log_run l1 s1 ([10] @ 0 # [0])" "lsize l1 = 30" "lh l1 = map of_nat [0..<10]"
    by (auto simp: l0_def MAXOPBLOCKS_def)
  from log_run_writes [OF this, of 10] obtain l2 s2 where
    l2: "log_run l2 s2 ([10, 10] @ 0 # [])" "lsize l2 = 30" "lh l2 = map of_nat [0..<20]"
    by (auto simp: MAXOPBLOCKS_def)
  from log_run_writes [OF this, of 9] obtain l3 s3 where
    l3: "log_run l3 s3 [10, 10, 9]" "lsize l3 = 30" "lh l3 = map of_nat [0..<29]"
    by (auto simp: MAXOPBLOCKS_def)
  have "log_write 100 l3 s3 = Inl (Panic ''too big a transaction'')" using l3 by (simp add: log_write_def)
  then show ?thesis using l3 by (intro exI [of _ l3] exI [of _ s3] exI [of _ "[10, 10, 9]"]) (simp add: MAXOPBLOCKS_def)
qed

end
