(* ===== verification/Xv6_Fs.thy ===== *)
theory Xv6_Fs
  imports Xv6_Log Xv6_String Xv6_Lock
begin

text \<open>
  The file system, fs.c: block allocator, inodes, file contents, directories and path names, on top of
  the log. An inode pointer is an index into the table of in-memory inodes. A call runs to its end in
  one process, whose pid it takes where it locks inodes; where it would sleep on an inode another
  process has locked, it yields Blocked. Reads and writes move bytes with either_copyout and
  either_copyin, here the parameters put and get: both report 0 or -1 and what they copied.
\<close>

section \<open>On-disk format\<close>

definition ROOTINO :: u32 where "ROOTINO = 1"
definition BSIZE :: u32 where "BSIZE = 1024"
definition FSMAGIC :: u32 where "FSMAGIC = 0x10203040"
definition NDIRECT :: u32 where "NDIRECT = 12"
definition NINDIRECT :: u32 where "NINDIRECT = BSIZE div 4"
definition MAXFILE :: u32 where "MAXFILE = NDIRECT + NINDIRECT"
definition IPB :: u32 where "IPB = BSIZE div 64"
definition BPB :: u32 where "BPB = BSIZE * 8"
definition DIRSIZ :: nat where "DIRSIZ = 14"
definition ROOTDEV :: u32 where "ROOTDEV = 1"
definition NINODE :: nat where "NINODE = 50"
definition T_DIR :: u16 where "T_DIR = 1"
definition T_FILE :: u16 where "T_FILE = 2"
definition T_DEVICE :: u16 where "T_DEVICE = 3"

record superblock =
  sb_magic :: u32
  sb_size :: u32
  sb_nblocks :: u32
  sb_ninodes :: u32
  sb_nlog :: u32
  sb_logstart :: u32
  sb_inodestart :: u32
  sb_bmapstart :: u32

definition IBLOCK :: "u32 \<Rightarrow> superblock \<Rightarrow> u32" where
  "IBLOCK i sb = i div IPB + sb_inodestart sb"

definition BBLOCK :: "u32 \<Rightarrow> superblock \<Rightarrow> u32" where
  "BBLOCK b sb = b div BPB + sb_bmapstart sb"

section \<open>State\<close>

record inode =
  idev :: u32
  inum :: u32
  iref :: int
  ilk :: sleeplock
  ivalid :: bool
  is_vault :: int
  vault_id :: int
  vault_open :: int
  itype :: u16
  imajor :: u16
  iminor :: u16
  inlink :: u16
  isize :: u32
  iaddrs :: "u32 list"

record fs =
  sb :: superblock
  flog :: log
  dsk :: dstate
  itab :: "inode list"

abbreviation ino :: "fs \<Rightarrow> nat \<Rightarrow> inode" where
  "ino s ip \<equiv> itab s ! ip"

definition upd_inode :: "nat \<Rightarrow> (inode \<Rightarrow> inode) \<Rightarrow> fs \<Rightarrow> fs" where
  "upd_inode ip f s = s\<lparr>itab := (itab s)[ip := f (ino s ip)]\<rparr>"

abbreviation blk :: "fs \<Rightarrow> u32 \<Rightarrow> block" where
  "blk s b \<equiv> cache (dsk s) b"

text \<open>Give a buffer new contents; and the idiom change the buffer, then log_write it.\<close>

definition bset :: "u32 \<Rightarrow> block \<Rightarrow> fs \<Rightarrow> fs" where
  "bset b d s = s\<lparr>dsk := set_block b d (dsk s)\<rparr>"

definition fs_log_write :: "u32 \<Rightarrow> fs \<Rightarrow> fs kr" where
  "fs_log_write b s = kbind (log_write b (flog s) (dsk s)) (\<lambda>(lg, d). Inr (s\<lparr>flog := lg, dsk := d\<rparr>))"

definition bupdate :: "u32 \<Rightarrow> block \<Rightarrow> fs \<Rightarrow> fs kr" where
  "bupdate b d s = fs_log_write b (bset b d s)"

section \<open>Super block\<close>

definition readsb :: "fs \<Rightarrow> superblock" where
  "readsb s = (let d = blk s 1 in
     \<lparr>sb_magic = get32 d 0, sb_size = get32 d 4, sb_nblocks = get32 d 8, sb_ninodes = get32 d 12,
      sb_nlog = get32 d 16, sb_logstart = get32 d 20, sb_inodestart = get32 d 24, sb_bmapstart = get32 d 28\<rparr>)"

definition fsinit :: "fs \<Rightarrow> fs kr" where
  "fsinit s =
     (let s = s\<lparr>sb := readsb s\<rparr> in
      if sb_magic (sb s) \<noteq> FSMAGIC then Inl (Panic ''invalid file system'')
      else kbind (initlog (flog s) (sb_logstart (sb s)) (sb_nlog (sb s)) (dsk s)) (\<lambda>(lg, d).
        Inr (s\<lparr>flog := lg, dsk := d\<rparr>)))"

section \<open>Blocks\<close>

definition bzero :: "u32 \<Rightarrow> fs \<Rightarrow> fs kr" where
  "bzero bno s = bupdate bno (replicate 1024 0) s"

definition bit_mask :: "nat \<Rightarrow> byte" where
  "bit_mask bi = push_bit (bi mod 8) 1"

text \<open>
  The scan of one bitmap block, and the scan over the bitmap blocks; b and bi are natural numbers, as
  the file system has fewer than 2^31 blocks.
\<close>

function balloc_bits :: "block \<Rightarrow> nat \<Rightarrow> nat \<Rightarrow> nat \<Rightarrow> nat option" where
  "balloc_bits d sz b bi =
     (if bi < unat BPB \<and> b + bi < sz then
        if d ! (bi div 8) AND bit_mask bi = 0 then Some bi else balloc_bits d sz b (bi + 1)
      else None)"
  by pat_completeness auto
termination
  by (relation "measure (\<lambda>(d, sz, b, bi). sz - (b + bi))") auto

declare balloc_bits.simps [simp del]

function balloc_from :: "nat \<Rightarrow> fs \<Rightarrow> (u32 \<times> fs) kr" where
  "balloc_from b s =
     (if b < unat (sb_size (sb s)) then
        let bb = BBLOCK (of_nat b) (sb s); d = blk s bb in
        case balloc_bits d (unat (sb_size (sb s))) b 0 of
          Some bi \<Rightarrow>
            kbind (bupdate bb (d[bi div 8 := d ! (bi div 8) OR bit_mask bi]) s) (\<lambda>s.
            kbind (bzero (of_nat (b + bi)) s) (\<lambda>s.
            Inr (of_nat (b + bi), s)))
        | None \<Rightarrow> balloc_from (b + unat BPB) s
      else Inr (0, s))"
  by pat_completeness auto
termination
  by (relation "measure (\<lambda>(b, s). unat (sb_size (sb s)) - b)") (auto simp: BPB_def BSIZE_def)

declare balloc_from.simps [simp del]

definition balloc :: "fs \<Rightarrow> (u32 \<times> fs) kr" where
  "balloc s = balloc_from 0 s"

definition bfree :: "u32 \<Rightarrow> fs \<Rightarrow> fs kr" where
  "bfree b s =
     (let bb = BBLOCK b (sb s); d = blk s bb; bi = unat (b mod BPB); m = bit_mask bi in
      if d ! (bi div 8) AND m = 0 then Inl (Panic ''freeing free block'')
      else bupdate bb (d[bi div 8 := d ! (bi div 8) AND NOT m]) s)"

section \<open>Inodes\<close>

definition iinit :: "fs \<Rightarrow> fs" where
  "iinit s = s\<lparr>itab := map (\<lambda>ip. ip\<lparr>ilk := initsleeplock\<rparr>) (itab s)\<rparr>"

text \<open>iget: the scan stops at the inode, or else returns the first empty slot it has seen.\<close>

fun iget_scan :: "inode list \<Rightarrow> u32 \<Rightarrow> u32 \<Rightarrow> nat \<Rightarrow> nat option \<Rightarrow> nat + nat option" where
  "iget_scan [] dv inm i emp = Inr emp"
| "iget_scan (ip # ips) dv inm i emp =
     (if iref ip > 0 \<and> idev ip = dv \<and> inum ip = inm then Inl i
      else iget_scan ips dv inm (i + 1) (if emp = None \<and> iref ip = 0 then Some i else emp))"

definition iget :: "u32 \<Rightarrow> u32 \<Rightarrow> fs \<Rightarrow> (nat \<times> fs) kr" where
  "iget dv inm s =
     (case iget_scan (itab s) dv inm 0 None of
        Inl ip \<Rightarrow> Inr (ip, upd_inode ip (\<lambda>i. i\<lparr>iref := iref i + 1\<rparr>) s)
      | Inr None \<Rightarrow> Inl (Panic ''iget: no inodes'')
      | Inr (Some ip) \<Rightarrow> Inr (ip, upd_inode ip (\<lambda>i. i\<lparr>idev := dv, inum := inm, iref := 1, ivalid := False\<rparr>) s))"

definition idup :: "nat \<Rightarrow> fs \<Rightarrow> nat \<times> fs" where
  "idup ip s = (ip, upd_inode ip (\<lambda>i. i\<lparr>iref := iref i + 1\<rparr>) s)"

text \<open>A struct dinode at offset j of a block: the fields of an in-memory inode that live on disk.\<close>

definition dip_at :: "u32 \<Rightarrow> nat" where
  "dip_at inm = 64 * unat (inm mod IPB)"

definition dinode_put :: "block \<Rightarrow> nat \<Rightarrow> inode \<Rightarrow> block" where
  "dinode_put d j i =
     put_words (put32 (put16 (put16 (put16 (put16 d j (itype i)) (j + 2) (imajor i)) (j + 4) (iminor i)) (j + 6) (inlink i))
       (j + 8) (isize i)) (j + 12) (iaddrs i)"

definition dinode_get :: "block \<Rightarrow> nat \<Rightarrow> inode \<Rightarrow> inode" where
  "dinode_get d j i = i\<lparr>itype := get16 d j, imajor := get16 d (j + 2), iminor := get16 d (j + 4),
     inlink := get16 d (j + 6), isize := get32 d (j + 8), iaddrs := get_words d (j + 12) 13\<rparr>"

definition zero_dinode :: "block \<Rightarrow> nat \<Rightarrow> block" where
  "zero_dinode d j = take j d @ replicate 64 0 @ drop (j + 64) d"

text \<open>ialloc scans the inodes in the order of the given numbers; None is the null pointer.\<close>

fun ialloc_scan :: "u32 list \<Rightarrow> u32 \<Rightarrow> u16 \<Rightarrow> fs \<Rightarrow> (nat option \<times> fs) kr" where
  "ialloc_scan [] dv type s = Inr (None, s)"
| "ialloc_scan (inm # inms) dv type s =
     (let bb = IBLOCK inm (sb s); d = blk s bb; j = dip_at inm in
      if get16 d j = 0 then
        kbind (bupdate bb (put16 (zero_dinode d j) j type) s) (\<lambda>s.
        kbind (iget dv inm s) (\<lambda>(ip, s). Inr (Some ip, s)))
      else ialloc_scan inms dv type s)"

definition ialloc :: "u32 \<Rightarrow> u16 \<Rightarrow> fs \<Rightarrow> (nat option \<times> fs) kr" where
  "ialloc dv type s = ialloc_scan (map of_nat [1..<unat (sb_ninodes (sb s))]) dv type s"

definition iupdate :: "nat \<Rightarrow> fs \<Rightarrow> fs kr" where
  "iupdate ip s =
     (let i = ino s ip; bb = IBLOCK (inum i) (sb s) in
      bupdate bb (dinode_put (blk s bb) (dip_at (inum i)) i) s)"

definition ilock :: "int \<Rightarrow> nat \<Rightarrow> fs \<Rightarrow> fs kr" where
  "ilock pid ip s =
     (if iref (ino s ip) < 1 then Inl (Panic ''ilock'')
      else case acquiresleep pid (ilk (ino s ip)) of
        None \<Rightarrow> Inl (Blocked ''ilock'')
      | Some l \<Rightarrow>
          let s = upd_inode ip (\<lambda>i. i\<lparr>ilk := l\<rparr>) s in
          if \<not> ivalid (ino s ip) then
            let i = ino s ip;
                s = upd_inode ip (\<lambda>i. (dinode_get (blk s (IBLOCK (inum i) (sb s))) (dip_at (inum i)) i)\<lparr>ivalid := True\<rparr>) s in
            if itype (ino s ip) = 0 then Inl (Panic ''ilock: no type'') else Inr s
          else Inr s)"

text \<open>The processes that releasesleep wakes are not part of the state of the file system.\<close>

definition iunlock :: "int \<Rightarrow> nat \<Rightarrow> fs \<Rightarrow> fs kr" where
  "iunlock pid ip s =
     (if \<not> holdingsleep pid (ilk (ino s ip)) \<or> iref (ino s ip) < 1 then Inl (Panic ''iunlock'')
      else Inr (upd_inode ip (\<lambda>i. i\<lparr>ilk := fst (releasesleep ip (ilk i))\<rparr>) s))"

section \<open>Inode contents\<close>

definition bmap_direct :: "nat \<Rightarrow> nat \<Rightarrow> fs \<Rightarrow> (u32 \<times> fs) kr" where
  "bmap_direct ip bn s =
     (let addr = iaddrs (ino s ip) ! bn in
      if addr = 0 then
        kbind (balloc s) (\<lambda>(addr, s).
          if addr = 0 then Inr (0, s)
          else Inr (addr, upd_inode ip (\<lambda>i. i\<lparr>iaddrs := (iaddrs i)[bn := addr]\<rparr>) s))
      else Inr (addr, s))"

definition bmap :: "nat \<Rightarrow> u32 \<Rightarrow> fs \<Rightarrow> (u32 \<times> fs) kr" where
  "bmap ip bn s =
     (if bn < NDIRECT then bmap_direct ip (unat bn) s
      else let bn = bn - NDIRECT in
      if bn < NINDIRECT then
        kbind (bmap_direct ip (unat NDIRECT) s) (\<lambda>(ind, s).
          if ind = 0 then Inr (0, s)
          else let addr = get32 (blk s ind) (4 * unat bn) in
            if addr = 0 then
              kbind (balloc s) (\<lambda>(addr, s).
                if addr \<noteq> 0 then
                  kbind (bupdate ind (put32 (blk s ind) (4 * unat bn) addr) s) (\<lambda>s. Inr (addr, s))
                else Inr (addr, s))
            else Inr (addr, s))
      else Inl (Panic ''bmap: out of range''))"

definition itrunc :: "nat \<Rightarrow> fs \<Rightarrow> fs kr" where
  "itrunc ip s =
     kbind (kfold (\<lambda>j s.
         let a = iaddrs (ino s ip) ! j in
         if a \<noteq> 0 then
           kbind (bfree a s) (\<lambda>s. Inr (upd_inode ip (\<lambda>i. i\<lparr>iaddrs := (iaddrs i)[j := 0]\<rparr>) s))
         else Inr s) [0..<unat NDIRECT] s) (\<lambda>s.
     kbind (let ind = iaddrs (ino s ip) ! unat NDIRECT in
         if ind \<noteq> 0 then
           kbind (kfold (\<lambda>j s. let a = get32 (blk s ind) (4 * j) in if a \<noteq> 0 then bfree a s else Inr s)
             [0..<unat NINDIRECT] s) (\<lambda>s.
           kbind (bfree ind s) (\<lambda>s.
           Inr (upd_inode ip (\<lambda>i. i\<lparr>iaddrs := (iaddrs i)[unat NDIRECT := 0]\<rparr>) s)))
         else Inr s) (\<lambda>s.
     iupdate ip (upd_inode ip (\<lambda>i. i\<lparr>isize := 0\<rparr>) s)))"

definition iput :: "int \<Rightarrow> nat \<Rightarrow> fs \<Rightarrow> fs kr" where
  "iput pid ip s =
     kbind (if iref (ino s ip) = 1 \<and> ivalid (ino s ip) \<and> inlink (ino s ip) = 0 then
         case acquiresleep pid (ilk (ino s ip)) of
           None \<Rightarrow> Inl (Blocked ''iput'')
         | Some l \<Rightarrow>
             kbind (itrunc ip (upd_inode ip (\<lambda>i. i\<lparr>ilk := l\<rparr>) s)) (\<lambda>s.
             kbind (iupdate ip (upd_inode ip (\<lambda>i. i\<lparr>itype := 0\<rparr>) s)) (\<lambda>s.
             Inr (upd_inode ip (\<lambda>i. i\<lparr>ivalid := False, ilk := fst (releasesleep ip (ilk i))\<rparr>) s)))
       else Inr s) (\<lambda>s.
     Inr (upd_inode ip (\<lambda>i. i\<lparr>iref := iref i - 1\<rparr>) s))"

definition iunlockput :: "int \<Rightarrow> nat \<Rightarrow> fs \<Rightarrow> fs kr" where
  "iunlockput pid ip s = kbind (iunlock pid ip s) (iput pid ip)"

record stat =
  st_dev :: int
  st_ino :: u32
  st_type :: u16
  st_nlink :: u16
  st_size :: u64
  st_is_vault :: int
  st_vault_id :: int
  st_vault_open :: int

definition stati :: "inode \<Rightarrow> stat \<Rightarrow> stat" where
  "stati i st = st\<lparr>st_dev := sint (idev i), st_ino := inum i, st_type := itype i, st_nlink := inlink i,
     st_size := ucast (isize i), st_is_vault := is_vault i, st_vault_id := vault_id i\<rparr>"

type_synonym 'm putter = "'m \<Rightarrow> u64 \<Rightarrow> byte list \<Rightarrow> (int \<times> 'm) kr"
type_synonym 'm getter = "'m \<Rightarrow> u64 \<Rightarrow> nat \<Rightarrow> (int \<times> byte list) kr"

text \<open>The bytes bs of a block from position k on; and a block with bs at k.\<close>

definition chunk :: "block \<Rightarrow> nat \<Rightarrow> nat \<Rightarrow> byte list" where
  "chunk d k n = take n (drop k d)"

definition patch :: "byte list \<Rightarrow> nat \<Rightarrow> byte list \<Rightarrow> byte list" where
  "patch d k bs = take k d @ bs @ drop (k + length bs) d"

lemma chunk_pos: "tot < n \<Longrightarrow> 0 < min (n - tot) (BSIZE - off mod BSIZE)"
proof -
  assume "tot < n"
  then have "0 < n - tot" by (simp add: word_less_nat_alt unat_sub word_le_nat_alt)
  moreover have "unat (off mod 1024 :: u32) < 1024" by (simp add: unat_mod)
  then have "(0 :: u32) < 1024 - off mod 1024"
    by (simp add: word_less_nat_alt unat_sub word_le_nat_alt)
  ultimately show ?thesis by (simp add: BSIZE_def)
qed

lemma chunk_decr: "tot < n \<Longrightarrow> unat (n - (tot + min (n - tot) (BSIZE - off mod BSIZE))) < unat (n - tot :: u32)"
proof -
  assume a: "tot < n"
  define k where "k = min (n - tot) (BSIZE - off mod BSIZE)"
  have k: "0 < k" "k \<le> n - tot" using chunk_pos [OF a, of off] by (simp_all add: k_def)
  have "unat (n - tot - k) = unat (n - tot) - unat k" by (rule unat_sub [OF k(2)])
  then have "unat (n - (tot + k)) = unat (n - tot) - unat k" by (simp add: diff_diff_add)
  moreover have "0 < unat k" "unat k \<le> unat (n - tot)" using k by (simp_all add: word_less_nat_alt word_le_nat_alt)
  ultimately show ?thesis by (simp add: k_def)
qed

function readi_loop :: "'m putter \<Rightarrow> nat \<Rightarrow> u64 \<Rightarrow> u32 \<Rightarrow> u32 \<Rightarrow> u32 \<Rightarrow> 'm \<Rightarrow> fs \<Rightarrow> (u32 \<times> 'm \<times> fs) kr" where
  "readi_loop put ip dst off n tot m s =
     (if tot < n then
        kbind (bmap ip (off div BSIZE) s) (\<lambda>(addr, s).
          if addr = 0 then Inr (tot, m, s)
          else let k = min (n - tot) (BSIZE - off mod BSIZE) in
            kbind (put m dst (chunk (blk s addr) (unat (off mod BSIZE)) (unat k))) (\<lambda>(r, m).
              if r = -1 then Inr (-1, m, s)
              else readi_loop put ip (dst + ucast k) (off + k) n (tot + k) m s))
      else Inr (tot, m, s))"
  by pat_completeness auto
termination
  by (relation "measure (\<lambda>(put, ip, dst, off, n, tot, m, s). unat (n - tot))") (auto simp: chunk_decr)

declare readi_loop.simps [simp del]

definition readi :: "'m putter \<Rightarrow> nat \<Rightarrow> u64 \<Rightarrow> u32 \<Rightarrow> u32 \<Rightarrow> 'm \<Rightarrow> fs \<Rightarrow> (int \<times> 'm \<times> fs) kr" where
  "readi put ip dst off n m s =
     (let i = ino s ip in
      if is_vault i \<noteq> 0 \<and> vault_open i = 0 then Inr (-1, m, s)
      else if off > isize i \<or> off + n < off then Inr (0, m, s)
      else let n = (if off + n > isize i then isize i - off else n) in
        kbind (readi_loop put ip dst off n 0 m s) (\<lambda>(tot, m, s). Inr (sint tot, m, s)))"

text \<open>
  The loop of writei; it returns off and tot. A copy that fails half way leaves the bytes it copied in
  the buffer, which is then not logged.
\<close>

function writei_loop :: "'m getter \<Rightarrow> nat \<Rightarrow> u64 \<Rightarrow> u32 \<Rightarrow> u32 \<Rightarrow> u32 \<Rightarrow> 'm \<Rightarrow> fs \<Rightarrow> (u32 \<times> u32 \<times> fs) kr" where
  "writei_loop get ip src off n tot m s =
     (if tot < n then
        kbind (bmap ip (off div BSIZE) s) (\<lambda>(addr, s).
          if addr = 0 then Inr (off, tot, s)
          else let k = min (n - tot) (BSIZE - off mod BSIZE) in
            kbind (get m src (unat k)) (\<lambda>(r, bs).
              let s = bset addr (patch (blk s addr) (unat (off mod BSIZE)) bs) s in
              if r = -1 then Inr (off, tot, s)
              else kbind (fs_log_write addr s) (\<lambda>s.
                writei_loop get ip (src + ucast k) (off + k) n (tot + k) m s)))
      else Inr (off, tot, s))"
  by pat_completeness auto
termination
  by (relation "measure (\<lambda>(get, ip, src, off, n, tot, m, s). unat (n - tot))") (auto simp: chunk_decr)

declare writei_loop.simps [simp del]

definition writei :: "'m getter \<Rightarrow> nat \<Rightarrow> u64 \<Rightarrow> u32 \<Rightarrow> u32 \<Rightarrow> 'm \<Rightarrow> fs \<Rightarrow> (int \<times> fs) kr" where
  "writei get ip src off n m s =
     (if off > isize (ino s ip) \<or> off + n < off then Inr (-1, s)
      else if off + n > MAXFILE * BSIZE then Inr (-1, s)
      else kbind (writei_loop get ip src off n 0 m s) (\<lambda>(off, tot, s).
        let s = (if off > isize (ino s ip) then upd_inode ip (\<lambda>i. i\<lparr>isize := off\<rparr>) s else s) in
        kbind (iupdate ip s) (\<lambda>s. Inr (sint tot, s))))"

section \<open>Directories\<close>

text \<open>Copies to and from a variable of the kernel, addressed from its first byte.\<close>

definition kput :: "byte list putter" where
  "kput buf dst bs = Inr (0, patch buf (unat dst) bs)"

definition kget :: "byte list getter" where
  "kget buf src n = Inr (0, chunk buf (unat src) n)"

definition namecmp :: "byte list \<Rightarrow> byte list \<Rightarrow> int kr" where
  "namecmp s t = (case strncmp s t DIRSIZ of None \<Rightarrow> Inl (Fault ''strncmp'') | Some r \<Rightarrow> Inr r)"

text \<open>
  A struct dirent: two bytes of inode number, then the name. The loops over a directory visit the
  offsets 0, 16, ... below its size, which the reads in between do not change.
\<close>

definition de_inum :: "byte list \<Rightarrow> u16" where
  "de_inum de = get16 de 0"

definition de_name :: "byte list \<Rightarrow> byte list" where
  "de_name de = drop 2 de"

definition dirents :: "u32 \<Rightarrow> nat" where
  "dirents sz = (unat sz + 15) div 16"

definition read_dirent :: "string \<Rightarrow> nat \<Rightarrow> u32 \<Rightarrow> fs \<Rightarrow> (byte list \<times> fs) kr" where
  "read_dirent msg dp off s =
     kbind (readi kput dp 0 off 16 (replicate 16 0) s) (\<lambda>(r, de, s).
       if r \<noteq> 16 then Inl (Panic msg) else Inr (de, s))"

fun dirlookup_from :: "nat list \<Rightarrow> nat \<Rightarrow> byte list \<Rightarrow> fs \<Rightarrow> ((u16 \<times> u32) option \<times> fs) kr" where
  "dirlookup_from [] dp name s = Inr (None, s)"
| "dirlookup_from (k # ks) dp name s =
     kbind (read_dirent ''dirlookup read'' dp (of_nat (16 * k)) s) (\<lambda>(de, s).
       if de_inum de = 0 then dirlookup_from ks dp name s
       else kbind (namecmp name (de_name de)) (\<lambda>r.
         if r = 0 then Inr (Some (de_inum de, of_nat (16 * k)), s) else dirlookup_from ks dp name s))"

text \<open>dirlookup returns the inode and the offset of its entry.\<close>

definition dirlookup :: "nat \<Rightarrow> byte list \<Rightarrow> fs \<Rightarrow> ((nat \<times> u32) option \<times> fs) kr" where
  "dirlookup dp name s =
     (if itype (ino s dp) \<noteq> T_DIR then Inl (Panic ''dirlookup not DIR'')
      else kbind (dirlookup_from [0..<dirents (isize (ino s dp))] dp name s) (\<lambda>(r, s).
        case r of
          None \<Rightarrow> Inr (None, s)
        | Some (inm, off) \<Rightarrow> kbind (iget (idev (ino s dp)) (ucast inm) s) (\<lambda>(ip, s). Inr (Some (ip, off), s))))"

fun dirlink_slot :: "nat list \<Rightarrow> nat \<Rightarrow> nat \<Rightarrow> fs \<Rightarrow> (nat \<times> fs) kr" where
  "dirlink_slot [] endk dp s = Inr (endk, s)"
| "dirlink_slot (k # ks) endk dp s =
     kbind (read_dirent ''dirlink read'' dp (of_nat (16 * k)) s) (\<lambda>(de, s).
       if de_inum de = 0 then Inr (k, s) else dirlink_slot ks endk dp s)"

definition dirlink :: "int \<Rightarrow> nat \<Rightarrow> byte list \<Rightarrow> u32 \<Rightarrow> fs \<Rightarrow> (int \<times> fs) kr" where
  "dirlink pid dp name inm s =
     kbind (dirlookup dp name s) (\<lambda>(r, s).
       case r of
         Some (ip, off) \<Rightarrow> kbind (iput pid ip s) (\<lambda>s. Inr (-1, s))
       | None \<Rightarrow>
           let k = dirents (isize (ino s dp)) in
           kbind (dirlink_slot [0..<k] k dp s) (\<lambda>(k, s).
             case strncpy (replicate DIRSIZ 0) name DIRSIZ of
               None \<Rightarrow> Inl (Fault ''strncpy'')
             | Some nm \<Rightarrow>
                 kbind (writei kget dp 0 (of_nat (16 * k)) 16 (put16 [0, 0] 0 (ucast inm) @ nm) s) (\<lambda>(r, s).
                   Inr (if r \<noteq> 16 then -1 else 0, s))))"

section \<open>Path names\<close>

text \<open>
  A path is the list of its characters without the final NUL; name is the array of DIRSIZ bytes the
  caller provides. None is the null pointer.
\<close>

definition skipelem :: "byte list \<Rightarrow> byte list \<Rightarrow> (byte list \<times> byte list) option" where
  "skipelem path name =
     (let path = dropWhile (\<lambda>c. c = 47) path in
      if path = [] then None
      else let s = takeWhile (\<lambda>c. c \<noteq> 47) path; path = dropWhile (\<lambda>c. c \<noteq> 47) path;
               name = (if length s \<ge> DIRSIZ then patch name 0 (take DIRSIZ s) else patch name 0 (s @ [0]))
        in Some (dropWhile (\<lambda>c. c = 47) path, name))"

lemma skipelem_shorter: "skipelem path name = Some (path', name') \<Longrightarrow> length path' < length path"
proof -
  assume s: "skipelem path name = Some (path', name')"
  define p where "p = dropWhile (\<lambda>c. c = 47) path"
  have p: "p \<noteq> []" "path' = dropWhile (\<lambda>c. c = 47) (dropWhile (\<lambda>c. c \<noteq> 47) p)"
    using s by (auto simp: skipelem_def p_def Let_def split: if_splits)
  have "hd p \<noteq> 47" using p(1) hd_dropWhile [of "\<lambda>c. c = 47" path] unfolding p_def by metis
  then have "length (dropWhile (\<lambda>c. c \<noteq> 47) p) < length p"
    using p(1) length_dropWhile_le [of "\<lambda>c. c \<noteq> 47" "tl p"] by (cases p) (auto simp: le_imp_less_Suc)
  then show ?thesis
    using p(2) length_dropWhile_le [of "\<lambda>c. c = 47" path] length_dropWhile_le [of "\<lambda>c. c = 47" "dropWhile (\<lambda>c. c \<noteq> 47) p"]
    by (simp add: p_def)
qed

function namex_loop :: "int \<Rightarrow> bool \<Rightarrow> byte list \<Rightarrow> byte list \<Rightarrow> nat \<Rightarrow> fs \<Rightarrow> (nat option \<times> byte list \<times> fs) kr" where
  "namex_loop pid parent path name ip s =
     (case skipelem path name of
        None \<Rightarrow>
          if parent then kbind (iput pid ip s) (\<lambda>s. Inr (None, name, s)) else Inr (Some ip, name, s)
      | Some (path, name) \<Rightarrow>
          kbind (ilock pid ip s) (\<lambda>s.
            if itype (ino s ip) \<noteq> T_DIR then kbind (iunlockput pid ip s) (\<lambda>s. Inr (None, name, s))
            else if parent \<and> path = [] then kbind (iunlock pid ip s) (\<lambda>s. Inr (Some ip, name, s))
            else kbind (dirlookup ip name s) (\<lambda>(r, s).
              case r of
                None \<Rightarrow> kbind (iunlockput pid ip s) (\<lambda>s. Inr (None, name, s))
              | Some (nx, off) \<Rightarrow> kbind (iunlockput pid ip s) (\<lambda>s. namex_loop pid parent path name nx s))))"
  by pat_completeness auto
termination
  by (relation "measure (\<lambda>(pid, parent, path, name, ip, s). length path)") (auto dest: skipelem_shorter)

declare namex_loop.simps [simp del]

definition namex :: "int \<Rightarrow> nat \<Rightarrow> byte list \<Rightarrow> bool \<Rightarrow> byte list \<Rightarrow> fs \<Rightarrow> (nat option \<times> byte list \<times> fs) kr" where
  "namex pid cwd path parent name s =
     kbind (if path \<noteq> [] \<and> hd path = 47 then iget ROOTDEV ROOTINO s else Inr (idup cwd s)) (\<lambda>(ip, s).
       namex_loop pid parent path name ip s)"

text \<open>The local array of namei starts out with whatever is on the stack.\<close>

definition namei :: "byte list \<Rightarrow> int \<Rightarrow> nat \<Rightarrow> byte list \<Rightarrow> fs \<Rightarrow> (nat option \<times> fs) kr" where
  "namei junk pid cwd path s =
     kbind (namex pid cwd path False junk s) (\<lambda>(ip, name, s). Inr (ip, s))"

definition nameiparent :: "int \<Rightarrow> nat \<Rightarrow> byte list \<Rightarrow> byte list \<Rightarrow> fs \<Rightarrow> (nat option \<times> byte list \<times> fs) kr" where
  "nameiparent pid cwd path name s = namex pid cwd path True name s"

end
