(* ===== verification/Xv6_Inode.thy ===== *)
theory Xv6_Inode
  imports Xv6_Fs
begin

text \<open>
  Correctness of the file contents of fs.c: which block holds which part of a file, that the block
  allocator hands out fresh zeroed blocks, that bmap extends a file without disturbing it, and that
  readi returns what writei wrote.
\<close>

section \<open>Blocks\<close>

lemma bupdate_spec:
  assumes "bupdate b d s = Inr s'"
  shows "sb s' = sb s" "itab s' = itab s" "cache (dsk s') = (cache (dsk s))(b := d)"
  using assms by (auto simp: bupdate_def fs_log_write_def bset_def set_block_def log_write_def bpin_block_def kr_simps split: if_splits)

lemma fs_log_write_spec:
  assumes "fs_log_write b s = Inr s'"
  shows "sb s' = sb s" "itab s' = itab s" "cache (dsk s') = cache (dsk s)"
  using assms by (auto simp: fs_log_write_def log_write_def bpin_block_def kr_simps split: if_splits)

lemma bset_simps [simp]: "sb (bset b d s) = sb s" "itab (bset b d s) = itab s" "cache (dsk (bset b d s)) = (cache (dsk s))(b := d)"
  by (simp_all add: bset_def set_block_def)

lemma upd_inode_simps [simp]: "sb (upd_inode ip f s) = sb s" "dsk (upd_inode ip f s) = dsk s"
  "ip < length (itab s) \<Longrightarrow> ino (upd_inode ip f s) ip = f (ino s ip)" "length (itab (upd_inode ip f s)) = length (itab s)"
  by (simp_all add: upd_inode_def)

text \<open>The bitmap: block b is in use.\<close>

definition bmark :: "fs \<Rightarrow> u32 \<Rightarrow> byte" where
  "bmark s b = blk s (BBLOCK b (sb s)) ! (unat (b mod BPB) div 8)"

definition bused :: "fs \<Rightarrow> u32 \<Rightarrow> bool" where
  "bused s b \<longleftrightarrow> bmark s b AND bit_mask (unat (b mod BPB)) \<noteq> 0"

lemma bit_of_mask: "bit (bit_mask k) n \<longleftrightarrow> n = k mod 8"
  by (auto simp: bit_mask_def bit_exp_iff)

lemma bit_mask_and: "x AND bit_mask k = 0 \<longleftrightarrow> \<not> bit x (k mod 8)"
proof -
  have "bit (x AND bit_mask k) n \<longleftrightarrow> n = k mod 8 \<and> bit x (k mod 8)" for n
    by (auto simp: bit_and_iff bit_of_mask)
  then show ?thesis by (metis bit_0_eq bot_apply bot_bool_def bit_eqI)
qed

lemma bit_or_mask: "bit (x OR bit_mask k) n \<longleftrightarrow> bit x n \<or> n = k mod 8"
  by (auto simp: bit_or_iff bit_of_mask)

lemma balloc_bits_spec:
  "balloc_bits d sz b bi = Some k \<Longrightarrow> bi \<le> k \<and> k < unat BPB \<and> b + k < sz \<and> d ! (k div 8) AND bit_mask k = 0"
proof (induction d sz b bi rule: balloc_bits.induct)
  case (1 d sz b bi)
  from "1.prems" show ?case using "1.IH" unfolding balloc_bits.simps [of d sz b bi] by (auto split: if_splits)
qed

lemma unat_BPB: "unat BPB = 8192"
  by (simp add: BPB_def BSIZE_def)

lemma bmap_block:
  assumes "b mod 8192 = 0" "k < 8192" "b + k < 2 ^ 32"
  shows "unat ((of_nat (b + k) :: u32) mod BPB) = k" "BBLOCK (of_nat (b + k)) sbl = BBLOCK (of_nat b) sbl" "unat (of_nat (b + k) :: u32) = b + k"
proof -
  show u: "unat (of_nat (b + k) :: u32) = b + k" using assms(3) by (simp add: unsigned_of_nat take_bit_eq_mod del: of_nat_add)
  have u': "unat (of_nat b :: u32) = b" using assms(3) by (simp add: unsigned_of_nat take_bit_eq_mod)
  obtain q where q: "b = 8192 * q" using assms(1) by (auto simp: mod_eq_0_iff_dvd elim: dvdE)
  have "(b + k) mod 8192 = k" using assms(2) by (simp add: q)
  then show "unat ((of_nat (b + k) :: u32) mod BPB) = k" unfolding unat_mod unat_BPB u by simp
  have "(b + k) div 8192 = b div 8192" using assms(2) by (simp add: q)
  then have "(of_nat (b + k) :: u32) div BPB = of_nat b div BPB" by (simp only: word_unat_eq_iff unat_div u u' unat_BPB)
  then show "BBLOCK (of_nat (b + k)) sbl = BBLOCK (of_nat b) sbl" by (simp add: BBLOCK_def)
qed

text \<open>What balloc does: it marks a free block and zeroes it.\<close>

definition alloced :: "u32 \<Rightarrow> fs \<Rightarrow> fs \<Rightarrow> bool" where
  "alloced b s s' \<longleftrightarrow> \<not> bused s b \<and> b < sb_size (sb s) \<and> sb s' = sb s \<and> itab s' = itab s \<and>
     cache (dsk s') = (cache (dsk s))(BBLOCK b (sb s) :=
       (blk s (BBLOCK b (sb s)))[unat (b mod BPB) div 8 := bmark s b OR bit_mask (unat (b mod BPB))], b := replicate 1024 0)"

lemma balloc_from_spec:
  "balloc_from b s = Inr (a, s') \<Longrightarrow> b mod 8192 = 0 \<Longrightarrow> a = 0 \<and> s' = s \<or> alloced a s s'"
proof (induction b s rule: balloc_from.induct)
  case (1 b s)
  let ?bb = "BBLOCK (of_nat b) (sb s)"
  let ?sz = "unat (sb_size (sb s))"
  show ?case
  proof (cases "b < ?sz")
    case False
    then show ?thesis using "1.prems" by (subst (asm) balloc_from.simps) simp
  next
    case lt: True
    show ?thesis
    proof (cases "balloc_bits (blk s ?bb) ?sz b 0")
      case None
      then have "balloc_from (b + unat BPB) s = Inr (a, s')"
        using "1.prems"(1) lt by (subst (asm) balloc_from.simps) (simp add: Let_def)
      moreover have "(b + unat BPB) mod 8192 = 0" using "1.prems"(2) by (simp add: unat_BPB)
      ultimately show ?thesis by (rule "1.IH" [OF lt refl refl None])
    next
      case (Some k)
      note k = balloc_bits_spec [OF Some]
      have "unat (sb_size (sb s)) < 2 ^ LENGTH(32)" by (rule unsigned_less)
      then have lim: "b + k < 2 ^ 32" using k by simp
      note u = bmap_block [OF "1.prems"(2) _ lim]
      have kk: "k < 8192" using k by (simp add: unat_BPB)
      obtain s1 where s1: "bupdate ?bb ((blk s ?bb)[k div 8 := blk s ?bb ! (k div 8) OR bit_mask k]) s = Inr s1"
        "bzero (of_nat (b + k)) s1 = Inr s'" "a = of_nat (b + k)"
        using "1.prems"(1) lt Some by (subst (asm) balloc_from.simps) (auto simp: Let_def kr_simps)
      note c = bupdate_spec [OF s1(1)] bupdate_spec [OF s1(2) [unfolded bzero_def]]
      have "a < sb_size (sb s)" unfolding word_less_nat_alt s1(3) u(3) [OF kk] using k by simp
      moreover have "\<not> bused s a" unfolding bused_def bmark_def s1(3) u(1,2) [OF kk] using k by simp
      ultimately have "alloced a s s'"
        unfolding alloced_def bmark_def s1(3) u(1,2) [OF kk] using c by (simp add: s1(3))
      then show ?thesis by simp
    qed
  qed
qed

lemma balloc_spec: "balloc s = Inr (a, s') \<Longrightarrow> a \<noteq> 0 \<Longrightarrow> alloced a s s'"
  using balloc_from_spec [of 0 s a s'] by (auto simp: balloc_def)

lemma unat_mod_BPB: "unat (b mod BPB) < 8192"
  by (simp add: unat_mod unat_BPB)

lemma bblock_split:
  assumes "BBLOCK b sbl = BBLOCK c sbl" "unat (b mod BPB) = unat (c mod BPB)"
  shows "b = c"
proof -
  have "b div BPB = c div BPB" using assms(1) by (simp add: BBLOCK_def)
  then have "unat b div 8192 = unat c div 8192" by (metis unat_div unat_BPB)
  moreover have "unat b mod 8192 = unat c mod 8192" using assms(2) by (simp add: unat_mod unat_BPB)
  ultimately have "unat b = unat c" by (metis div_mult_mod_eq)
  then show ?thesis by (simp only: word_unat_eq_iff)
qed

lemma alloced_bused:
  assumes "alloced a s s'" "length (blk s (BBLOCK a (sb s))) = 1024" "BBLOCK c (sb s) \<noteq> a"
  shows "bused s' c \<longleftrightarrow> bused s c \<or> c = a"
proof -
  let ?B = "\<lambda>c. BBLOCK c (sb s)" and ?k = "\<lambda>c. unat (c mod BPB)"
  have sb: "sb s' = sb s" and ch: "blk s' (?B c) = (if ?B c = ?B a then (blk s (?B a))[?k a div 8 := bmark s a OR bit_mask (?k a)] else blk s (?B c))"
    using assms(1,3) by (auto simp: alloced_def)
  have l: "?k c div 8 < 1024" for c using unat_mod_BPB [of c] by simp
  show ?thesis
  proof (cases "?B c = ?B a \<and> ?k c div 8 = ?k a div 8")
    case True
    then have m: "bmark s' c = bmark s c OR bit_mask (?k a)" using ch l assms(2) by (simp add: bmark_def sb)
    have "?k c mod 8 = ?k a mod 8 \<longleftrightarrow> c = a" using True bblock_split [of c "sb s" a] by (metis div_mult_mod_eq)
    then show ?thesis by (simp add: bused_def m bit_mask_and bit_or_mask)
  next
    case False
    then have "bmark s' c = bmark s c" using ch l assms(2) by (auto simp: bmark_def sb nth_list_update)
    moreover have "c \<noteq> a" using False by auto
    ultimately show ?thesis by (simp add: bused_def)
  qed
qed

section \<open>Files\<close>

text \<open>The layout mkfs makes: inode blocks, then the bitmap, then the data blocks.\<close>

definition first_data :: "superblock \<Rightarrow> nat" where
  "first_data sbl = unat (sb_bmapstart sbl) + unat (sb_size sbl) div 8192 + 1"

definition sb_ok :: "superblock \<Rightarrow> bool" where
  "sb_ok sbl \<longleftrightarrow> first_data sbl \<le> unat (sb_size sbl) \<and>
     unat (sb_inodestart sbl) + unat (sb_ninodes sbl) div 16 + 1 \<le> unat (sb_bmapstart sbl)"

lemma BBLOCK_range:
  "sb_ok sbl \<Longrightarrow> c < sb_size sbl \<Longrightarrow> unat (sb_bmapstart sbl) \<le> unat (BBLOCK c sbl) \<and> unat (BBLOCK c sbl) < first_data sbl"
proof -
  assume ok: "sb_ok sbl" and c: "c < sb_size sbl"
  have "unat c div 8192 \<le> unat (sb_size sbl) div 8192" using c by (simp add: word_less_nat_alt div_le_mono)
  moreover have "unat (sb_size sbl) < 2 ^ LENGTH(32)" by (rule unsigned_less)
  ultimately have "unat c div 8192 + unat (sb_bmapstart sbl) < 2 ^ 32" using ok by (simp add: sb_ok_def first_data_def)
  then have "unat (BBLOCK c sbl) = unat c div 8192 + unat (sb_bmapstart sbl)"
    by (simp add: BBLOCK_def unat_word_ariths unat_div unat_BPB)
  then show ?thesis using \<open>unat c div 8192 \<le> _\<close> by (simp add: first_data_def)
qed

lemma IBLOCK_range: "sb_ok sbl \<Longrightarrow> unat i < unat (sb_ninodes sbl) \<Longrightarrow> unat (IBLOCK i sbl) < unat (sb_bmapstart sbl)"
proof -
  assume ok: "sb_ok sbl" and i: "unat i < unat (sb_ninodes sbl)"
  have "unat i div 16 \<le> unat (sb_ninodes sbl) div 16" using i by (simp add: div_le_mono)
  moreover have "unat (sb_size sbl) < 2 ^ LENGTH(32)" by (rule unsigned_less)
  ultimately have "unat i div 16 + unat (sb_inodestart sbl) < 2 ^ 32" using ok by (simp add: sb_ok_def first_data_def)
  then have "unat (IBLOCK i sbl) = unat i div 16 + unat (sb_inodestart sbl)"
    by (simp add: IBLOCK_def IPB_def BSIZE_def unat_word_ariths unat_div)
  then show ?thesis using \<open>unat i div 16 \<le> _\<close> ok by (simp add: first_data_def sb_ok_def)
qed

lemmas BBLOCK_meta = BBLOCK_range [THEN conjunct2]

text \<open>The block that holds the k-th kilobyte of a file, 0 if it has none, and the indirect block.\<close>

definition ind :: "fs \<Rightarrow> nat \<Rightarrow> u32" where
  "ind s ip = iaddrs (ino s ip) ! 12"

definition fblk :: "fs \<Rightarrow> nat \<Rightarrow> nat \<Rightarrow> u32" where
  "fblk s ip k = (if k < 12 then iaddrs (ino s ip) ! k
     else if ind s ip = 0 then 0 else get32 (blk s (ind s ip)) (4 * (k - 12)))"

definition isdata :: "fs \<Rightarrow> u32 \<Rightarrow> bool" where
  "isdata s b \<longleftrightarrow> bused s b \<and> b < sb_size (sb s) \<and> first_data (sb s) \<le> unat b"

definition blocks_ok :: "fs \<Rightarrow> bool" where
  "blocks_ok s \<longleftrightarrow> sb_ok (sb s) \<and> (\<forall>b. length (blk s b) = 1024) \<and> (\<forall>b. unat b < first_data (sb s) \<longrightarrow> bused s b)"

definition fok :: "fs \<Rightarrow> nat \<Rightarrow> bool" where
  "fok s ip \<longleftrightarrow> blocks_ok s \<and> ip < length (itab s) \<and> length (iaddrs (ino s ip)) = 13 \<and>
     unat (inum (ino s ip)) < unat (sb_ninodes (sb s)) \<and>
     (ind s ip \<noteq> 0 \<longrightarrow> isdata s (ind s ip)) \<and>
     (\<forall>k<268. fblk s ip k \<noteq> 0 \<longrightarrow> isdata s (fblk s ip k) \<and> fblk s ip k \<noteq> ind s ip) \<and>
     (\<forall>k<268. \<forall>k'<268. fblk s ip k \<noteq> 0 \<longrightarrow> fblk s ip k' = fblk s ip k \<longrightarrow> k' = k)"

lemma fokD:
  assumes "fok s ip"
  shows "blocks_ok s" "ip < length (itab s)" "length (iaddrs (ino s ip)) = 13" "unat (inum (ino s ip)) < unat (sb_ninodes (sb s))"
    "ind s ip \<noteq> 0 \<Longrightarrow> isdata s (ind s ip)" "k < 268 \<Longrightarrow> fblk s ip k \<noteq> 0 \<Longrightarrow> isdata s (fblk s ip k)"
    "k < 268 \<Longrightarrow> fblk s ip k \<noteq> 0 \<Longrightarrow> fblk s ip k \<noteq> ind s ip"
    "k < 268 \<Longrightarrow> k' < 268 \<Longrightarrow> fblk s ip k \<noteq> 0 \<Longrightarrow> fblk s ip k' = fblk s ip k \<Longrightarrow> k' = k"
  using assms unfolding fok_def by auto

text \<open>Changes that do not touch the file.\<close>

lemma fok_frame:
  assumes "fok s ip" "sb s' = sb s" "ip < length (itab s')" "iaddrs (ino s' ip) = iaddrs (ino s ip)" "inum (ino s' ip) = inum (ino s ip)"
    "\<And>b. length (blk s' b) = 1024" "\<And>b. b < sb_size (sb s) \<Longrightarrow> bused s b \<Longrightarrow> bused s' b"
    "ind s ip \<noteq> 0 \<Longrightarrow> blk s' (ind s ip) = blk s (ind s ip)"
  shows "fok s' ip" "fblk s' ip = fblk s ip" "ind s' ip = ind s ip"
proof -
  show i: "ind s' ip = ind s ip" using assms(4) by (simp add: ind_def)
  show l: "fblk s' ip = fblk s ip" using assms(4,8) by (auto simp: fblk_def i)
  have d: "isdata s b \<Longrightarrow> isdata s' b" for b using assms(2,7) by (auto simp: isdata_def)
  have "unat b < first_data (sb s) \<Longrightarrow> b < sb_size (sb s)" for b
    using fokD(1) [OF assms(1)] by (auto simp: blocks_ok_def sb_ok_def word_less_nat_alt)
  then have b: "blocks_ok s'" using assms(2,6,7) fokD(1) [OF assms(1)] by (auto simp: blocks_ok_def)
  show "fok s' ip"
    unfolding fok_def i l using assms(2-5) b d fokD [OF assms(1)] by simp
qed

lemma alloced_fresh:
  assumes "alloced a s s1" "blocks_ok s"
  shows "isdata s1 a" "\<And>b. isdata s b \<Longrightarrow> b \<noteq> a \<and> isdata s1 b \<and> blk s1 b = blk s b" "blk s1 a = replicate 1024 0"
    "\<And>b. length (blk s1 b) = 1024" "blocks_ok s1" "\<And>b. b < sb_size (sb s) \<Longrightarrow> bused s b \<Longrightarrow> bused s1 b"
proof -
  have ok: "sb_ok (sb s)" and len: "\<And>b. length (blk s b) = 1024" and m: "\<And>b. unat b < first_data (sb s) \<Longrightarrow> bused s b"
    using assms(2) by (auto simp: blocks_ok_def)
  have a: "\<not> bused s a" "a < sb_size (sb s)" "sb s1 = sb s" using assms(1) by (auto simp: alloced_def)
  have am: "first_data (sb s) \<le> unat a" using a(1) m [of a] by (meson leI)
  have ne: "BBLOCK c (sb s) \<noteq> a" if "c < sb_size (sb s)" for c using BBLOCK_meta [OF ok that] am by auto
  have u: "bused s1 c \<longleftrightarrow> bused s c \<or> c = a" if "c < sb_size (sb s)" for c
    by (rule alloced_bused [OF assms(1) len ne [OF that]])
  show bu: "\<And>b. b < sb_size (sb s) \<Longrightarrow> bused s b \<Longrightarrow> bused s1 b" using u by blast
  show "isdata s1 a" using u [OF a(2)] a am by (simp add: isdata_def)
  show "blk s1 a = replicate 1024 0" using assms(1) by (simp add: alloced_def)
  show len1: "\<And>b. length (blk s1 b) = 1024" using assms(1) len by (simp add: alloced_def)
  have "unat b < first_data (sb s) \<Longrightarrow> b < sb_size (sb s)" for b using ok by (auto simp: sb_ok_def word_less_nat_alt)
  then show "blocks_ok s1" using len1 u m ok a(3) by (auto simp: blocks_ok_def)
  show "b \<noteq> a \<and> isdata s1 b \<and> blk s1 b = blk s b" if b: "isdata s b" for b
  proof -
    have "b \<noteq> a" using b a(1) by (auto simp: isdata_def)
    moreover have "b \<noteq> BBLOCK a (sb s)" using b BBLOCK_meta [OF ok a(2)] by (auto simp: isdata_def)
    ultimately show ?thesis using b u [of b] a(3) assms(1) by (auto simp: isdata_def alloced_def)
  qed
qed

lemma fok_alloced:
  assumes "fok s ip" "alloced a s s1"
  shows "fok s1 ip" "fblk s1 ip = fblk s ip" "ind s1 ip = ind s ip" "ino s1 ip = ino s ip" "sb s1 = sb s"
proof -
  note f = alloced_fresh [OF assms(2) fokD(1) [OF assms(1)]]
  show "ino s1 ip = ino s ip" "sb s1 = sb s" using assms(2) by (simp_all add: alloced_def)
  have "fok s1 ip \<and> fblk s1 ip = fblk s ip \<and> ind s1 ip = ind s ip"
    using fok_frame [OF assms(1), of s1] assms(2) f fokD(2,5) [OF assms(1)] by (auto simp: alloced_def)
  then show "fok s1 ip" "fblk s1 ip = fblk s ip" "ind s1 ip = ind s ip" by auto
qed

text \<open>Entering a fresh block a as direct block, as indirect block, and as entry of the indirect block.\<close>

definition fresh :: "fs \<Rightarrow> nat \<Rightarrow> u32 \<Rightarrow> bool" where
  "fresh s ip a \<longleftrightarrow> a \<noteq> 0 \<and> isdata s a \<and> a \<noteq> ind s ip \<and> (\<forall>k<268. fblk s ip k \<noteq> a)"

lemma alloced_is_fresh:
  assumes "fok s ip" "alloced a s s1" "a \<noteq> 0"
  shows "fresh s1 ip a"
proof -
  note f = alloced_fresh [OF assms(2) fokD(1) [OF assms(1)]] and g = fok_alloced [OF assms(1,2)]
  have "fblk s ip k \<noteq> a" if "k < 268" for k
    using f(2) [OF fokD(6) [OF assms(1) that]] assms(3) by (cases "fblk s ip k = 0") auto
  moreover have "a \<noteq> ind s ip" using f(2) [OF fokD(5) [OF assms(1)]] assms(3) by (cases "ind s ip = 0") auto
  ultimately show ?thesis using f(1) assms(3) by (simp add: fresh_def g)
qed

lemma isdata_upd_inode [simp]: "isdata (upd_inode ip f s) b = isdata s b" "blocks_ok (upd_inode ip f s) = blocks_ok s"
  by (simp_all add: isdata_def bused_def bmark_def blocks_ok_def)

lemma set_direct:
  assumes "fok s ip" "fresh s ip a" "k < 12" "fblk s ip k = 0" "s' = upd_inode ip (\<lambda>i. i\<lparr>iaddrs := (iaddrs i)[k := a]\<rparr>) s"
  shows "fok s' ip" "fblk s' ip = (fblk s ip)(k := a)" "ind s' ip = ind s ip"
proof -
  note d = fokD [OF assms(1)]
  show i: "ind s' ip = ind s ip" using d(2,3) assms(3,5) by (simp add: ind_def)
  show l: "fblk s' ip = (fblk s ip)(k := a)" using d(2,3) assms(3) i by (auto simp: fblk_def assms(5))
  show "fok s' ip"
    unfolding fok_def i l using d assms(2,5) by (auto simp: fresh_def)
qed

lemma get32_zero: "j + 4 \<le> n \<Longrightarrow> get32 (replicate n 0) j = 0"
  by (simp add: get32_def)

lemma set_indirect:
  assumes "fok s ip" "fresh s ip a" "ind s ip = 0" "blk s a = replicate 1024 0"
    "s' = upd_inode ip (\<lambda>i. i\<lparr>iaddrs := (iaddrs i)[12 := a]\<rparr>) s"
  shows "fok s' ip" "\<And>k. k < 268 \<Longrightarrow> fblk s' ip k = fblk s ip k" "ind s' ip = a"
proof -
  note d = fokD [OF assms(1)]
  show i: "ind s' ip = a" using d(2,3) assms(5) by (simp add: ind_def)
  show l: "fblk s' ip k = fblk s ip k" if "k < 268" for k
    using d(2,3) i that assms(3,4) get32_zero [of "4 * (k - 12)" 1024] by (auto simp: fblk_def assms(5))
  show "fok s' ip"
    unfolding fok_def i using d assms(2,5) l by (auto simp: fresh_def)
qed

lemma set_entry:
  assumes "fok s ip" "fresh s ip a" "12 \<le> k" "k < 268" "ind s ip \<noteq> 0" "fblk s ip k = 0"
    "bupdate (ind s ip) (put32 (blk s (ind s ip)) (4 * (k - 12)) a) s = Inr s'"
  shows "fok s' ip" "\<And>j. j < 268 \<Longrightarrow> fblk s' ip j = (if j = k then a else fblk s ip j)" "ind s' ip = ind s ip"
    "ino s' ip = ino s ip" "sb s' = sb s" "\<And>b. b \<noteq> ind s ip \<Longrightarrow> blk s' b = blk s b"
proof -
  note d = fokD [OF assms(1)] and u = bupdate_spec [OF assms(7)]
  show i: "ind s' ip = ind s ip" and io: "ino s' ip = ino s ip" and sbe: "sb s' = sb s" using u by (simp_all add: ind_def)
  show bl: "\<And>b. b \<noteq> ind s ip \<Longrightarrow> blk s' b = blk s b" using u by simp
  have len: "\<And>b. length (blk s b) = 1024" and ok: "sb_ok (sb s)" and m: "\<And>b. unat b < first_data (sb s) \<Longrightarrow> bused s b"
    using d(1) by (auto simp: blocks_ok_def)
  have e: "blk s' (ind s ip) = put32 (blk s (ind s ip)) (4 * (k - 12)) a" using u by simp
  show l: "fblk s' ip j = (if j = k then a else fblk s ip j)" if j: "j < 268" for j
  proof (cases "j < 12")
    case False
    then have "get32 (put32 (blk s (ind s ip)) (4 * (k - 12)) a) (4 * (j - 12)) = (if j = k then a else get32 (blk s (ind s ip)) (4 * (j - 12)))"
      using assms(3,4) j len by (auto intro!: get32_put32 get32_put32_other)
    then show ?thesis using False assms(5) by (auto simp: fblk_def i e)
  qed (use assms(3) io in \<open>simp add: fblk_def\<close>)
  have nm: "ind s ip \<noteq> BBLOCK c (sb s)" if "c < sb_size (sb s)" for c
    using BBLOCK_meta [OF ok that] d(5) [OF assms(5)] by (auto simp: isdata_def)
  have bu: "bused s' c = bused s c" if "c < sb_size (sb s)" for c
    using nm [OF that] bl by (simp add: bused_def bmark_def sbe)
  have da: "isdata s' b = isdata s b" for b using bu by (auto simp: isdata_def sbe)
  have "unat b < first_data (sb s) \<Longrightarrow> b < sb_size (sb s)" for b using ok by (auto simp: sb_ok_def word_less_nat_alt)
  then have bo: "blocks_ok s'" using m bu ok len u by (auto simp: blocks_ok_def)
  have a: "a \<noteq> 0" "isdata s a" "a \<noteq> ind s ip" "\<forall>k<268. fblk s ip k \<noteq> a" using assms(2) by (auto simp: fresh_def)
  have "(\<forall>k<268. fblk s' ip k \<noteq> 0 \<longrightarrow> isdata s (fblk s' ip k) \<and> fblk s' ip k \<noteq> ind s ip)"
    using a d(6,7) by (simp add: l)
  moreover have "(\<forall>k<268. \<forall>k'<268. fblk s' ip k \<noteq> 0 \<longrightarrow> fblk s' ip k' = fblk s' ip k \<longrightarrow> k' = k)"
    using a(4) d(8) by (auto simp: l)
  ultimately show "fok s' ip"
    unfolding fok_def i io da sbe using bo d(2,3,4,5) u(2) by simp
qed

text \<open>
  bmap as a change of the file: it maps the k-th kilobyte to block a, keeps everything else, and a
  block that is new holds zeros.
\<close>

definition kept :: "fs \<Rightarrow> fs \<Rightarrow> nat \<Rightarrow> bool" where
  "kept s s' ip \<longleftrightarrow> fok s' ip \<and> sb s' = sb s \<and> ino s' ip = (ino s ip)\<lparr>iaddrs := iaddrs (ino s' ip)\<rparr> \<and>
     (\<forall>j<268. fblk s ip j \<noteq> 0 \<longrightarrow> blk s' (fblk s ip j) = blk s (fblk s ip j))"

definition grown :: "fs \<Rightarrow> fs \<Rightarrow> nat \<Rightarrow> nat \<Rightarrow> u32 \<Rightarrow> bool" where
  "grown s s' ip k a \<longleftrightarrow> kept s s' ip \<and> (\<forall>j<268. fblk s' ip j = (if j = k then a else fblk s ip j)) \<and>
     (fblk s ip k \<noteq> 0 \<longrightarrow> a = fblk s ip k) \<and> (fblk s ip k = 0 \<longrightarrow> blk s' a = replicate 1024 0)"

lemma kept_alloced:
  assumes "fok s ip" "alloced a s s1"
  shows "kept s s1 ip"
  using fok_alloced [OF assms] alloced_fresh(2) [OF assms(2) fokD(1) [OF assms(1)]] fokD(6) [OF assms(1)] by (simp add: kept_def)

lemma kept_trans:
  assumes "kept s s1 ip" "kept s1 s2 ip" "\<And>j. j < 268 \<Longrightarrow> fblk s1 ip j = fblk s ip j"
  shows "kept s s2 ip"
proof -
  have "i2 = i\<lparr>iaddrs := y\<rparr>" if "i1 = i\<lparr>iaddrs := x\<rparr>" "i2 = i1\<lparr>iaddrs := y\<rparr>" for i i1 i2 :: inode and x y using that by simp
  then have "ino s2 ip = (ino s ip)\<lparr>iaddrs := iaddrs (ino s2 ip)\<rparr>" using assms(1,2) unfolding kept_def by blast
  then show ?thesis using assms unfolding kept_def by simp
qed

lemma bmap_direct_spec:
  assumes "fok s ip" "k < 12" "bmap_direct ip k s = Inr (a, s')" "a \<noteq> 0"
  shows "grown s s' ip k a"
proof (cases "fblk s ip k = 0")
  case False
  then show ?thesis using assms by (auto simp: bmap_direct_def fblk_def grown_def kept_def)
next
  case True
  then obtain s1 where s1: "balloc s = Inr (a, s1)" "s' = upd_inode ip (\<lambda>i. i\<lparr>iaddrs := (iaddrs i)[k := a]\<rparr>) s1"
    using assms(2,3,4) by (auto simp: bmap_direct_def fblk_def kr_simps Let_def split: if_splits)
  note al = balloc_spec [OF s1(1) assms(4)]
  note f = fok_alloced [OF assms(1) al] and g = alloced_is_fresh [OF assms(1) al assms(4)]
  have z: "fblk s1 ip k = 0" using True f(2) by simp
  note d = set_direct [OF f(1) g assms(2) z s1(2)]
  have "kept s s1 ip" by (rule kept_alloced [OF assms(1) al])
  then have "kept s s' ip" using d(1) f(4) s1(2) fokD(2) [OF f(1)] by (auto simp: kept_def)
  moreover have "blk s' a = replicate 1024 0" using alloced_fresh(3) [OF al fokD(1) [OF assms(1)]] s1(2) by simp
  ultimately show ?thesis using True d(2) f(2) by (simp add: grown_def)
qed

lemma bmap_ind_spec:
  assumes "fok s ip" "bmap_direct ip 12 s = Inr (a, s')" "a \<noteq> 0"
  shows "kept s s' ip" "ind s' ip = a" "\<And>j. j < 268 \<Longrightarrow> fblk s' ip j = fblk s ip j"
proof -
  have "kept s s' ip \<and> ind s' ip = a \<and> (\<forall>j<268. fblk s' ip j = fblk s ip j)"
  proof (cases "ind s ip = 0")
    case False
    then show ?thesis using assms by (auto simp: bmap_direct_def ind_def kept_def)
  next
    case True
    then obtain s1 where s1: "balloc s = Inr (a, s1)" "s' = upd_inode ip (\<lambda>i. i\<lparr>iaddrs := (iaddrs i)[12 := a]\<rparr>) s1"
      using assms(2,3) by (auto simp: bmap_direct_def ind_def kr_simps Let_def split: if_splits)
    note al = balloc_spec [OF s1(1) assms(3)]
    note f = fok_alloced [OF assms(1) al] and g = alloced_is_fresh [OF assms(1) al assms(3)]
    have z: "ind s1 ip = 0" using True f(3) by simp
    have zz: "blk s1 a = replicate 1024 0" by (rule alloced_fresh(3) [OF al fokD(1) [OF assms(1)]])
    note d = set_indirect [OF f(1) g z zz s1(2)]
    have "kept s s1 ip" by (rule kept_alloced [OF assms(1) al])
    then have "kept s s' ip" using d(1) f(4) s1(2) fokD(2) [OF f(1)] by (auto simp: kept_def)
    then show ?thesis using d(2,3) f(2) by simp
  qed
  then show "kept s s' ip" "ind s' ip = a" "\<And>j. j < 268 \<Longrightarrow> fblk s' ip j = fblk s ip j" by auto
qed

lemma bmap_entry_spec:
  assumes "fok s ip" "ind s ip \<noteq> 0" "12 \<le> k" "k < 268" "fblk s ip k = 0" "balloc s = Inr (a, s1)" "a \<noteq> 0"
    "bupdate (ind s ip) (put32 (blk s1 (ind s ip)) (4 * (k - 12)) a) s1 = Inr s'"
  shows "grown s s' ip k a"
proof -
  note al = balloc_spec [OF assms(6,7)]
  note f = fok_alloced [OF assms(1) al] and g = alloced_is_fresh [OF assms(1) al assms(7)]
  have i: "ind s1 ip \<noteq> 0" "fblk s1 ip k = 0" "ind s ip = ind s1 ip" using assms(2,5) f by simp_all
  note e = set_entry [OF f(1) g assms(3,4) i(1,2) assms(8) [unfolded i(3)]]
  have kp: "kept s s1 ip" by (rule kept_alloced [OF assms(1) al])
  have "kept s1 s' ip" using e fokD(7) [OF f(1)] by (simp add: kept_def)
  then have "kept s s' ip" using kept_trans [OF kp] f(2) by simp
  moreover have "blk s' a = replicate 1024 0"
    using alloced_fresh(3) [OF al fokD(1) [OF assms(1)]] e(6) [of a] g by (simp add: fresh_def)
  ultimately show ?thesis using e(2) f(2) assms(5) by (simp add: grown_def)
qed

lemma grown_trans: "kept s s1 ip \<Longrightarrow> (\<And>j. j < 268 \<Longrightarrow> fblk s1 ip j = fblk s ip j) \<Longrightarrow> k < 268 \<Longrightarrow> grown s1 s2 ip k a \<Longrightarrow> grown s s2 ip k a"
  using kept_trans [of s s1 ip s2] by (simp add: grown_def)

lemma unat_fs [simp]: "unat NDIRECT = 12" "unat NINDIRECT = 256" "unat BSIZE = 1024" "unat MAXFILE = 268"
  by (simp_all add: NDIRECT_def NINDIRECT_def BSIZE_def MAXFILE_def)

lemma bmap_spec:
  assumes "fok s ip" "bmap ip bn s = Inr (a, s')" "a \<noteq> 0"
  shows "unat bn < 268" "grown s s' ip (unat bn) a"
proof -
  have "unat bn < 268 \<and> grown s s' ip (unat bn) a"
  proof (cases "bn < NDIRECT")
    case True
    then have "unat bn < 12" by (simp add: word_less_nat_alt)
    then show ?thesis using bmap_direct_spec [OF assms(1) _ _ assms(3)] assms(2) True by (simp add: bmap_def)
  next
    case False
    then have b: "12 \<le> unat bn" "unat (bn - NDIRECT) = unat bn - 12" by (simp_all add: word_less_nat_alt unat_sub word_le_nat_alt)
    have lt: "bn - NDIRECT < NINDIRECT" using assms(2) False by (auto simp: bmap_def Let_def split: if_splits)
    then have k: "unat bn < 268" using b by (simp add: word_less_nat_alt)
    obtain i s1 where s1: "bmap_direct ip 12 s = Inr (i, s1)" "i \<noteq> 0" and
      r: "(let addr = get32 (blk s1 i) (4 * (unat bn - 12)) in
        if addr = 0 then kbind (balloc s1) (\<lambda>(addr, s).
          if addr \<noteq> 0 then kbind (bupdate i (put32 (blk s i) (4 * (unat bn - 12)) addr) s) (\<lambda>s. Inr (addr, s)) else Inr (addr, s))
        else Inr (addr, s1)) = Inr (a, s')"
      using assms(2,3) False lt b(2) by (auto simp: bmap_def kr_simps Let_def split: if_splits)
    note n = bmap_ind_spec [OF assms(1) s1]
    have f: "fok s1 ip" using n(1) by (simp add: kept_def)
    have l: "fblk s1 ip (unat bn) = get32 (blk s1 i) (4 * (unat bn - 12))" using b(1) n(2) s1(2) by (simp add: fblk_def)
    have "grown s1 s' ip (unat bn) a"
    proof (cases "fblk s1 ip (unat bn) = 0")
      case True
      then obtain s2 where "balloc s1 = Inr (a, s2)" "bupdate i (put32 (blk s2 i) (4 * (unat bn - 12)) a) s2 = Inr s'"
        using r assms(3) by (auto simp: l kr_simps Let_def split: if_splits)
      then show ?thesis using bmap_entry_spec [OF f _ b(1) k True _ assms(3)] n(2) s1(2) by simp
    next
      case False
      then show ?thesis using r f by (auto simp: l [symmetric] Let_def grown_def kept_def)
    qed
    then show ?thesis using grown_trans [OF n(1) n(3) k] k by simp
  qed
  then show "unat bn < 268" "grown s s' ip (unat bn) a" by auto
qed

section \<open>Contents\<close>

text \<open>Byte j of the file; a hole reads as zero.\<close>

definition fbyte :: "fs \<Rightarrow> nat \<Rightarrow> nat \<Rightarrow> byte" where
  "fbyte s ip j = (if fblk s ip (j div 1024) = 0 then 0 else blk s (fblk s ip (j div 1024)) ! (j mod 1024))"

definition FMAX :: nat where "FMAX = 268 * 1024"

lemma FMAX_div: "j < FMAX \<Longrightarrow> j div 1024 < 268"
  by (simp add: FMAX_def less_mult_imp_div_less)

lemma grown_fbyte:
  assumes "grown s s' ip k a" "j < FMAX"
  shows "fbyte s' ip j = fbyte s ip j"
proof -
  note j = FMAX_div [OF assms(2)]
  have f: "fblk s' ip (j div 1024) = (if j div 1024 = k then a else fblk s ip (j div 1024))" using assms(1) j by (simp add: grown_def)
  show ?thesis
  proof (cases "fblk s ip (j div 1024) = 0")
    case True
    then show ?thesis using f assms(1) by (auto simp: fbyte_def grown_def)
  next
    case False
    then show ?thesis using f assms(1) j by (auto simp: fbyte_def grown_def kept_def)
  qed
qed

lemma set_data:
  assumes "fok s ip" "k < 268" "fblk s ip k = a" "a \<noteq> 0" "length d = 1024"
    "sb s' = sb s" "itab s' = itab s" "cache (dsk s') = (cache (dsk s))(a := d)"
  shows "fok s' ip" "fblk s' ip = fblk s ip"
    "\<And>j. j < FMAX \<Longrightarrow> fbyte s' ip j = (if j div 1024 = k then d ! (j mod 1024) else fbyte s ip j)"
proof -
  note f = fokD [OF assms(1)]
  have ad: "isdata s a" "a \<noteq> ind s ip" using f(6,7) assms(2-4) by auto
  have ok: "sb_ok (sb s)" and len: "\<And>b. length (blk s b) = 1024" using f(1) by (auto simp: blocks_ok_def)
  have "BBLOCK c (sb s) \<noteq> a" if "c < sb_size (sb s)" for c
    using BBLOCK_meta [OF ok that] ad(1) by (auto simp: isdata_def)
  then have bu: "bused s' c" if "c < sb_size (sb s)" "bused s c" for c
    using that assms(6,8) by (simp add: bused_def bmark_def)
  have len': "length (blk s' b) = 1024" for b using len assms(5,8) by simp
  have ib: "blk s' (ind s ip) = blk s (ind s ip)" using ad(2) assms(8) by simp
  have io: "ino s' ip = ino s ip" "ip < length (itab s')" using assms(7) f(2) by simp_all
  note fr = fok_frame [OF assms(1,6) io(2) arg_cong [OF io(1)] arg_cong [OF io(1)] len' bu ib]
  show "fok s' ip" by (rule fr(1))
  show "fblk s' ip = fblk s ip" by (rule fr(2))
  show "fbyte s' ip j = (if j div 1024 = k then d ! (j mod 1024) else fbyte s ip j)" if j: "j < FMAX" for j
  proof (cases "j div 1024 = k")
    case True
    then show ?thesis using assms(3,4,8) by (simp add: fbyte_def fr(2))
  next
    case False
    then have "fblk s ip (j div 1024) \<noteq> a" using f(8) [OF assms(2) FMAX_div [OF j]] assms(3,4) by auto
    then show ?thesis using False assms(8) by (simp add: fbyte_def fr(2))
  qed
qed

lemma patch_nth:
  assumes "k + length bs \<le> length d" "i < length d"
  shows "patch d k bs ! i = (if k \<le> i \<and> i < k + length bs then bs ! (i - k) else d ! i)"
  using assms by (auto simp: patch_def nth_append)

lemma length_patch: "k + length bs \<le> length d \<Longrightarrow> length (patch d k bs) = length d"
  by (simp add: patch_def)

text \<open>One round of the loop of writei, from offset off, within one block.\<close>

definition stored :: "fs \<Rightarrow> fs \<Rightarrow> nat \<Rightarrow> nat \<Rightarrow> byte list \<Rightarrow> bool" where
  "stored s s' ip off bs \<longleftrightarrow> fok s' ip \<and> sb s' = sb s \<and> ino s' ip = (ino s ip)\<lparr>iaddrs := iaddrs (ino s' ip)\<rparr> \<and>
     (\<forall>j<FMAX. fbyte s' ip j = (if off \<le> j \<and> j < off + length bs then bs ! (j - off) else fbyte s ip j)) \<and>
     (\<forall>k<268. fblk s ip k \<noteq> 0 \<longrightarrow> fblk s' ip k \<noteq> 0) \<and>
     (\<forall>j<FMAX. off \<le> j \<and> j < off + length bs \<longrightarrow> fblk s' ip (j div 1024) \<noteq> 0)"

lemma write_round:
  assumes "fok s ip" "bmap ip (off div BSIZE) s = Inr (a, s1)" "a \<noteq> 0" "unat off mod 1024 + length bs \<le> 1024"
    "fs_log_write a (bset a (patch (blk s1 a) (unat (off mod BSIZE)) bs) s1) = Inr s2"
  shows "stored s s2 ip (unat off) bs"
proof -
  have u: "unat (off div BSIZE) = unat off div 1024" "unat (off mod BSIZE) = unat off mod 1024" by (simp_all add: unat_div unat_mod)
  note b = bmap_spec [OF assms(1-3)]
  let ?k = "unat off div 1024" and ?o = "unat off mod 1024"
  have k: "?k < 268" and g: "grown s s1 ip ?k a" using b u by simp_all
  have f1: "fok s1 ip" and kp: "kept s s1 ip" and l: "\<And>j. j < 268 \<Longrightarrow> fblk s1 ip j = (if j = ?k then a else fblk s ip j)"
    using g by (auto simp: grown_def kept_def)
  have len: "length (blk s1 a) = 1024" using fokD(1) [OF f1] by (simp add: blocks_ok_def)
  let ?d = "patch (blk s1 a) ?o bs"
  have "length ?d = 1024" using length_patch [of ?o bs "blk s1 a"] len assms(4) by simp
  moreover have c: "sb s2 = sb s1" "itab s2 = itab s1" "cache (dsk s2) = (cache (dsk s1))(a := ?d)"
    using fs_log_write_spec [OF assms(5)] u by simp_all
  moreover have la: "fblk s1 ip ?k = a" using l [OF k] by simp
  ultimately have d: "fok s2 ip" "fblk s2 ip = fblk s1 ip" "\<And>j. j < FMAX \<Longrightarrow> fbyte s2 ip j = (if j div 1024 = ?k then ?d ! (j mod 1024) else fbyte s1 ip j)"
    using set_data [OF f1 k, of a ?d s2] assms(3) by auto
  have same: "j div 1024 = ?k" if "unat off \<le> j" "j < unat off + length bs" for j
  proof (rule div_nat_eqI)
    have "unat off = 1024 * ?k + ?o" by simp
    then show "1024 * ?k \<le> j" "j < 1024 * Suc ?k" using that assms(4) unfolding mult_Suc_right by linarith+
  qed
  have "fbyte s2 ip j = (if unat off \<le> j \<and> j < unat off + length bs then bs ! (j - unat off) else fbyte s ip j)" if j: "j < FMAX" for j
  proof (cases "j div 1024 = ?k")
    case True
    have jm: "j = 1024 * ?k + j mod 1024" "unat off = 1024 * ?k + ?o" using True by (metis mult_div_mod_eq)+
    then have "(?o \<le> j mod 1024 \<and> j mod 1024 < ?o + length bs) = (unat off \<le> j \<and> j < unat off + length bs)" "j mod 1024 - ?o = j - unat off"
      by linarith+
    moreover have "fbyte s1 ip j = blk s1 a ! (j mod 1024)" using True la assms(3) by (simp add: fbyte_def)
    ultimately show ?thesis using d(3) [OF j] True patch_nth [of ?o bs "blk s1 a" "j mod 1024"] len assms(4) grown_fbyte [OF g j] by simp
  next
    case False
    then have "\<not> (unat off \<le> j \<and> j < unat off + length bs)" using same by blast
    then have "(if unat off \<le> j \<and> j < unat off + length bs then bs ! (j - unat off) else fbyte s ip j) = fbyte s ip j" by (rule if_not_P)
    then show ?thesis using d(3) [OF j] False grown_fbyte [OF g j] by simp
  qed
  moreover have "fblk s2 ip (j div 1024) \<noteq> 0" if "unat off \<le> j" "j < unat off + length bs" for j
  proof -
    show ?thesis using same [OF that] la assms(3) d(2) by simp
  qed
  ultimately show ?thesis using d(1,2) c kp l assms(3) unfolding stored_def kept_def by auto
qed

lemma stored_trans:
  assumes "stored s s1 ip off xs" "stored s1 s2 ip (off + length xs) ys" "off + length xs + length ys \<le> FMAX"
  shows "stored s s2 ip off (xs @ ys)"
proof -
  have r: "i2 = i\<lparr>iaddrs := y\<rparr>" if "i1 = i\<lparr>iaddrs := x\<rparr>" "i2 = i1\<lparr>iaddrs := y\<rparr>" for i i1 i2 :: inode and x y using that by simp
  have "ino s1 ip = (ino s ip)\<lparr>iaddrs := iaddrs (ino s1 ip)\<rparr>" "ino s2 ip = (ino s1 ip)\<lparr>iaddrs := iaddrs (ino s2 ip)\<rparr>"
    using assms(1,2) unfolding stored_def by blast+
  note i = r [OF this]
  have "fok s2 ip" "sb s2 = sb s" using assms(1,2) unfolding stored_def by metis+
  moreover have "fbyte s2 ip j = (if off \<le> j \<and> j < off + length (xs @ ys) then (xs @ ys) ! (j - off) else fbyte s ip j)" if "j < FMAX" for j
  proof -
    have "fbyte s1 ip j = (if off \<le> j \<and> j < off + length xs then xs ! (j - off) else fbyte s ip j)"
      using assms(1) that unfolding stored_def by blast
    moreover have "fbyte s2 ip j = (if off + length xs \<le> j \<and> j < off + length xs + length ys then ys ! (j - (off + length xs)) else fbyte s1 ip j)"
      using assms(2) that unfolding stored_def by blast
    ultimately show ?thesis by (auto simp: nth_append)
  qed
  moreover have "fblk s2 ip (j div 1024) \<noteq> 0" if "j < FMAX" "off \<le> j" "j < off + length (xs @ ys)" for j
  proof (cases "j < off + length xs")
    case True
    then have "fblk s1 ip (j div 1024) \<noteq> 0" using assms(1) that unfolding stored_def by blast
    then show ?thesis using assms(2) FMAX_div [OF that(1)] unfolding stored_def by blast
  next
    case False
    then have "off + length xs \<le> j \<and> j < off + length xs + length ys" using that by simp
    then show ?thesis using assms(2) that(1) unfolding stored_def by blast
  qed
  moreover have "\<forall>k<268. fblk s ip k \<noteq> 0 \<longrightarrow> fblk s2 ip k \<noteq> 0" using assms(1,2) unfolding stored_def by blast
  ultimately show ?thesis using i unfolding stored_def by blast
qed

text \<open>
  The parameters of readi and writei: get hands out the bytes bs from src on; st xs is the memory once
  put has taken the bytes xs from dst on.
\<close>

definition gives :: "'m getter \<Rightarrow> 'm \<Rightarrow> u64 \<Rightarrow> byte list \<Rightarrow> bool" where
  "gives get m src bs \<longleftrightarrow> (\<forall>i k. i + k \<le> length bs \<longrightarrow> get m (src + of_nat i) k = Inr (0, take k (drop i bs)))"

definition takes :: "'m putter \<Rightarrow> (byte list \<Rightarrow> 'm) \<Rightarrow> u64 \<Rightarrow> nat \<Rightarrow> bool" where
  "takes put st dst n \<longleftrightarrow> (\<forall>xs ys. length xs + length ys \<le> n \<longrightarrow> put (st xs) (dst + of_nat (length xs)) ys = Inr (0, st (xs @ ys)))"

lemma gives_take: "gives get m src bs \<Longrightarrow> k \<le> length bs \<Longrightarrow> get m src k = Inr (0, take k bs)"
  unfolding gives_def by (drule spec [of _ 0], drule spec [of _ k]) simp

lemma gives_drop: "gives get m src bs \<Longrightarrow> j \<le> length bs \<Longrightarrow> gives get m (src + of_nat j) (drop j bs)"
  unfolding gives_def
proof (intro allI impI)
  fix i k assume g: "\<forall>i k. i + k \<le> length bs \<longrightarrow> get m (src + of_nat i) k = Inr (0, take k (drop i bs))" "j \<le> length bs" "i + k \<le> length (drop j bs)"
  then have "j + i + k \<le> length bs" by simp
  then have "get m (src + of_nat (j + i)) k = Inr (0, take k (drop (j + i) bs))" using g(1) by blast
  moreover have "src + of_nat (j + i) = src + of_nat j + of_nat i" by simp
  moreover have "drop (j + i) bs = drop i (drop j bs)" by (simp add: add.commute)
  ultimately show "get m (src + of_nat j + of_nat i) k = Inr (0, take k (drop i (drop j bs)))" by metis
qed

text \<open>The size of one round: k bytes, up to the end of the block or of the request.\<close>

lemma round_size:
  assumes "tot < n" "k = min (n - tot) (BSIZE - off mod BSIZE)"
  shows "unat k = min (unat n - unat tot) (1024 - unat off mod 1024)" "unat off mod 1024 + unat k \<le> 1024" "0 < unat k"
    "unat (tot + k) = unat tot + unat k" "unat tot + unat k \<le> unat n"
proof -
  have a: "unat (n - tot) = unat n - unat tot" using assms(1) by (simp add: unat_sub)
  have m: "unat (off mod BSIZE) = unat off mod 1024" by (simp add: unat_mod)
  then have "off mod BSIZE \<le> BSIZE" by (simp add: word_le_nat_alt)
  then have b: "unat (BSIZE - off mod BSIZE) = 1024 - unat off mod 1024" by (simp add: unat_sub m)
  show k: "unat k = min (unat n - unat tot) (1024 - unat off mod 1024)"
    unfolding assms(2) by (simp add: min_def word_le_nat_alt a b)
  have "unat off mod 1024 < 1024" by simp
  then show "unat off mod 1024 + unat k \<le> 1024" using k by linarith
  show le: "unat tot + unat k \<le> unat n" using k assms(1) by (simp add: word_less_nat_alt)
  show "0 < unat k" using k assms(1) by (simp add: word_less_nat_alt)
  have "unat n < 2 ^ LENGTH(32)" by (rule unsigned_less)
  then show "unat (tot + k) = unat tot + unat k" using le by (simp add: unat_word_ariths)
qed

lemma FMAX_32: "x \<le> FMAX \<Longrightarrow> x < 2 ^ 32"
  by (simp add: FMAX_def)

lemma writei_step:
  "\<not> tot < n \<Longrightarrow> writei_loop get ip src off n tot m s = Inr (off, tot, s)"
  "tot < n \<Longrightarrow> bmap ip (off div BSIZE) s = Inl e \<Longrightarrow> writei_loop get ip src off n tot m s = Inl e"
  "tot < n \<Longrightarrow> bmap ip (off div BSIZE) s = Inr (0, s1) \<Longrightarrow> writei_loop get ip src off n tot m s = Inr (off, tot, s1)"
  "tot < n \<Longrightarrow> bmap ip (off div BSIZE) s = Inr (a, s1) \<Longrightarrow> a \<noteq> 0 \<Longrightarrow> k = min (n - tot) (BSIZE - off mod BSIZE) \<Longrightarrow>
   get m src (unat k) = Inr (0, bs) \<Longrightarrow> writei_loop get ip src off n tot m s =
     kbind (fs_log_write a (bset a (patch (blk s1 a) (unat (off mod BSIZE)) bs) s1)) (writei_loop get ip (src + ucast k) (off + k) n (tot + k) m)"
  by (subst writei_loop.simps, simp add: Let_def)+

lemma writei_loop_spec:
  "writei_loop get ip src off n tot m s = Inr (off', n, s') \<Longrightarrow> fok s ip \<Longrightarrow> tot \<le> n \<Longrightarrow> gives get m src bs \<Longrightarrow>
   length bs = unat n - unat tot \<Longrightarrow> unat off + length bs \<le> FMAX \<Longrightarrow>
   stored s s' ip (unat off) bs \<and> unat off' = unat off + length bs"
proof (induction "unat n - unat tot" arbitrary: bs src off tot s rule: less_induct)
  case less
  show ?case
  proof (cases "tot < n")
    case False
    then have "unat n - unat tot = 0" using less.prems(3) by (simp add: word_le_nat_alt word_less_nat_alt)
    then have "bs = []" "s' = s" "off' = off" using less.prems(1,5) writei_step(1) [OF False, of get ip src off m s] by simp_all
    then show ?thesis using less.prems(2) by (auto simp: stored_def)
  next
    case lt: True
    define k where "k = min (n - tot) (BSIZE - off mod BSIZE)"
    note r = round_size [OF lt k_def]
    have kb: "unat k \<le> length bs" using r(5) less.prems(5) by linarith
    define xs where "xs = take (unat k) bs"
    have xs: "length xs = unat k" using kb by (simp add: xs_def)
    have g: "get m src (unat k) = Inr (0, xs)" unfolding xs_def by (rule gives_take [OF less.prems(4) kb])
    obtain a s1 where b: "bmap ip (off div BSIZE) s = Inr (a, s1)"
      using less.prems(1) writei_step(2) [OF lt, of ip off s _ get src m] by (cases "bmap ip (off div BSIZE) s") auto
    have a: "a \<noteq> 0" using less.prems(1) writei_step(3) [OF lt, of ip off s s1 get src m] b lt by auto
    note step = writei_step(4) [where get = get and m = m, OF lt b a k_def g]
    obtain s3 where w: "fs_log_write a (bset a (patch (blk s1 a) (unat (off mod BSIZE)) xs) s1) = Inr s3" and
      rec: "writei_loop get ip (src + ucast k) (off + k) n (tot + k) m s3 = Inr (off', n, s')"
      using less.prems(1) unfolding step kbind_eq_Inr by blast
    have ko: "unat off mod 1024 + length xs \<le> 1024" using r(2) xs by simp
    note rd = write_round [OF less.prems(2) b a ko w]
    have off: "unat (off + k) = unat off + unat k"
      using FMAX_32 [OF less.prems(6)] kb by (simp add: unat_word_ariths)
    have gd: "gives get m (src + ucast k) (drop (unat k) bs)" using gives_drop [OF less.prems(4) kb] by simp
    have f3: "fok s3 ip" using rd by (simp add: stored_def)
    have "stored s3 s' ip (unat (off + k)) (drop (unat k) bs) \<and> unat off' = unat (off + k) + length (drop (unat k) bs)"
    proof (rule less.hyps [OF _ rec f3 _ gd])
      show "unat n - unat (tot + k) < unat n - unat tot" "tot + k \<le> n" using r(3,4,5) by (simp_all add: word_le_nat_alt)
      show "length (drop (unat k) bs) = unat n - unat (tot + k)" using less.prems(5) r(4) by simp
      show "unat (off + k) + length (drop (unat k) bs) \<le> FMAX" using off kb less.prems(6) by simp
    qed
    moreover have "stored s s' ip (unat off) (xs @ drop (unat k) bs)"
      using stored_trans [OF rd, of s' "drop (unat k) bs"] calculation off xs kb less.prems(6) by simp
    ultimately show ?thesis using off kb by (simp add: xs_def)
  qed
qed

lemma bmap_hit:
  assumes "fok s ip" "unat bn < 268" "fblk s ip (unat bn) \<noteq> 0"
  shows "bmap ip bn s = Inr (fblk s ip (unat bn), s)"
proof (cases "bn < NDIRECT")
  case True
  then show ?thesis using assms(3) by (simp add: bmap_def bmap_direct_def fblk_def word_less_nat_alt)
next
  case False
  then have b: "12 \<le> unat bn" "unat (bn - NDIRECT) = unat bn - 12" by (simp_all add: word_less_nat_alt unat_sub word_le_nat_alt)
  then have "bn - NDIRECT < NINDIRECT" using assms(2) by (simp add: word_less_nat_alt)
  moreover have i: "iaddrs (ino s ip) ! 12 \<noteq> 0" using assms(3) b(1) by (auto simp: fblk_def ind_def split: if_splits)
  moreover have "fblk s ip (unat bn) = get32 (blk s (iaddrs (ino s ip) ! 12)) (4 * (unat bn - 12))"
    using b(1) i by (simp add: fblk_def ind_def)
  ultimately show ?thesis using False b(2) assms(3) by (simp add: bmap_def bmap_direct_def Let_def)
qed

lemma chunk_fbyte:
  assumes "fblk s ip (off div 1024) \<noteq> 0" "off mod 1024 + k \<le> 1024" "length (blk s (fblk s ip (off div 1024))) = 1024"
  shows "chunk (blk s (fblk s ip (off div 1024))) (off mod 1024) k = map (fbyte s ip) [off..<off + k]"
proof (rule nth_equalityI)
  fix i assume "i < length (chunk (blk s (fblk s ip (off div 1024))) (off mod 1024) k)"
  then have i: "i < k" by (simp add: chunk_def)
  have o: "off + i = 1024 * (off div 1024) + (off mod 1024 + i)" by simp
  have lt: "off mod 1024 + i < 1024" using assms(2) i by linarith
  have "(1024 * q + x) div 1024 = q" "(1024 * q + x) mod 1024 = x" if "x < 1024" for q x :: nat using that by simp_all
  from this [OF lt, of "off div 1024"] have "(off + i) div 1024 = off div 1024" "(off + i) mod 1024 = off mod 1024 + i"
    unfolding o [symmetric] by blast+
  then show "chunk (blk s (fblk s ip (off div 1024))) (off mod 1024) k ! i = map (fbyte s ip) [off..<off + k] ! i"
    using i assms by (simp add: chunk_def fbyte_def)
qed (use assms in \<open>simp add: chunk_def\<close>)

lemma readi_step:
  "\<not> tot < n \<Longrightarrow> readi_loop put ip dst off n tot m s = Inr (tot, m, s)"
  "tot < n \<Longrightarrow> bmap ip (off div BSIZE) s = Inr (a, s1) \<Longrightarrow> a \<noteq> 0 \<Longrightarrow> k = min (n - tot) (BSIZE - off mod BSIZE) \<Longrightarrow>
   put m dst (chunk (blk s1 a) (unat (off mod BSIZE)) (unat k)) = Inr (0, m') \<Longrightarrow>
   readi_loop put ip dst off n tot m s = readi_loop put ip (dst + ucast k) (off + k) n (tot + k) m' s1"
  by (subst readi_loop.simps, simp add: Let_def)+

lemma readi_loop_spec:
  "fok s ip \<Longrightarrow> tot \<le> n \<Longrightarrow> takes put st dst N \<Longrightarrow> length xs + (unat n - unat tot) \<le> N \<Longrightarrow> unat off + (unat n - unat tot) \<le> FMAX \<Longrightarrow>
   (\<And>j. unat off \<le> j \<Longrightarrow> j < unat off + (unat n - unat tot) \<Longrightarrow> fblk s ip (j div 1024) \<noteq> 0) \<Longrightarrow>
   readi_loop put ip (dst + of_nat (length xs)) off n tot (st xs) s =
     Inr (n, st (xs @ map (fbyte s ip) [unat off..<unat off + (unat n - unat tot)]), s)"
proof (induction "unat n - unat tot" arbitrary: xs off tot rule: less_induct)
  case less
  show ?case
  proof (cases "tot < n")
    case False
    then have "tot = n" using less.prems(2) by simp
    then show ?thesis using readi_step(1) [OF False] by simp
  next
    case lt: True
    define k where "k = min (n - tot) (BSIZE - off mod BSIZE)"
    note r = round_size [OF lt k_def]
    have u: "unat (off div BSIZE) = unat off div 1024" "unat (off mod BSIZE) = unat off mod 1024" by (simp_all add: unat_div unat_mod)
    have ltn: "unat tot < unat n" using lt by (simp add: word_less_nat_alt)
    have nz: "fblk s ip (unat off div 1024) \<noteq> 0" using less.prems(6) [of "unat off"] ltn by simp
    have "unat off < FMAX" using less.prems(5) ltn by linarith
    then have b: "bmap ip (off div BSIZE) s = Inr (fblk s ip (unat off div 1024), s)"
      using bmap_hit [OF less.prems(1), of "off div BSIZE"] nz FMAX_div by (simp add: u)
    let ?ys = "map (fbyte s ip) [unat off..<unat off + unat k]"
    have len: "length (blk s b) = 1024" for b using fokD(1) [OF less.prems(1)] by (simp add: blocks_ok_def)
    have c: "chunk (blk s (fblk s ip (unat off div 1024))) (unat (off mod BSIZE)) (unat k) = ?ys"
      unfolding u by (rule chunk_fbyte [OF nz r(2) len])
    have "length xs + length ?ys \<le> N" using less.prems(4) r(5) by simp
    then have p: "put (st xs) (dst + of_nat (length xs)) ?ys = Inr (0, st (xs @ ?ys))" using less.prems(3) unfolding takes_def by blast
    have p': "put (st xs) (dst + of_nat (length xs)) (chunk (blk s (fblk s ip (unat off div 1024))) (unat (off mod BSIZE)) (unat k)) = Inr (0, st (xs @ ?ys))"
      unfolding c by (rule p)
    have off: "unat (off + k) = unat off + unat k"
      using FMAX_32 [OF less.prems(5)] r(5) by (simp add: unat_word_ariths)
    have e: "unat n - unat tot = unat k + (unat n - unat (tot + k))" using r(4,5) by simp
    have "readi_loop put ip (dst + of_nat (length xs)) off n tot (st xs) s =
        readi_loop put ip (dst + of_nat (length (xs @ ?ys))) (off + k) n (tot + k) (st (xs @ ?ys)) s"
      using readi_step(2) [where put = put and m = "st xs" and dst = "dst + of_nat (length xs)", OF lt b nz k_def p'] by (simp add: add.assoc)
    also have "\<dots> = Inr (n, st ((xs @ ?ys) @ map (fbyte s ip) [unat (off + k)..<unat (off + k) + (unat n - unat (tot + k))]), s)"
    proof (rule less.hyps [OF _ less.prems(1) _ less.prems(3)])
      show "unat n - unat (tot + k) < unat n - unat tot" "tot + k \<le> n" using r(3,4,5) by (simp_all add: word_le_nat_alt)
      show "length (xs @ ?ys) + (unat n - unat (tot + k)) \<le> N" using less.prems(4) e by simp
      show "unat (off + k) + (unat n - unat (tot + k)) \<le> FMAX" using less.prems(5) e off by simp
      show "fblk s ip (j div 1024) \<noteq> 0" if "unat (off + k) \<le> j" "j < unat (off + k) + (unat n - unat (tot + k))" for j
        using less.prems(6) [of j] that e off by simp
    qed
    also have "(xs @ ?ys) @ map (fbyte s ip) [unat (off + k)..<unat (off + k) + (unat n - unat (tot + k))] =
        xs @ map (fbyte s ip) [unat off..<unat off + (unat n - unat tot)]"
      using upt_add_eq_append [of "unat off" "unat off + unat k" "unat n - unat (tot + k)"] by (simp add: off e add.assoc)
    finally show ?thesis .
  qed
qed

lemma iupdate_frame:
  assumes "fok s ip" "iupdate ip s = Inr s'"
  shows "fok s' ip" "fblk s' ip = fblk s ip" "\<And>j. j < FMAX \<Longrightarrow> fbyte s' ip j = fbyte s ip j" "itab s' = itab s" "sb s' = sb s"
proof -
  note f = fokD [OF assms(1)]
  let ?b = "IBLOCK (inum (ino s ip)) (sb s)"
  define d where "d = dinode_put (blk s ?b) (dip_at (inum (ino s ip))) (ino s ip)"
  have c: "sb s' = sb s" "itab s' = itab s" and d2: "cache (dsk s') = (cache (dsk s))(?b := d)"
    unfolding d_def using bupdate_spec [OF assms(2) [unfolded iupdate_def Let_def]] by simp_all
  then show "itab s' = itab s" "sb s' = sb s" by simp_all
  have "length d = 1024" using f(1) by (simp add: d_def dinode_put_def blocks_ok_def)
  note d = this d2
  have ok: "sb_ok (sb s)" and len: "\<And>b. length (blk s b) = 1024" using f(1) by (auto simp: blocks_ok_def)
  have im: "unat ?b < unat (sb_bmapstart (sb s))" by (rule IBLOCK_range [OF ok f(4)])
  have "BBLOCK c (sb s) \<noteq> ?b" if "c < sb_size (sb s)" for c using BBLOCK_range [OF ok that] im by auto
  then have bu: "bused s' c" if "c < sb_size (sb s)" "bused s c" for c using that d c(1) by (simp add: bused_def bmark_def)
  have nd: "b \<noteq> ?b" if "isdata s b" for b using that im by (auto simp: isdata_def first_data_def)
  have io: "ino s' ip = ino s ip" "ip < length (itab s')" using c(2) f(2) by simp_all
  have len': "length (blk s' b) = 1024" for b using len d by simp
  have ib: "blk s' (ind s ip) = blk s (ind s ip)" if "ind s ip \<noteq> 0" using nd [OF f(5) [OF that]] d(2) by simp
  note fr = fok_frame [OF assms(1) c(1) io(2) arg_cong [OF io(1)] arg_cong [OF io(1)] len' bu ib]
  show "fok s' ip" by (rule fr(1))
  show e: "fblk s' ip = fblk s ip" by (rule fr(2))
  show "fbyte s' ip j = fbyte s ip j" if "j < FMAX" for j
    using nd [OF f(6) [OF FMAX_div [OF that]]] d(2) by (auto simp: fbyte_def e)
qed

lemma grow_size:
  assumes "fok s ip" "s' = (if off > isize (ino s ip) then upd_inode ip (\<lambda>i. i\<lparr>isize := off\<rparr>) s else s)"
  shows "fok s' ip" "fblk s' ip = fblk s ip" "fbyte s' ip = fbyte s ip"
    "ino s' ip = (ino s ip)\<lparr>isize := max (isize (ino s ip)) off\<rparr>" "sb s' = sb s"
proof -
  note f = fokD [OF assms(1)]
  have c: "sb s' = sb s" "dsk s' = dsk s" "ip < length (itab s')" "iaddrs (ino s' ip) = iaddrs (ino s ip)" "inum (ino s' ip) = inum (ino s ip)"
    using assms(2) f(2) by auto
  note fr = fok_frame [OF assms(1) c(1,3,4,5)]
  have "fok s' ip \<and> fblk s' ip = fblk s ip" using fr f(1) c(1,2) by (simp add: blocks_ok_def bused_def bmark_def)
  then show "fok s' ip" "fblk s' ip = fblk s ip" by auto
  then show "fbyte s' ip = fbyte s ip" using c(2) by (simp add: fbyte_def fun_eq_iff)
  show "ino s' ip = (ino s ip)\<lparr>isize := max (isize (ino s ip)) off\<rparr>" "sb s' = sb s" using assms(2) f(2) by (auto simp: max_def)
qed

lemma unat_add_no_wrap: "\<not> off + n < off \<Longrightarrow> unat (off + n) = unat off + unat (n :: u32)"
proof (rule ccontr)
  assume a: "\<not> off + n < off" "unat (off + n) \<noteq> unat off + unat n"
  have l: "unat off < 2 ^ LENGTH(32)" "unat n < 2 ^ LENGTH(32)" by (rule unsigned_less)+
  have ge: "\<not> unat off + unat n < 2 ^ 32" using a(2) by (auto simp: unat_word_ariths)
  then have "unat (off + n) = unat off + unat n - 2 ^ 32" using l by (simp add: unat_word_ariths mod_if)
  then show False using a(1) l(2) ge unfolding word_less_nat_alt by simp
qed

lemma sint_small: "unat (n :: u32) \<le> FMAX \<Longrightarrow> sint n = int (unat n)"
proof -
  assume n: "unat n \<le> FMAX"
  then have "n \<le> 274432" by (simp add: word_le_nat_alt FMAX_def)
  then have "uint n \<le> 274432" by (simp add: word_le_def)
  moreover have "- (2 ^ 31) \<le> uint n" by (rule order_trans [OF _ uint_ge_0]) simp
  ultimately have "signed_take_bit 31 (uint n) = uint n" by (intro signed_take_bit_int_eq_self) simp_all
  then show ?thesis by (simp add: sint_uint)
qed

section \<open>Properties\<close>

text \<open>
  C2. File contents: when writei reports that it has written all n bytes, the file holds these bytes
  from off on and is unchanged elsewhere, its size covers them, its blocks are still its own, and readi
  returns them without changing anything, through any copy functions that work.
\<close>

theorem writei_readi:
  assumes "fok s ip" "gives get m src bs" "length bs = unat n" "takes put st dst (unat n)"
    "writei get ip src off n m s = Inr (int (unat n), s')" "is_vault (ino s ip) = 0 \<or> vault_open (ino s ip) \<noteq> 0"
  shows "readi put ip dst off n (st []) s' = Inr (int (unat n), st bs, s') \<and> fok s' ip \<and>
    isize (ino s' ip) = max (isize (ino s ip)) (off + n) \<and>
    (\<forall>j<FMAX. fbyte s' ip j = (if unat off \<le> j \<and> j < unat off + unat n then bs ! (j - unat off) else fbyte s ip j))"
proof -
  have neg: "- 1 \<noteq> uint n" using uint_ge_0 [of n] by linarith
  have g: "\<not> off > isize (ino s ip)" "\<not> off + n < off" "\<not> off + n > MAXFILE * BSIZE"
    using assms(5) neg by (auto simp: writei_def split: if_splits)
  note on = unat_add_no_wrap [OF g(2)]
  have mx: "unat (MAXFILE * BSIZE) = FMAX" by (simp add: FMAX_def MAXFILE_def NDIRECT_def NINDIRECT_def BSIZE_def)
  have fm: "unat off + unat n \<le> FMAX" using g(3) on mx by (simp add: word_less_nat_alt)
  obtain off' tot s1 where l: "writei_loop get ip src off n 0 m s = Inr (off', tot, s1)" and r: "sint tot = int (unat n)" and
    u: "iupdate ip (if off' > isize (ino s1 ip) then upd_inode ip (\<lambda>i. i\<lparr>isize := off'\<rparr>) s1 else s1) = Inr s'"
    using assms(5) g by (auto simp: writei_def kr_simps Let_def)
  have sn: "sint n = int (unat n)" using sint_small [of n] fm by simp
  then have "sint tot = sint n" using r by simp
  then have "tot = n" by (rule signed_word_eqI)
  then have w: "stored s s1 ip (unat off) bs" "unat off' = unat off + unat n"
    using writei_loop_spec [of get ip src off n 0 m s off' s1 bs] l assms(1-3) fm by simp_all
  then have off': "off' = off + n" using on by (simp add: word_unat_eq_iff)
  have f1: "fok s1 ip" and i1: "ino s1 ip = (ino s ip)\<lparr>iaddrs := iaddrs (ino s1 ip)\<rparr>" using w(1) by (auto simp: stored_def)
  define s2 where "s2 = (if off' > isize (ino s1 ip) then upd_inode ip (\<lambda>i. i\<lparr>isize := off'\<rparr>) s1 else s1)"
  note gs = grow_size [OF f1 s2_def]
  note iu = iupdate_frame [OF gs(1) u [folded s2_def]]
  have e1: "isize (ino s1 ip) = isize (ino s ip)" "is_vault (ino s1 ip) = is_vault (ino s ip)" "vault_open (ino s1 ip) = vault_open (ino s ip)"
    by (subst i1, simp)+
  then have i2: "isize (ino s' ip) = max (isize (ino s ip)) (off + n)" "is_vault (ino s' ip) = is_vault (ino s ip)" "vault_open (ino s' ip) = vault_open (ino s ip)"
    using iu(4) gs(4) off' by simp_all
  have fb: "fbyte s' ip j = (if unat off \<le> j \<and> j < unat off + unat n then bs ! (j - unat off) else fbyte s ip j)" if "j < FMAX" for j
    using iu(3) [OF that] gs(3) w(1) that assms(3) unfolding stored_def by auto
  have "map (fbyte s' ip) [unat off..<unat off + unat n] = bs"
    using fb fm assms(3) by (intro nth_equalityI) auto
  moreover have "fblk s' ip (j div 1024) \<noteq> 0" if "unat off \<le> j" "j < unat off + unat n" for j
    using w(1) that fm assms(3) iu(2) gs(2) unfolding stored_def by auto
  ultimately have rl: "readi_loop put ip dst off n 0 (st []) s' = Inr (n, st bs, s')"
    using readi_loop_spec [OF iu(1) _ assms(4), of 0 n "[]" off] fm by simp
  have "off + n \<le> isize (ino s' ip)" "off \<le> isize (ino s' ip)" using g i2 by (auto simp: max_def)
  then have "readi put ip dst off n (st []) s' = Inr (int (unat n), st bs, s')"
    using rl assms(6) i2 g(2) sn by (auto simp: readi_def Let_def)
  then show ?thesis using iu(1) i2 fb by simp
qed

text \<open>Room for n more blocks in the log.\<close>

definition log_room :: "log \<Rightarrow> nat \<Rightarrow> bool" where
  "log_room lg n \<longleftrightarrow> length (lh lg) + n \<le> LOGSIZE \<and> int (length (lh lg) + n) \<le> sint (lsize lg) - 1 \<and> outstanding lg \<ge> 1"

lemma log_room_write: "log_room (flog s) (Suc n) \<Longrightarrow> \<exists>s'. fs_log_write b s = Inr s' \<and> log_room (flog s') n"
  by (auto simp: log_room_def fs_log_write_def log_write_def)

text \<open>A file system of 64 blocks with one file, whose first block is block 4.\<close>

definition sample_inode :: inode where
  "sample_inode = \<lparr>idev = 1, inum = 1, iref = 1, ilk = \<lparr>slocked = True, spid = 1\<rparr>, ivalid = True, is_vault = 0, vault_id = 0, vault_open = 0,
     itype = T_FILE, imajor = 0, iminor = 0, inlink = 1, isize = 0, iaddrs = 4 # replicate 12 0\<rparr>"

definition sample_fs :: fs where
  "sample_fs = \<lparr>sb = \<lparr>sb_magic = FSMAGIC, sb_size = 64, sb_nblocks = 60, sb_ninodes = 15, sb_nlog = 0, sb_logstart = 2, sb_inodestart = 2, sb_bmapstart = 3\<rparr>,
     flog = \<lparr>start = 40, lsize = 20, outstanding = 1, committing = False, lh = []\<rparr>,
     dsk = \<lparr>cache = (\<lambda>b. if b = 3 then 31 # replicate 1023 0 else replicate 1024 0), writes = [], pins = (\<lambda>b. 0)\<rparr>,
     itab = [sample_inode]\<rparr>"

lemma sample_bused: "unat b < 64 \<Longrightarrow> bused sample_fs b \<longleftrightarrow> unat b < 5"
proof -
  assume b: "unat b < 64"
  then have "unat (b div BPB) = 0" "unat (b mod BPB) = unat b" by (simp_all add: unat_div unat_mod unat_BPB)
  then have d: "b div BPB = 0" "unat (b mod BPB) = unat b" by (simp_all add: word_unat_eq_iff)
  have "bused sample_fs b \<longleftrightarrow> bit ((31 # replicate 1023 0) ! (unat b div 8) :: byte) (unat b mod 8)"
    by (simp add: bused_def bmark_def BBLOCK_def d bit_mask_and sample_fs_def)
  also have "\<dots> \<longleftrightarrow> unat b < 5"
  proof (cases "unat b < 8")
    case True
    then have "unat b \<in> set [0..<8]" by simp
    then show ?thesis by (auto simp: upt_rec bit_numeral_rec)
  qed (use b in \<open>auto simp: nth_Cons'\<close>)
  finally show ?thesis .
qed

lemma sample_fok: "fok sample_fs 0"
proof -
  have fd: "first_data (sb sample_fs) = 4" by (simp add: sample_fs_def first_data_def)
  have "unat b < 4 \<Longrightarrow> bused sample_fs b" for b using sample_bused [of b] by simp
  then have bo: "blocks_ok sample_fs" by (simp add: blocks_ok_def fd) (simp add: sample_fs_def sb_ok_def first_data_def)
  have i: "ind sample_fs 0 = 0" by (simp add: ind_def sample_fs_def sample_inode_def)
  have l: "fblk sample_fs 0 k = (if k = 0 then 4 else 0)" for k
    by (auto simp: fblk_def i) (simp_all add: sample_fs_def sample_inode_def nth_Cons' )
  have "isdata sample_fs 4" using sample_bused [of 4] by (simp add: isdata_def fd) (simp add: sample_fs_def)
  then show ?thesis unfolding fok_def l i using bo by (simp add: sample_fs_def sample_inode_def)
qed

lemma kget_gives: "length bs < 2 ^ 64 \<Longrightarrow> gives kget bs 0 bs"
  by (simp add: gives_def kget_def chunk_def unsigned_of_nat take_bit_eq_mod)

lemma kput_takes: "n \<le> length d \<Longrightarrow> length d < 2 ^ 64 \<Longrightarrow> takes kput (patch d 0) 0 n"
  unfolding takes_def
proof (intro allI impI)
  fix xs ys :: "byte list" assume l: "n \<le> length d" "length d < 2 ^ 64" "length xs + length ys \<le> n"
  then have "unat (of_nat (length xs) :: u64) = length xs" by (simp add: unsigned_of_nat take_bit_eq_mod)
  moreover have "patch (patch d 0 xs) (length xs) ys = patch d 0 (xs @ ys)" by (simp add: patch_def add.commute)
  ultimately show "kput (patch d 0 xs) (0 + of_nat (length xs)) ys = Inr (0, patch d 0 (xs @ ys))" by (simp add: kput_def)
qed

theorem writei_readi_witness:
  "\<exists>s'. writei kget 0 0 0 3 [7, 8, 9] sample_fs = Inr (3, s') \<and> readi kput 0 0 0 3 (replicate 3 0) s' = Inr (3, [7, 8, 9], s')"
proof -
  have w: "\<exists>s'. writei kget 0 0 0 3 [7, 8, 9] sample_fs = Inr (int (unat (3 :: u32)), s')"
  proof -
    have b: "bmap 0 (0 div BSIZE) sample_fs = Inr (4, sample_fs)"
      by (simp add: bmap_def bmap_direct_def NDIRECT_def sample_fs_def sample_inode_def)
    have g: "kget [7, 8, 9] 0 (unat (3 :: u32)) = Inr (0, [7, 8, 9])" by (simp add: kget_def chunk_def)
    have k: "(3 :: u32) = min (3 - 0) (BSIZE - 0 mod BSIZE)" by (simp add: BSIZE_def)
    have l: "log_room (flog (bset a d sample_fs)) (Suc 1)" for a d by (simp add: log_room_def bset_def sample_fs_def LOGSIZE_def)
    obtain s1 where s1: "fs_log_write 4 (bset 4 (patch (blk sample_fs 4) (unat (0 mod BSIZE)) [7, 8, 9]) sample_fs) = Inr s1" "log_room (flog s1) 1"
      using log_room_write [OF l [of 4]] by blast
    have e: "writei_loop kget 0 0 0 3 0 [7, 8, 9] sample_fs = Inr (3, 3, s1)"
      using writei_step(4) [where get = kget and m = "[7, 8, 9]", OF _ b _ k g] s1(1) writei_step(1) [of 3 3] by simp
    have "\<exists>s'. iupdate 0 s2 = Inr s'" if "log_room (flog s2) 1" for s2
      using that log_room_write [of _ 0] by (simp add: iupdate_def Let_def bupdate_def bset_def) (metis fs.select_convs(2) fs.surjective fs.update_convs(3))
    moreover define s2 where "s2 = (if 3 > isize (ino s1 0) then upd_inode 0 (\<lambda>i. i\<lparr>isize := 3\<rparr>) s1 else s1)"
    moreover have "log_room (flog s2) 1" using s1(2) by (simp add: s2_def upd_inode_def)
    ultimately obtain s' where u: "iupdate 0 s2 = Inr s'" by blast
    have z: "isize (ino sample_fs 0) = 0" by (simp add: sample_fs_def sample_inode_def)
    have "writei kget 0 0 0 3 [7, 8, 9] sample_fs = Inr (3, s')"
      by (simp add: writei_def z e s2_def [symmetric] u MAXFILE_def NDIRECT_def NINDIRECT_def BSIZE_def)
    then show ?thesis by simp
  qed
  then obtain s' where s': "writei kget 0 0 0 3 [7, 8, 9] sample_fs = Inr (int (unat (3 :: u32)), s')" by blast
  have "gives kget [7, 8, 9] 0 [7, 8, 9 :: byte]" by (rule kget_gives) simp
  moreover have "takes kput (patch (replicate 3 0) 0) 0 (unat (3 :: u32))" by (rule kput_takes) simp_all
  ultimately show ?thesis
    using writei_readi [OF sample_fok _ _ _ s', of "[7, 8, 9]" kput "patch (replicate 3 0) 0" 0] s'
    by (simp add: sample_fs_def sample_inode_def patch_def)
qed

end
