(* ===== verification/Xv6_Proc.thy ===== *)
theory Xv6_Proc
  imports Xv6_Fs Xv6_Vm Xv6_Printf
begin

text \<open>
  The process table and the scheduler, proc.c. A process pointer is an index into the table. Each
  function below works on the process, or on the table, that the code has locked; a call of swtch
  ends a function, and what the code does when it is switched back to is a function of its own. A step
  relation composes them for any number of CPUs.
\<close>

section \<open>Processes\<close>

datatype procstate = UNUSED | USED | SLEEPING | RUNNABLE | RUNNING | ZOMBIE

text \<open>What a process sleeps on: the address of a variable of the kernel.\<close>

datatype chan = Chan_log | Chan_ticks | Chan_nread u64 | Chan_nwrite u64 | Chan_proc nat | Chan_other u64

record kcontext =
  ctx_ra :: u64
  ctx_sp :: u64
  ctx_s :: "u64 list"

record proc =
  p_state :: procstate
  p_chan :: "chan option"
  p_killed :: int
  p_xstate :: int
  p_pid :: int
  p_ticks :: int
  p_last_scheduled_tick :: u64
  p_avialable_tokens :: int
  p_token_bucket :: int
  p_time :: int
  p_pticks :: int
  p_parent :: "nat option"
  p_kstack :: u64
  p_sz :: u64
  p_pagetable :: u64
  p_trapframe :: u64
  p_context :: kcontext
  p_ofile :: "nat option list"
  p_cwd :: "nat option"
  p_name :: "byte list"

definition procinit :: "proc list \<Rightarrow> proc list" where
  "procinit ps = map (\<lambda>(i, p). p\<lparr>p_state := UNUSED, p_kstack := KSTACK i\<rparr>) (enumerate 0 ps)"

text \<open>allocpid returns the pid and the new value of nextpid.\<close>

definition allocpid :: "int \<Rightarrow> int \<times> int" where
  "allocpid nextpid = (nextpid, nextpid + 1)"

section \<open>Sleep, wakeup and kill\<close>

text \<open>wakeup skips the calling process, if there is one.\<close>

definition wakeup :: "nat option \<Rightarrow> chan \<Rightarrow> proc list \<Rightarrow> proc list" where
  "wakeup me ch ps =
     map (\<lambda>(i, p). if Some i \<noteq> me then
         if p_state p = SLEEPING \<and> p_chan p = Some ch then p\<lparr>p_state := RUNNABLE\<rparr> else p
       else p) (enumerate 0 ps)"

text \<open>sleep before and after its call of sched.\<close>

definition sleep_enter :: "chan \<Rightarrow> proc \<Rightarrow> proc" where
  "sleep_enter ch p = p\<lparr>p_chan := Some ch, p_state := SLEEPING\<rparr>"

definition sleep_leave :: "proc \<Rightarrow> proc" where
  "sleep_leave p = p\<lparr>p_chan := None\<rparr>"

fun kill :: "int \<Rightarrow> proc list \<Rightarrow> int \<times> proc list" where
  "kill pid [] = (-1, [])"
| "kill pid (p # ps) =
     (if p_pid p = pid then
        (0, (let p = p\<lparr>p_killed := 1\<rparr> in if p_state p = SLEEPING then p\<lparr>p_state := RUNNABLE\<rparr> else p) # ps)
      else case kill pid ps of (r, ps) \<Rightarrow> (r, p # ps))"

definition setkilled :: "proc \<Rightarrow> proc" where
  "setkilled p = p\<lparr>p_killed := 1\<rparr>"

definition killed :: "proc \<Rightarrow> int" where
  "killed p = p_killed p"

definition reparent :: "nat option \<Rightarrow> nat \<Rightarrow> nat \<Rightarrow> proc list \<Rightarrow> proc list" where
  "reparent me initproc p ps =
     fold (\<lambda>pp ps.
         if p_parent (ps ! pp) = Some p
         then wakeup me (Chan_proc initproc) (ps[pp := (ps ! pp)\<lparr>p_parent := Some initproc\<rparr>])
         else ps) [0..<length ps] ps"

section \<open>The scheduler\<close>

definition FATCAT_SCHED :: "proc \<Rightarrow> u64 \<Rightarrow> proc" where
  "FATCAT_SCHED p current_tick =
     (let tick_diff = int_of_u64 (current_tick - p_last_scheduled_tick p);
          p = (if p_token_bucket p < 65 \<and> tick_diff > 0
               then fold (\<lambda>i p. if (i + 1) mod 10 = 0 then p\<lparr>p_token_bucket := p_token_bucket p + 1\<rparr> else p)
                 [0..<nat tick_diff] p
               else p);
          p = p\<lparr>p_last_scheduled_tick := current_tick\<rparr>
      in p\<lparr>p_avialable_tokens := p_token_bucket p\<rparr>)"

text \<open>
  scheduler before it switches to a process, and when the process has switched back; current_tick is
  read once, when the CPU enters scheduler.
\<close>

definition scheduler_pick :: "proc \<Rightarrow> proc option" where
  "scheduler_pick p = (if p_state p = RUNNABLE then Some (p\<lparr>p_state := RUNNING\<rparr>) else None)"

definition scheduler_back :: "u64 \<Rightarrow> proc \<Rightarrow> proc" where
  "scheduler_back current_tick p = FATCAT_SCHED p current_tick"

text \<open>
  sched on the CPU hart with the lock of p; it switches away at one of two places; after the first it
  goes on to the second.
\<close>

datatype sched_point = Sched_first | Sched_last

definition sched_charge :: "proc \<Rightarrow> proc" where
  "sched_charge p =
     (if p_state p = RUNNABLE \<and> p_token_bucket p > 0 then p\<lparr>p_token_bucket := p_token_bucket p - 1\<rparr> else p)"

definition sched_rest :: "u64 \<Rightarrow> proc \<Rightarrow> proc" where
  "sched_rest ctick p =
     p\<lparr>p_time := int_of_u64 ctick, p_avialable_tokens := p_token_bucket p, p_last_scheduled_tick := ctick\<rparr>"

definition sched :: "nat \<Rightarrow> spinlock \<Rightarrow> cpu \<Rightarrow> u64 \<Rightarrow> proc \<Rightarrow> (sched_point \<times> proc) kr" where
  "sched hart plk c ctick p =
     (if \<not> holding hart plk then Inl (Panic ''sched p->lock'')
      else if noff c \<noteq> 1 then Inl (Panic ''sched locks'')
      else if p_state p = RUNNING then Inl (Panic ''sched running'')
      else if intr c then Inl (Panic ''sched interruptible'')
      else let tick_diff = int_of_u64 (ctick - p_last_scheduled_tick p) in
        if tick_diff > 0 \<and> p_state p = RUNNABLE then
          let p = (sched_charge ^^ nat tick_diff) p
          in Inr (Sched_last, sched_rest ctick (p\<lparr>p_ticks := p_ticks p + tick_diff\<rparr>))
        else if p_token_bucket p < 1 \<and> p_state p = SLEEPING then
          Inr (Sched_first, p\<lparr>p_state := RUNNABLE, p_pticks := p_ticks p, p_time := int_of_u64 ctick\<rparr>)
        else Inr (Sched_last, sched_rest ctick p))"

text \<open>yield up to its call of sched; the last part of exit.\<close>

definition yield_enter :: "proc \<Rightarrow> proc" where
  "yield_enter p = p\<lparr>p_state := RUNNABLE\<rparr>"

definition exit_enter :: "int \<Rightarrow> proc \<Rightarrow> proc" where
  "exit_enter status p = p\<lparr>p_xstate := status, p_state := ZOMBIE\<rparr>"

section \<open>Listing processes\<close>

fun state_name :: "procstate \<Rightarrow> byte list" where
  "state_name UNUSED = bytes ''unused''"
| "state_name USED = bytes ''used''"
| "state_name SLEEPING = bytes ''sleep ''"
| "state_name RUNNABLE = bytes ''runble''"
| "state_name RUNNING = bytes ''run   ''"
| "state_name ZOMBIE = bytes ''zombie''"

text \<open>procdump: the arguments of its printf, one line for each process.\<close>

definition procdump :: "proc list \<Rightarrow> (int \<times> byte list \<times> byte list) list" where
  "procdump ps = map (\<lambda>p. (p_pid p, state_name (p_state p), p_name p)) (filter (\<lambda>p. p_state p \<noteq> UNUSED) ps)"

record uproc =
  u_pid :: int
  u_name :: "byte list"
  u_state :: "byte list"
  u_ticks :: int
  u_avialable_tokens :: int
  u_pticks :: int

definition ps_state_name :: "procstate \<Rightarrow> byte list" where
  "ps_state_name st = (if st = RUNNING then bytes ''run '' else state_name st)"

fun pslist_ticks :: "nat \<Rightarrow> uproc \<Rightarrow> proc \<Rightarrow> uproc \<times> proc" where
  "pslist_ticks 0 u p = (u, p)"
| "pslist_ticks (Suc n) u p =
     (let u = u\<lparr>u_ticks := u_ticks u + 1\<rparr> in
      if u_avialable_tokens u > 0 then pslist_ticks n (u\<lparr>u_avialable_tokens := u_avialable_tokens u - 1\<rparr>) p
      else pslist_ticks n (u\<lparr>u_ticks := p_pticks p, u_avialable_tokens := 64\<rparr>)
        (p\<lparr>p_state := SLEEPING, p_avialable_tokens := 64\<rparr>))"

text \<open>
  The entry of one process. The variable u lives across the iterations: where the code does not set
  u.ticks it keeps the value of the entry before.
\<close>

definition pslist_entry :: "uproc \<Rightarrow> proc \<Rightarrow> (uproc \<times> proc) kr" where
  "pslist_entry u p =
     (let u = u\<lparr>u_pid := p_pid p, u_avialable_tokens := p_avialable_tokens p, u_pticks := p_pticks p\<rparr>;
          tick_diff = int_of_u64 (of_int (p_time p + p_avialable_tokens p) - p_last_scheduled_tick p);
          (u, p) = (if tick_diff > 0 then pslist_ticks (nat tick_diff) (u\<lparr>u_ticks := 0\<rparr>) p else (u, p))
      in case safestrcpy (u_state u) (ps_state_name (p_state p) @ [0]) 7 of
           None \<Rightarrow> Inl (Fault ''safestrcpy'')
         | Some st \<Rightarrow> (case safestrcpy (u_name u) (p_name p) 16 of
             None \<Rightarrow> Inl (Fault ''safestrcpy'')
           | Some nm \<Rightarrow> Inr (u\<lparr>u_state := st, u_name := nm\<rparr>, p)))"

definition le32 :: "int \<Rightarrow> byte list" where
  "le32 x = put32 [0, 0, 0, 0] 0 (of_int x)"

text \<open>struct uproc as bytes; pad is the byte between state and ticks.\<close>

definition uproc_bytes :: "byte \<Rightarrow> uproc \<Rightarrow> byte list" where
  "uproc_bytes pad u = le32 (u_pid u) @ u_name u @ u_state u @ [pad] @ le32 (u_ticks u) @ le32 (u_avialable_tokens u) @ le32 (u_pticks u)"

text \<open>pslist with the entries done so far in front of those still to list; the result is the count or -1.\<close>

fun pslist :: "byte \<Rightarrow> 'm putter \<Rightarrow> u64 \<Rightarrow> int \<Rightarrow> uproc \<Rightarrow> proc list \<Rightarrow> 'm \<Rightarrow> (int \<times> proc list \<times> 'm) kr" where
  "pslist pad put utable count u [] m = Inr (count, [], m)"
| "pslist pad put utable count u (p # ps) m =
     (if p_state p = UNUSED then
        kbind (pslist pad put utable count u ps m) (\<lambda>(r, ps, m). Inr (r, p # ps, m))
      else kbind (pslist_entry u p) (\<lambda>(u, p).
        kbind (put m utable (uproc_bytes pad u)) (\<lambda>(r, m).
          if r < 0 then Inr (-1, p # ps, m)
          else kbind (pslist pad put (utable + 40) (count + 1) u ps m) (\<lambda>(r, ps, m). Inr (r, p # ps, m)))))"

section \<open>The machine\<close>

text \<open>
  The table, the process on each CPU, and the processes that wait in sched at its first switch, each
  with its local variable ctick. The set dozed records whom pslist has put to sleep.
\<close>

record machine =
  procs :: "proc list"
  running :: "nat \<Rightarrow> nat option"
  waiting :: "nat \<Rightarrow> u64 option"
  dozed :: "nat set"

text \<open>Process i has called sched on CPU c and the scheduler has the CPU again.\<close>

definition switched :: "nat \<Rightarrow> nat \<Rightarrow> u64 \<Rightarrow> u64 \<Rightarrow> sched_point \<Rightarrow> proc \<Rightarrow> machine \<Rightarrow> machine" where
  "switched c i ctick current_tick pt p s =
     s\<lparr>procs := (procs s)[i := scheduler_back current_tick p], running := (running s)(c := None),
       waiting := (waiting s)(i := if pt = Sched_first then Some ctick else None)\<rparr>"

text \<open>
  pslist reads and writes the table without any lock, while the processes it lists run: it decides on
  what it has read of an entry, q, and puts the process to sleep as it then is.
\<close>

definition pslist_dozes :: "proc \<Rightarrow> bool" where
  "pslist_dozes q \<longleftrightarrow> p_avialable_tokens q < int_of_u64 (of_int (p_time q + p_avialable_tokens q) - p_last_scheduled_tick q) \<and>
     0 < int_of_u64 (of_int (p_time q + p_avialable_tokens q) - p_last_scheduled_tick q)"

definition doze :: "proc \<Rightarrow> proc" where
  "doze p = p\<lparr>p_state := SLEEPING, p_avialable_tokens := 64\<rparr>"

inductive machine_step :: "machine \<Rightarrow> machine \<Rightarrow> bool" where
  ms_pick: "running s c = None \<Longrightarrow> i < length (procs s) \<Longrightarrow> scheduler_pick (procs s ! i) = Some p \<Longrightarrow> waiting s i = None \<Longrightarrow>
    machine_step s (s\<lparr>procs := (procs s)[i := p], running := (running s)(c := Some i)\<rparr>)"
| ms_resume: "running s c = None \<Longrightarrow> i < length (procs s) \<Longrightarrow> scheduler_pick (procs s ! i) = Some p \<Longrightarrow> waiting s i = Some ctick \<Longrightarrow>
    machine_step s (switched c i ctick current_tick Sched_last (sched_rest ctick p) s)"
| ms_yield: "running s c = Some i \<Longrightarrow> i < length (procs s) \<Longrightarrow> sched c plk k ctick (yield_enter (procs s ! i)) = Inr (pt, p) \<Longrightarrow>
    machine_step s (switched c i ctick current_tick pt p s)"
| ms_sleep: "running s c = Some i \<Longrightarrow> i < length (procs s) \<Longrightarrow> sched c plk k ctick (sleep_enter ch (procs s ! i)) = Inr (pt, p) \<Longrightarrow>
    machine_step s (switched c i ctick current_tick pt p s)"
| ms_woken: "running s c = Some i \<Longrightarrow> i < length (procs s) \<Longrightarrow>
    machine_step s (s\<lparr>procs := (procs s)[i := sleep_leave (procs s ! i)]\<rparr>)"
| ms_exit: "running s c = Some i \<Longrightarrow> i < length (procs s) \<Longrightarrow> sched c plk k ctick (exit_enter status (procs s ! i)) = Inr (pt, p) \<Longrightarrow>
    machine_step s (switched c i ctick current_tick pt p s)"
| ms_wakeup: "machine_step s (s\<lparr>procs := wakeup (running s c) ch (procs s)\<rparr>)"
| ms_kill: "machine_step s (s\<lparr>procs := snd (kill pid (procs s))\<rparr>)"
| ms_alloc: "i < length (procs s) \<Longrightarrow> p_state (procs s ! i) = UNUSED \<Longrightarrow>
    machine_step s (s\<lparr>procs := (procs s)[i := (procs s ! i)\<lparr>p_state := USED, p_pid := pid, p_token_bucket := 64\<rparr>]\<rparr>)"
| ms_start: "i < length (procs s) \<Longrightarrow> p_state (procs s ! i) = USED \<Longrightarrow>
    machine_step s (s\<lparr>procs := (procs s)[i := (procs s ! i)\<lparr>p_state := RUNNABLE\<rparr>]\<rparr>)"
| ms_free: "i < length (procs s) \<Longrightarrow> p_state (procs s ! i) \<in> {USED, ZOMBIE} \<Longrightarrow>
    machine_step s (s\<lparr>procs := (procs s)[i := (procs s ! i)\<lparr>p_state := UNUSED, p_pid := 0, p_parent := None, p_chan := None, p_killed := 0\<rparr>]\<rparr>)"
| ms_pslist: "running s c = Some j \<Longrightarrow> i < length (procs s) \<Longrightarrow> p_state q \<noteq> UNUSED \<Longrightarrow> pslist_dozes q \<Longrightarrow>
    machine_step s (s\<lparr>procs := (procs s)[i := doze (procs s ! i)], dozed := insert i (dozed s)\<rparr>)"

inductive machine_run :: "machine \<Rightarrow> machine \<Rightarrow> bool" where
  mr_refl: "machine_run s s"
| mr_step: "machine_run s s1 \<Longrightarrow> machine_step s1 s2 \<Longrightarrow> machine_run s s2"

section \<open>Facts about the operations\<close>

lemma length_wakeup [simp]: "length (wakeup me ch ps) = length ps"
  by (simp add: wakeup_def)

lemma wakeup_nth: "i < length ps \<Longrightarrow> wakeup me ch ps ! i =
    (if Some i \<noteq> me \<and> p_state (ps ! i) = SLEEPING \<and> p_chan (ps ! i) = Some ch then (ps ! i)\<lparr>p_state := RUNNABLE\<rparr> else ps ! i)"
  by (simp add: wakeup_def nth_enumerate_eq)

lemma kill_nth: "length (snd (kill pid ps)) = length ps \<and>
    (i < length ps \<longrightarrow> snd (kill pid ps) ! i = ps ! i \<or>
      p_pid (ps ! i) = pid \<and> snd (kill pid ps) ! i = (ps ! i)\<lparr>p_killed := 1, p_state := if p_state (ps ! i) = SLEEPING then RUNNABLE else p_state (ps ! i)\<rparr>)"
proof (induction ps arbitrary: i)
  case (Cons p ps)
  show ?case using Cons.IH [of "i - 1"] by (cases i) (auto simp: Let_def split: prod.split)
qed simp

lemma kill_state:
  assumes "i < length ps" "p_state (ps ! i) \<noteq> SLEEPING"
  shows "p_state (snd (kill pid ps) ! i) = p_state (ps ! i)" "p_token_bucket (snd (kill pid ps) ! i) = p_token_bucket (ps ! i)"
  using kill_nth [of pid ps i] assms by auto

lemma kill_tokens: "i < length ps \<Longrightarrow> p_token_bucket (snd (kill pid ps) ! i) = p_token_bucket (ps ! i)"
  using kill_nth [of pid ps i] by auto

lemma wakeup_state: "i < length ps \<Longrightarrow> p_state (ps ! i) \<noteq> SLEEPING \<Longrightarrow> wakeup me ch ps ! i = ps ! i"
  by (simp add: wakeup_nth)

lemma fatcat_fold:
  "fold (\<lambda>i p. if (i + 1) mod 10 = 0 then p\<lparr>p_token_bucket := p_token_bucket p + 1\<rparr> else p) [0..<n] p =
   p\<lparr>p_token_bucket := p_token_bucket p + int (n div 10)\<rparr>"
proof (induction n)
  case (Suc n)
  have "Suc n div 10 = (if Suc n mod 10 = 0 then Suc (n div 10) else n div 10)" by (simp add: div_Suc)
  then show ?case using Suc by simp
qed simp

text \<open>FATCAT adds one token for each ten ticks, with no upper bound on what one call adds.\<close>

lemma FATCAT_tokens:
  "FATCAT_SCHED p t = p\<lparr>p_token_bucket := p_token_bucket p +
       (if p_token_bucket p < 65 \<and> int_of_u64 (t - p_last_scheduled_tick p) > 0
        then int (nat (int_of_u64 (t - p_last_scheduled_tick p)) div 10) else 0),
     p_last_scheduled_tick := t,
     p_avialable_tokens := p_token_bucket p +
       (if p_token_bucket p < 65 \<and> int_of_u64 (t - p_last_scheduled_tick p) > 0
        then int (nat (int_of_u64 (t - p_last_scheduled_tick p)) div 10) else 0)\<rparr>"
  unfolding FATCAT_SCHED_def Let_def fatcat_fold by simp

lemma scheduler_back_simps [simp]:
  "p_state (scheduler_back t p) = p_state p" "p_token_bucket (scheduler_back t p) \<ge> p_token_bucket p"
  by (simp_all add: scheduler_back_def FATCAT_tokens)

lemma sched_charge_pow:
  "p_state ((sched_charge ^^ n) p) = p_state p"
  "p_token_bucket ((sched_charge ^^ n) p) = (if p_state p = RUNNABLE \<and> p_token_bucket p > 0 then max 0 (p_token_bucket p - int n) else p_token_bucket p)"
proof (induction n)
  case (Suc n)
  case 1 show ?case using Suc by (simp add: sched_charge_def)
  case 2 show ?case using Suc by (auto simp: sched_charge_def)
qed auto

lemma sched_result:
  assumes "sched hart plk c ctick p = Inr (pt, p')"
  shows "p_state p' = (if pt = Sched_first then RUNNABLE else p_state p)" "p_state p \<noteq> RUNNING"
    "pt = Sched_first \<longleftrightarrow> p_state p = SLEEPING \<and> p_token_bucket p < 1"
    "0 \<le> p_token_bucket p \<Longrightarrow> 0 \<le> p_token_bucket p'"
proof -
  have s: "p_state p \<noteq> RUNNING" using assms by (auto simp: sched_def split: if_splits)
  then show "p_state p \<noteq> RUNNING" .
  have "p_state p' = (if pt = Sched_first then RUNNABLE else p_state p) \<and>
      (pt = Sched_first \<longleftrightarrow> p_state p = SLEEPING \<and> p_token_bucket p < 1) \<and> (0 \<le> p_token_bucket p \<longrightarrow> 0 \<le> p_token_bucket p')"
    using assms s by (auto simp: sched_def Let_def sched_rest_def sched_charge_pow split: if_splits)
  then show "p_state p' = (if pt = Sched_first then RUNNABLE else p_state p)"
    "pt = Sched_first \<longleftrightarrow> p_state p = SLEEPING \<and> p_token_bucket p < 1" "0 \<le> p_token_bucket p \<Longrightarrow> 0 \<le> p_token_bucket p'" by auto
qed

section \<open>Invariants of the machine\<close>

text \<open>What holds of the processes that no listing has put to sleep; the token buckets of all.\<close>

definition machine_inv :: "machine \<Rightarrow> bool" where
  "machine_inv s \<longleftrightarrow>
     (\<forall>c i. running s c = Some i \<longrightarrow> i < length (procs s)) \<and>
     (\<forall>c i. running s c = Some i \<longrightarrow> i \<notin> dozed s \<longrightarrow> p_state (procs s ! i) = RUNNING \<and> waiting s i = None) \<and>
     (\<forall>c c' i. running s c = Some i \<longrightarrow> running s c' = Some i \<longrightarrow> i \<notin> dozed s \<longrightarrow> c = c') \<and>
     (\<forall>i t. waiting s i = Some t \<longrightarrow> i < length (procs s)) \<and>
     (\<forall>i t. waiting s i = Some t \<longrightarrow> i \<notin> dozed s \<longrightarrow> p_state (procs s ! i) = RUNNABLE) \<and>
     (\<forall>i<length (procs s). 0 \<le> p_token_bucket (procs s ! i))"

lemma machine_invD:
  assumes "machine_inv s"
  shows "running s c = Some i \<Longrightarrow> i < length (procs s)" "running s c = Some i \<Longrightarrow> i \<notin> dozed s \<Longrightarrow> p_state (procs s ! i) = RUNNING"
    "running s c = Some i \<Longrightarrow> i \<notin> dozed s \<Longrightarrow> waiting s i = None"
    "running s c = Some i \<Longrightarrow> running s c' = Some i \<Longrightarrow> i \<notin> dozed s \<Longrightarrow> c = c'"
    "waiting s i = Some t \<Longrightarrow> i < length (procs s)" "waiting s i = Some t \<Longrightarrow> i \<notin> dozed s \<Longrightarrow> p_state (procs s ! i) = RUNNABLE"
    "i < length (procs s) \<Longrightarrow> 0 \<le> p_token_bucket (procs s ! i)"
  using assms unfolding machine_inv_def by blast+

text \<open>Changing the state of one process that no CPU runs and that does not wait in sched.\<close>

lemma machine_inv_update:
  assumes "machine_inv s" "i < length (procs s)" "p_state (procs s ! i) \<notin> {RUNNING, RUNNABLE}" "0 \<le> p_token_bucket p"
  shows "machine_inv (s\<lparr>procs := (procs s)[i := p]\<rparr>)"
  unfolding machine_inv_def using machine_invD [OF assms(1)] assms(2-4)
  by (auto simp: nth_list_update)

lemma machine_inv_switched:
  assumes "machine_inv s" "i \<notin> dozed s \<Longrightarrow> running s c = Some i \<or> running s c = None \<and> (\<forall>c. running s c \<noteq> Some i)" "i < length (procs s)"
    "pt = Sched_first \<Longrightarrow> p_state p = RUNNABLE" "0 \<le> p_token_bucket p"
  shows "machine_inv (switched c i ctick t pt p s)"
proof -
  note d = machine_invD [OF assms(1)]
  have o: "i \<in> dozed s" if "c' \<noteq> c" "running s c' = Some i" for c' using assms(2) d(4) that by blast
  have b: "0 \<le> p_token_bucket (scheduler_back t p)" using assms(5) scheduler_back_simps(2) [where t = t and p = p] by linarith
  show ?thesis
    unfolding machine_inv_def switched_def using d o b assms(3,4) by (auto simp: nth_list_update)
qed

lemma machine_inv_sched:
  assumes "machine_inv s" "running s c = Some i" "sched hart plk k ctick q = Inr (pt, p)" "p_token_bucket q = p_token_bucket (procs s ! i)"
  shows "machine_inv (switched c i ctick t pt p s)"
proof (rule machine_inv_switched [OF assms(1)])
  show "i < length (procs s)" by (rule machine_invD(1) [OF assms(1,2)])
  then show "0 \<le> p_token_bucket p" using sched_result(4) [OF assms(3)] machine_invD(7) [OF assms(1)] assms(4) by simp
  show "pt = Sched_first \<Longrightarrow> p_state p = RUNNABLE" using sched_result(1) [OF assms(3)] by simp
qed (use assms(2) in simp)

lemma machine_inv_map:
  assumes "machine_inv s" "length ps = length (procs s)" "\<And>i. i < length ps \<Longrightarrow> p_token_bucket (ps ! i) = p_token_bucket (procs s ! i)"
    "\<And>i. i < length ps \<Longrightarrow> p_state (procs s ! i) \<noteq> SLEEPING \<Longrightarrow> p_state (ps ! i) = p_state (procs s ! i)"
  shows "machine_inv (s\<lparr>procs := ps\<rparr>)"
proof -
  note d = machine_invD [OF assms(1)]
  have "p_state (ps ! i) = RUNNING" if "running s c = Some i" "i \<notin> dozed s" for c i
    using assms(2,4) d(1) [OF that(1)] d(2) [OF that] by simp
  moreover have "p_state (ps ! i) = RUNNABLE" if "waiting s i = Some t" "i \<notin> dozed s" for t i
    using assms(2,4) d(5) [OF that(1)] d(6) [OF that] by simp
  ultimately show ?thesis unfolding machine_inv_def using d assms(2,3) by auto
qed

lemma picked_running:
  assumes "machine_inv s" "p_state (procs s ! i) = RUNNABLE" "running s c = Some i"
  shows "i \<in> dozed s"
  using machine_invD(2) [OF assms(1,3)] assms(2) by fastforce

lemma machine_inv_step: "machine_step s s' \<Longrightarrow> machine_inv s \<Longrightarrow> machine_inv s'"
proof (induction rule: machine_step.induct)
  case (ms_pick s c i p)
  note d = machine_invD [OF ms_pick.prems]
  have p: "p_state (procs s ! i) = RUNNABLE" "p = (procs s ! i)\<lparr>p_state := RUNNING\<rparr>"
    using ms_pick.hyps(3) by (auto simp: scheduler_pick_def split: if_splits)
  note n = picked_running [OF ms_pick.prems p(1)]
  show ?case unfolding machine_inv_def using d n p ms_pick.hyps by (auto simp: nth_list_update)
next
  case (ms_resume s c i p ctick t)
  note d = machine_invD [OF ms_resume.prems]
  have p: "p_state (procs s ! i) = RUNNABLE" "p = (procs s ! i)\<lparr>p_state := RUNNING\<rparr>"
    using ms_resume.hyps(3) by (auto simp: scheduler_pick_def split: if_splits)
  have n: "i \<notin> dozed s \<Longrightarrow> \<forall>c. running s c \<noteq> Some i" using picked_running [OF ms_resume.prems p(1)] by blast
  show ?case by (rule machine_inv_switched [OF ms_resume.prems]) (use n ms_resume.hyps d(7) [of i] p in \<open>simp_all add: sched_rest_def\<close>)
next
  case (ms_yield s c i plk k ctick pt p t)
  show ?case by (rule machine_inv_sched [OF ms_yield.prems ms_yield.hyps(1,3)]) (simp add: yield_enter_def)
next
  case (ms_sleep s c i plk k ctick ch pt p t)
  show ?case by (rule machine_inv_sched [OF ms_sleep.prems ms_sleep.hyps(1,3)]) (simp add: sleep_enter_def)
next
  case (ms_woken s c i)
  note d = machine_invD [OF ms_woken.prems]
  show ?case unfolding machine_inv_def using d ms_woken.hyps by (auto simp: nth_list_update sleep_leave_def)
next
  case (ms_exit s c i plk k ctick status pt p t)
  show ?case by (rule machine_inv_sched [OF ms_exit.prems ms_exit.hyps(1,3)]) (simp add: exit_enter_def)
next
  case (ms_wakeup s c ch)
  show ?case by (rule machine_inv_map [OF ms_wakeup.prems]) (simp_all add: wakeup_nth)
next
  case (ms_kill s pid)
  have l: "length (snd (kill pid (procs s))) = length (procs s)" using kill_nth by blast
  show ?case by (rule machine_inv_map [OF ms_kill.prems]) (simp_all add: l kill_state kill_tokens)
next
  case (ms_alloc i s pid)
  then show ?case by (intro machine_inv_update) auto
next
  case (ms_start i s)
  then show ?case using machine_invD(7) [OF ms_start.prems, of i] by (intro machine_inv_update) auto
next
  case (ms_free i s)
  then show ?case using machine_invD(7) [OF ms_free.prems, of i] by (intro machine_inv_update) auto
next
  case (ms_pslist s c j i q)
  note d = machine_invD [OF ms_pslist.prems]
  show ?case unfolding machine_inv_def using d ms_pslist.hyps(2) by (auto simp: nth_list_update doze_def)
qed

lemma machine_inv_run: "machine_run s s' \<Longrightarrow> machine_inv s \<Longrightarrow> machine_inv s'"
  by (induction rule: machine_run.induct) (auto intro: machine_inv_step)

text \<open>A process that no CPU runs and none will: it is at the first switch of sched, or RUNNING behind the second.\<close>

definition lost :: "machine \<Rightarrow> nat \<Rightarrow> bool" where
  "lost s i \<longleftrightarrow> i < length (procs s) \<and> (\<forall>c. running s c \<noteq> Some i) \<and>
     (waiting s i \<noteq> None \<and> p_state (procs s ! i) = RUNNABLE \<or> p_state (procs s ! i) = RUNNING)"

lemma lost_switched: "lost s i \<Longrightarrow> j \<noteq> i \<Longrightarrow> lost (switched c j ctick t pt p s) i"
  by (auto simp: lost_def switched_def)

lemma dozed_mono: "machine_step s s' \<Longrightarrow> dozed s \<subseteq> dozed s'"
  by (induction rule: machine_step.induct) (auto simp: switched_def)

lemma lost_step: "machine_step s s' \<Longrightarrow> lost s i \<Longrightarrow> i \<notin> dozed s' \<Longrightarrow> lost s' i"
proof (induction rule: machine_step.induct)
  case (ms_pick s c j p)
  then have "j \<noteq> i" by (auto simp: lost_def scheduler_pick_def split: if_splits)
  then show ?case using ms_pick.prems(1) by (auto simp: lost_def)
next
  case (ms_resume s c j p ctick t)
  show ?case
  proof (cases "j = i")
    case True
    then have "p_state p = RUNNING" using ms_resume.hyps by (auto simp: scheduler_pick_def split: if_splits)
    then show ?thesis using ms_resume.prems(1) True by (auto simp: lost_def switched_def sched_rest_def)
  qed (simp add: lost_switched ms_resume.prems(1))
next
  case (ms_yield s c j plk k ctick pt p t)
  then have "j \<noteq> i" by (auto simp: lost_def)
  then show ?case by (simp add: lost_switched ms_yield.prems(1))
next
  case (ms_sleep s c j plk k ctick ch pt p t)
  then have "j \<noteq> i" by (auto simp: lost_def)
  then show ?case by (simp add: lost_switched ms_sleep.prems(1))
next
  case (ms_woken s c j)
  then have "j \<noteq> i" by (auto simp: lost_def)
  then show ?case using ms_woken.prems(1) by (auto simp: lost_def)
next
  case (ms_exit s c j plk k ctick status pt p t)
  then have "j \<noteq> i" by (auto simp: lost_def)
  then show ?case by (simp add: lost_switched ms_exit.prems(1))
next
  case (ms_wakeup s c ch)
  then show ?case by (auto simp: lost_def wakeup_state)
next
  case (ms_kill s pid)
  have l: "length (snd (kill pid (procs s))) = length (procs s)" using kill_nth by blast
  then show ?case using ms_kill.prems(1) by (auto simp: lost_def kill_state)
next
  case (ms_alloc j s pid)
  then show ?case by (auto simp: lost_def nth_list_update)
next
  case (ms_start j s)
  then show ?case by (auto simp: lost_def nth_list_update)
next
  case (ms_free j s)
  then show ?case by (auto simp: lost_def nth_list_update)
next
  case (ms_pslist s c j k q)
  then show ?case by (auto simp: lost_def)
qed

lemma dozed_run: "machine_run s s' \<Longrightarrow> dozed s \<subseteq> dozed s'"
  by (induction rule: machine_run.induct) (auto dest: dozed_mono)

lemma lost_run: "machine_run s s' \<Longrightarrow> lost s i \<Longrightarrow> i \<notin> dozed s' \<Longrightarrow> lost s' i"
proof (induction rule: machine_run.induct)
  case (mr_step s s1 s2)
  then have "i \<notin> dozed s1" using dozed_mono [OF mr_step.hyps(2)] by auto
  then show ?case using mr_step lost_step [OF mr_step.hyps(2)] by blast
qed simp

text \<open>The entry of a process in pslist changes it exactly if pslist_dozes holds.\<close>

lemma pslist_ticks_doze:
  "snd (pslist_ticks n u p) = (if n = 0 \<or> int n \<le> u_avialable_tokens u then p else doze p)"
proof (induction n u p rule: pslist_ticks.induct)
  case (2 n u p)
  have "doze (doze p) = doze p" by (simp add: doze_def)
  then show ?case using 2 by (auto simp: Let_def doze_def [symmetric])
qed simp

lemma pslist_entry_doze:
  assumes "pslist_entry u p = Inr (u', p')"
  shows "p' = (if pslist_dozes p then doze p else p)"
proof -
  let ?d = "int_of_u64 (of_int (p_time p + p_avialable_tokens p) - p_last_scheduled_tick p)"
  let ?u = "u\<lparr>u_pid := p_pid p, u_avialable_tokens := p_avialable_tokens p, u_pticks := p_pticks p, u_ticks := 0\<rparr>"
  have "p' = (if ?d > 0 then snd (pslist_ticks (nat ?d) ?u p) else p)"
    using assms by (auto simp: pslist_entry_def Let_def split: prod.splits option.splits if_splits)
  then show ?thesis using pslist_ticks_doze [of "nat ?d" ?u p] by (auto simp: pslist_dozes_def)
qed

definition sample_proc :: proc where
  "sample_proc = \<lparr>p_state = RUNNABLE, p_chan = None, p_killed = 0, p_xstate = 0, p_pid = 1, p_ticks = 0, p_last_scheduled_tick = 0,
     p_avialable_tokens = 0, p_token_bucket = 0, p_time = 5, p_pticks = 0, p_parent = None, p_kstack = 0, p_sz = 0, p_pagetable = 0,
     p_trapframe = 0, p_context = \<lparr>ctx_ra = 0, ctx_sp = 0, ctx_s = []\<rparr>, p_ofile = [], p_cwd = None, p_name = [0]\<rparr>"

definition sample_machine :: machine where
  "sample_machine = \<lparr>procs = [sample_proc], running = (\<lambda>c. None), waiting = (\<lambda>i. None), dozed = {}\<rparr>"

definition sample_running :: machine where
  "sample_running = sample_machine\<lparr>procs := [sample_proc\<lparr>p_state := RUNNING\<rparr>], running := (\<lambda>c. None)(0 := Some 0)\<rparr>"

lemma sample_pick: "machine_run sample_machine sample_running"
proof -
  have p: "scheduler_pick sample_proc = Some (sample_proc\<lparr>p_state := RUNNING\<rparr>)" by (simp add: scheduler_pick_def sample_proc_def)
  have "machine_step sample_machine (sample_machine\<lparr>procs := (procs sample_machine)[0 := sample_proc\<lparr>p_state := RUNNING\<rparr>], running := (running sample_machine)(0 := Some 0)\<rparr>)"
    by (rule ms_pick) (simp_all add: sample_machine_def p)
  then have "machine_step sample_machine sample_running" by (simp add: sample_running_def sample_machine_def)
  then show ?thesis by (rule mr_step [OF mr_refl])
qed

text \<open>The process lists the table and kills itself; CPU 1 then runs it too.\<close>

definition sample_twice :: machine where
  "sample_twice = \<lparr>procs = [sample_proc\<lparr>p_state := RUNNING, p_avialable_tokens := 64, p_killed := 1\<rparr>],
     running = (\<lambda>c. None)(0 := Some 0, 1 := Some 0), waiting = (\<lambda>i. None), dozed = {0}\<rparr>"

lemma sample_double_run: "machine_run sample_machine sample_twice"
proof -
  let ?s1 = "sample_running\<lparr>procs := [doze (procs sample_running ! 0)], dozed := {0}\<rparr>"
  let ?s2 = "?s1\<lparr>procs := [(doze (procs sample_running ! 0))\<lparr>p_killed := 1, p_state := RUNNABLE\<rparr>]\<rparr>"
  have "machine_step sample_running (sample_running\<lparr>procs := (procs sample_running)[0 := doze (procs sample_running ! 0)],
      dozed := insert 0 (dozed sample_running)\<rparr>)"
    by (rule ms_pslist [where c = 0 and j = 0 and q = "procs sample_running ! 0"])
      (simp_all add: sample_running_def sample_proc_def pslist_dozes_def int_of_u64_def)
  then have a: "machine_step sample_running ?s1" by (simp add: sample_running_def sample_machine_def)
  have "snd (kill 1 (procs ?s1)) = procs ?s2" by (simp add: sample_running_def sample_proc_def doze_def)
  then have b: "machine_step ?s1 ?s2" using ms_kill [of ?s1 1] by simp
  have "machine_step ?s2 (?s2\<lparr>procs := (procs ?s2)[0 := (procs ?s2 ! 0)\<lparr>p_state := RUNNING\<rparr>], running := (running ?s2)(1 := Some 0)\<rparr>)"
    by (rule ms_pick) (simp_all add: sample_running_def sample_machine_def scheduler_pick_def)
  moreover have "?s2\<lparr>procs := (procs ?s2)[0 := (procs ?s2 ! 0)\<lparr>p_state := RUNNING\<rparr>], running := (running ?s2)(1 := Some 0)\<rparr> = sample_twice"
    by (simp add: sample_twice_def sample_running_def sample_machine_def doze_def)
  ultimately have c: "machine_step ?s2 sample_twice" by simp
  show ?thesis by (rule mr_step [OF mr_step [OF mr_step [OF sample_pick a] b] c])
qed

section \<open>Properties\<close>

text \<open>At boot no CPU runs a process.\<close>

definition machine_init :: "machine \<Rightarrow> bool" where
  "machine_init s \<longleftrightarrow> (\<forall>c. running s c = None) \<and> (\<forall>i. waiting s i = None) \<and> dozed s = {} \<and>
     (\<forall>i<length (procs s). 0 \<le> p_token_bucket (procs s ! i))"

text \<open>
  C4. The scheduler, on any number of CPUs and any interleaving with the other operations of the
  process table: a process that no call of pslist has put to sleep runs on at most one CPU, and is
  RUNNING there; token buckets are never negative, and a process that yields, sleeps or exits with the
  locks the code takes does not make sched panic. For a process that pslist has put to sleep this
  fails: pslist makes a running process SLEEPING, kill makes it RUNNABLE, and a second CPU runs it
  while the first still does.
\<close>

theorem sched_mutex:
  assumes "machine_init s0" "machine_run s0 s"
  shows "(\<forall>c c' i. i \<notin> dozed s \<and> running s c = Some i \<and> running s c' = Some i \<longrightarrow> c = c') \<and>
    (\<forall>c i. i \<notin> dozed s \<and> running s c = Some i \<longrightarrow> p_state (procs s ! i) = RUNNING) \<and>
    (\<forall>i<length (procs s). 0 \<le> p_token_bucket (procs s ! i)) \<and>
    (holding c plk \<and> noff k = 1 \<and> \<not> intr k \<longrightarrow>
      (\<forall>q\<in>{yield_enter p, sleep_enter ch p, exit_enter status p}. \<exists>r. sched c plk k ctick q = Inr r)) \<and>
    (\<exists>s1 s2 c c' i. machine_init s1 \<and> machine_run s1 s2 \<and> c \<noteq> c' \<and> running s2 c = Some i \<and> running s2 c' = Some i)"
proof -
  have "machine_inv s0" using assms(1) by (simp add: machine_inv_def machine_init_def)
  from machine_inv_run [OF assms(2) this] have inv: "machine_inv s" .
  have ok: "\<exists>r. sched c plk k ctick q = Inr r" if "holding c plk" "noff k = 1" "\<not> intr k" "p_state q \<noteq> RUNNING" for q
    using that by (auto simp: sched_def Let_def)
  have "machine_init sample_machine" by (simp add: machine_init_def sample_machine_def sample_proc_def)
  moreover have "running sample_twice 0 = Some 0" "running sample_twice 1 = Some 0" by (simp_all add: sample_twice_def)
  ultimately have twice: "\<exists>s1 s2 c c' i. machine_init s1 \<and> machine_run s1 s2 \<and> c \<noteq> c' \<and> running s2 c = Some i \<and> running s2 c' = Some i"
    using sample_double_run zero_neq_one by blast
  show ?thesis using inv ok twice unfolding machine_inv_def
    by (intro conjI) (auto simp: yield_enter_def sleep_enter_def exit_enter_def)
qed

theorem sched_mutex_witness:
  "{c. running sample_running c = Some 0} = {0} \<and> p_state (procs sample_running ! 0) = RUNNING"
proof -
  have r: "running sample_running 0 = Some 0" "0 \<notin> dozed sample_running" by (simp_all add: sample_running_def sample_machine_def)
  have "machine_init sample_machine" by (simp add: machine_init_def sample_machine_def sample_proc_def)
  from sched_mutex [OF this sample_pick] have
    "\<forall>c c' i. i \<notin> dozed sample_running \<and> running sample_running c = Some i \<and> running sample_running c' = Some i \<longrightarrow> c = c'"
    "\<forall>c i. i \<notin> dozed sample_running \<and> running sample_running c = Some i \<longrightarrow> p_state (procs sample_running ! i) = RUNNING"
    by blast+
  then show ?thesis using r by blast
qed



text \<open>kill(0) finds a process slot that is not in use and marks it killed, before a process is made in it.\<close>

lemma kill_zero: "p_pid p = 0 \<Longrightarrow> p_state p = UNUSED \<Longrightarrow> kill 0 (p # ps) = (0, p\<lparr>p_killed := 1\<rparr> # ps)"
  by simp

end
