(* ===== verification/Xv6_File.thy ===== *)
theory Xv6_File
  imports Xv6_Proc Xv6_Pipe
begin

text \<open>
  Open files: file.c, pipealloc of pipe.c, the argument fetching of syscall.c, and the calls of
  sysfile.c that work on descriptors. The kernel state puts the components together; cur is the process that
  makes the call. Pointers to struct file and struct inode are indices into their tables, a pipe is
  named by its page. A call that would sleep yields Blocked.
\<close>

section \<open>Kernel state\<close>

definition NOFILE :: nat where "NOFILE = 16"
definition NFILE :: nat where "NFILE = 100"
definition NDEV :: int where "NDEV = 10"
definition MAXPATH :: nat where "MAXPATH = 128"
definition MAXARG :: nat where "MAXARG = 32"
definition O_RDONLY :: u32 where "O_RDONLY = 0x000"
definition O_WRONLY :: u32 where "O_WRONLY = 0x001"
definition O_RDWR :: u32 where "O_RDWR = 0x002"
definition O_CREATE :: u32 where "O_CREATE = 0x200"
definition O_TRUNC :: u32 where "O_TRUNC = 0x400"

datatype ftype = FD_NONE | FD_PIPE | FD_INODE | FD_DEVICE

record kfile =
  f_type :: ftype
  f_ref :: int
  f_readable :: bool
  f_writable :: bool
  f_pipe :: u64
  f_ip :: nat
  f_off :: u32
  f_major :: u16

text \<open>
  A device function works on the state of its device and on memory, through the page table of the
  caller; Blocked where it would sleep.
\<close>

type_synonym 'd devfn = "'d \<Rightarrow> kmem \<Rightarrow> u64 \<Rightarrow> u64 \<Rightarrow> int \<Rightarrow> (int \<times> 'd \<times> kmem) kr"

text \<open>
  The struct Shrimpy with the static pointers of map_frames, whose null value is 0; the state of the
  vault calls is the pages of mkv and st, the inode of mkv, and the contents of st.
\<close>

record shrimpy_t =
  sh_P :: "nat option"
  sh_NP :: "nat option"
  sh_vas :: "u64 list"
  sh_pas :: "u64 list"
  sh_frames :: "u64 list"

record vault_state =
  v_mkv :: u64
  v_st :: u64
  v_inode :: nat
  v_stat :: stat

record 'd kernel =
  km :: kmem
  kfs :: fs
  ftable :: "kfile list"
  pipes :: "u64 \<Rightarrow> pipe"
  ptab :: "proc list"
  cur :: nat
  nextpid :: int
  initproc :: nat
  kticks :: u32
  shr :: shrimpy_t
  vlt :: vault_state
  devst :: 'd
  dev_read :: "nat \<Rightarrow> 'd devfn option"
  dev_write :: "nat \<Rightarrow> 'd devfn option"

abbreviation myproc :: "'d kernel \<Rightarrow> proc" where
  "myproc k \<equiv> ptab k ! cur k"

definition upd_proc :: "(proc \<Rightarrow> proc) \<Rightarrow> 'd kernel \<Rightarrow> 'd kernel" where
  "upd_proc f k = k\<lparr>ptab := (ptab k)[cur k := f (myproc k)]\<rparr>"

definition on_fs :: "(fs \<Rightarrow> ('a \<times> fs) kr) \<Rightarrow> 'd kernel \<Rightarrow> ('a \<times> 'd kernel) kr" where
  "on_fs f k = kbind (f (kfs k)) (\<lambda>(x, s). Inr (x, k\<lparr>kfs := s\<rparr>))"

definition on_fs' :: "(fs \<Rightarrow> fs kr) \<Rightarrow> 'd kernel \<Rightarrow> 'd kernel kr" where
  "on_fs' f k = kbind (f (kfs k)) (\<lambda>s. Inr (k\<lparr>kfs := s\<rparr>))"

definition kwakeup :: "chan \<Rightarrow> 'd kernel \<Rightarrow> 'd kernel" where
  "kwakeup ch k = k\<lparr>ptab := wakeup (Some (cur k)) ch (ptab k)\<rparr>"

definition kbegin_op :: "'d kernel \<Rightarrow> 'd kernel kr" where
  "kbegin_op k =
     (case begin_op (flog (kfs k)) of
        None \<Rightarrow> Inl (Blocked ''begin_op'')
      | Some lg \<Rightarrow> Inr (k\<lparr>kfs := (kfs k)\<lparr>flog := lg\<rparr>\<rparr>))"

definition kend_op :: "'d kernel \<Rightarrow> 'd kernel kr" where
  "kend_op k =
     kbind (end_op (flog (kfs k)) (dsk (kfs k))) (\<lambda>(lg, d).
       Inr (kwakeup Chan_log (k\<lparr>kfs := (kfs k)\<lparr>flog := lg, dsk := d\<rparr>\<rparr>)))"

section \<open>Copying for the current process\<close>

definition kcopyout :: "u64 \<Rightarrow> byte list \<Rightarrow> 'd kernel \<Rightarrow> (int \<times> 'd kernel) kr" where
  "kcopyout dst bs k = kbind (copyout (km k) (p_pagetable (myproc k)) dst bs) (\<lambda>(r, s). Inr (r, k\<lparr>km := s\<rparr>))"

text \<open>
  either_copyout and either_copyin for a given page table; a kernel address is an address of physical
  memory.
\<close>

definition either_copyout :: "bool \<Rightarrow> u64 \<Rightarrow> kmem putter" where
  "either_copyout user_dst pt s dst bs =
     (if user_dst then copyout s pt dst bs else Inr (0, s\<lparr>mem := store_bytes (mem s) dst bs\<rparr>))"

definition either_copyin :: "bool \<Rightarrow> u64 \<Rightarrow> kmem getter" where
  "either_copyin user_src pt s src n =
     (if user_src then copyin s pt src n else Inr (0, load_bytes (mem s) src n))"

text \<open>
  One byte at a time, as pipes do. walkaddr rejects addresses above MAXVA, so that copyin and copyout
  do not panic.
\<close>

definition store_user :: "u64 \<Rightarrow> u64 \<Rightarrow> byte \<Rightarrow> kmem \<Rightarrow> kmem option" where
  "store_user pt a b s = (case copyout s pt a [b] of Inl e \<Rightarrow> None | Inr (r, s) \<Rightarrow> if r = -1 then None else Some s)"

definition fetch_user :: "kmem \<Rightarrow> u64 \<Rightarrow> u64 \<Rightarrow> byte option" where
  "fetch_user s pt a = (case copyin s pt a 1 of Inl e \<Rightarrow> None | Inr (r, bs) \<Rightarrow> if r = -1 then None else Some (bs ! 0))"

section \<open>Open files\<close>

fun filealloc_scan :: "kfile list \<Rightarrow> nat \<Rightarrow> nat option" where
  "filealloc_scan [] i = None"
| "filealloc_scan (f # fs) i = (if f_ref f = 0 then Some i else filealloc_scan fs (i + 1))"

definition upd_file :: "nat \<Rightarrow> (kfile \<Rightarrow> kfile) \<Rightarrow> 'd kernel \<Rightarrow> 'd kernel" where
  "upd_file f g k = k\<lparr>ftable := (ftable k)[f := g (ftable k ! f)]\<rparr>"

definition filealloc :: "'d kernel \<Rightarrow> nat option \<times> 'd kernel" where
  "filealloc k =
     (case filealloc_scan (ftable k) 0 of
        None \<Rightarrow> (None, k)
      | Some f \<Rightarrow> (Some f, upd_file f (\<lambda>x. x\<lparr>f_ref := 1\<rparr>) k))"

definition filedup :: "nat \<Rightarrow> 'd kernel \<Rightarrow> (nat \<times> 'd kernel) kr" where
  "filedup f k =
     (if f_ref (ftable k ! f) < 1 then Inl (Panic ''filedup'')
      else Inr (f, upd_file f (\<lambda>x. x\<lparr>f_ref := f_ref x + 1\<rparr>) k))"

fun pipe_chan :: "u64 \<Rightarrow> pchan \<Rightarrow> chan" where
  "pipe_chan pi Ch_nread = Chan_nread pi"
| "pipe_chan pi Ch_nwrite = Chan_nwrite pi"

definition kpipeclose :: "u64 \<Rightarrow> bool \<Rightarrow> 'd kernel \<Rightarrow> 'd kernel kr" where
  "kpipeclose pi writable k =
     (case pipeclose (pipes k pi) writable of (p, ch, gone) \<Rightarrow>
        let k = kwakeup (pipe_chan pi ch) (k\<lparr>pipes := (pipes k)(pi := p)\<rparr>) in
        if gone then kbind (kfree (km k) pi) (\<lambda>s. Inr (k\<lparr>km := s\<rparr>)) else Inr k)"

definition fileclose :: "nat \<Rightarrow> 'd kernel \<Rightarrow> 'd kernel kr" where
  "fileclose f k =
     (if f_ref (ftable k ! f) < 1 then Inl (Panic ''fileclose'')
      else let k = upd_file f (\<lambda>x. x\<lparr>f_ref := f_ref x - 1\<rparr>) k in
        if f_ref (ftable k ! f) > 0 then Inr k
        else let ff = ftable k ! f; k = upd_file f (\<lambda>x. x\<lparr>f_ref := 0, f_type := FD_NONE\<rparr>) k in
          if f_type ff = FD_PIPE then kpipeclose (f_pipe ff) (f_writable ff) k
          else if f_type ff = FD_INODE \<or> f_type ff = FD_DEVICE then
            kbind (kbegin_op k) (\<lambda>k.
            kbind (on_fs' (iput (p_pid (myproc k)) (f_ip ff)) k) kend_op)
          else Inr k)"

text \<open>struct stat as bytes; junk is what the stack holds where stati does not write.\<close>

definition stat_bytes :: "byte list \<Rightarrow> stat \<Rightarrow> byte list" where
  "stat_bytes junk st =
     le32 (st_dev st) @ put32 [0, 0, 0, 0] 0 (st_ino st) @ put16 [0, 0] 0 (st_type st) @ put16 [0, 0] 0 (st_nlink st) @ take 4 junk @
     load_bytes (put64 (\<lambda>a. 0) 0 (st_size st)) 0 8 @ le32 (st_is_vault st) @ le32 (st_vault_id st) @ take 8 (drop 4 junk)"

definition filestat :: "byte list \<Rightarrow> nat \<Rightarrow> u64 \<Rightarrow> 'd kernel \<Rightarrow> (int \<times> 'd kernel) kr" where
  "filestat junk f addr k =
     (let ff = ftable k ! f in
      if f_type ff = FD_INODE \<or> f_type ff = FD_DEVICE then
        kbind (on_fs' (ilock (p_pid (myproc k)) (f_ip ff)) k) (\<lambda>k.
        let st = stati (ino (kfs k) (f_ip ff)) \<lparr>st_dev = 0, st_ino = 0, st_type = 0, st_nlink = 0, st_size = 0, st_is_vault = 0, st_vault_id = 0, st_vault_open = 0\<rparr> in
        kbind (on_fs' (iunlock (p_pid (myproc k)) (f_ip ff)) k) (\<lambda>k.
        kbind (kcopyout addr (stat_bytes junk st) k) (\<lambda>(r, k).
        if r < 0 then Inr (-1, k) else Inr (0, k))))
      else Inr (-1, k))"

definition fileread :: "nat \<Rightarrow> u64 \<Rightarrow> int \<Rightarrow> 'd kernel \<Rightarrow> (int \<times> 'd kernel) kr" where
  "fileread f addr n k =
     (let ff = ftable k ! f; pt = p_pagetable (myproc k); pid = p_pid (myproc k) in
      if \<not> f_readable ff then Inr (-1, k)
      else if f_type ff = FD_PIPE then
        (case piperead (store_user pt) (killed (myproc k) \<noteq> 0) (km k) (pipes k (f_pipe ff)) addr n of (out, s, p, chs) \<Rightarrow>
           (case out of
              Sleeps ch \<Rightarrow> Inl (Blocked ''piperead'')
            | Done r \<Rightarrow> Inr (r, fold (\<lambda>ch. kwakeup (pipe_chan (f_pipe ff) ch)) chs (k\<lparr>km := s, pipes := (pipes k)(f_pipe ff := p)\<rparr>))))
      else if f_type ff = FD_DEVICE then
        if sint (f_major ff) < 0 \<or> sint (f_major ff) \<ge> NDEV then Inr (-1, k)
        else (case dev_read k (unat (f_major ff)) of
            None \<Rightarrow> Inr (-1, k)
          | Some rd \<Rightarrow> kbind (rd (devst k) (km k) pt addr n) (\<lambda>(r, d, s). Inr (r, k\<lparr>devst := d, km := s\<rparr>)))
      else if f_type ff = FD_INODE then
        kbind (on_fs' (ilock pid (f_ip ff)) k) (\<lambda>k.
        kbind (readi (either_copyout True pt) (f_ip ff) addr (f_off ff) (of_int n) (km k) (kfs k)) (\<lambda>(r, s, fss).
        let k = k\<lparr>km := s, kfs := fss\<rparr>;
            k = (if r > 0 then upd_file f (\<lambda>x. x\<lparr>f_off := f_off x + of_int r\<rparr>) k else k) in
        kbind (on_fs' (iunlock pid (f_ip ff)) k) (\<lambda>k. Inr (r, k))))
      else Inl (Panic ''fileread''))"

text \<open>The loop of filewrite, a few blocks at a time; i bytes are written so far.\<close>

definition max_write :: int where
  "max_write = ((int MAXOPBLOCKS - 1 - 1 - 2) div 2) * 1024"

function filewrite_loop :: "nat \<Rightarrow> u64 \<Rightarrow> int \<Rightarrow> int \<Rightarrow> 'd kernel \<Rightarrow> (int \<times> 'd kernel) kr" where
  "filewrite_loop f addr i n k =
     (if i < n then
        let ip = f_ip (ftable k ! f); pid = p_pid (myproc k); n1 = (if n - i > max_write then max_write else n - i) in
        kbind (kbegin_op k) (\<lambda>k.
        kbind (on_fs' (ilock pid ip) k) (\<lambda>k.
        kbind (on_fs (writei (either_copyin True (p_pagetable (myproc k))) ip (addr + of_int i) (f_off (ftable k ! f)) (of_int n1) (km k)) k) (\<lambda>(r, k).
        let k = (if r > 0 then upd_file f (\<lambda>x. x\<lparr>f_off := f_off x + of_int r\<rparr>) k else k) in
        kbind (on_fs' (iunlock pid ip) k) (\<lambda>k.
        kbind (kend_op k) (\<lambda>k.
        if r \<noteq> n1 then Inr (i, k) else filewrite_loop f addr (i + r) n k)))))
      else Inr (i, k))"
  by pat_completeness auto
termination
  by (relation "measure (\<lambda>(f, addr, i, n, k). nat (n - i))") (auto simp: max_write_def MAXOPBLOCKS_def split: if_splits)

declare filewrite_loop.simps [simp del]

definition filewrite :: "nat \<Rightarrow> u64 \<Rightarrow> int \<Rightarrow> 'd kernel \<Rightarrow> (int \<times> 'd kernel) kr" where
  "filewrite f addr n k =
     (let ff = ftable k ! f; pt = p_pagetable (myproc k) in
      if \<not> f_writable ff then Inr (-1, k)
      else if f_type ff = FD_PIPE then
        (case pipewrite (fetch_user (km k) pt) (\<lambda>_. killed (myproc k) \<noteq> 0) (pipes k (f_pipe ff)) addr 0 n of (out, i, p, chs) \<Rightarrow>
           (case out of
              Sleeps ch \<Rightarrow> Inl (Blocked ''pipewrite'')
            | Done r \<Rightarrow> Inr (r, fold (\<lambda>ch. kwakeup (pipe_chan (f_pipe ff) ch)) chs (k\<lparr>pipes := (pipes k)(f_pipe ff := p)\<rparr>))))
      else if f_type ff = FD_DEVICE then
        if sint (f_major ff) < 0 \<or> sint (f_major ff) \<ge> NDEV then Inr (-1, k)
        else (case dev_write k (unat (f_major ff)) of
            None \<Rightarrow> Inr (-1, k)
          | Some wr \<Rightarrow> kbind (wr (devst k) (km k) pt addr n) (\<lambda>(r, d, s). Inr (r, k\<lparr>devst := d, km := s\<rparr>)))
      else if f_type ff = FD_INODE then
        kbind (filewrite_loop f addr 0 n k) (\<lambda>(i, k). Inr (if i = n then n else -1, k))
      else Inl (Panic ''filewrite''))"

text \<open>pipealloc: junk is what the new page holds.\<close>

definition close_opt :: "nat option \<Rightarrow> 'd kernel \<Rightarrow> 'd kernel kr" where
  "close_opt f k = (case f of None \<Rightarrow> Inr k | Some f \<Rightarrow> fileclose f k)"

definition pipealloc :: "byte list \<Rightarrow> 'd kernel \<Rightarrow> ((nat \<times> nat) option \<times> 'd kernel) kr" where
  "pipealloc junk k =
     (case filealloc k of (f0, k) \<Rightarrow>
      case (if f0 = None then (None, k) else filealloc k) of (f1, k) \<Rightarrow>
      case (if f0 = None \<or> f1 = None then (0, km k) else kalloc (km k)) of (pi, s) \<Rightarrow>
      let k = k\<lparr>km := s\<rparr> in
      case (f0, f1) of
        (Some r, Some w) \<Rightarrow>
          if pi = 0 then kbind (close_opt f0 k) (\<lambda>k. kbind (close_opt f1 k) (\<lambda>k. Inr (None, k)))
          else let k = k\<lparr>pipes := (pipes k)(pi := pipe_init junk)\<rparr>;
                   k = upd_file r (\<lambda>x. x\<lparr>f_type := FD_PIPE, f_readable := True, f_writable := False, f_pipe := pi\<rparr>) k;
                   k = upd_file w (\<lambda>x. x\<lparr>f_type := FD_PIPE, f_readable := False, f_writable := True, f_pipe := pi\<rparr>) k
               in Inr (Some (r, w), k)
      | _ \<Rightarrow> kbind (close_opt f0 k) (\<lambda>k. kbind (close_opt f1 k) (\<lambda>k. Inr (None, k))))"

section \<open>System call arguments\<close>

text \<open>The trap frame is a page of physical memory; its field a0 lies at byte 112.\<close>

definition tf_get :: "nat \<Rightarrow> 'd kernel \<Rightarrow> u64" where
  "tf_get j k = get64 (mem (km k)) (p_trapframe (myproc k) + of_nat j)"

definition tf_put :: "nat \<Rightarrow> u64 \<Rightarrow> 'd kernel \<Rightarrow> 'd kernel" where
  "tf_put j v k = k\<lparr>km := (km k)\<lparr>mem := put64 (mem (km k)) (p_trapframe (myproc k) + of_nat j) v\<rparr>\<rparr>"

definition argraw :: "nat \<Rightarrow> 'd kernel \<Rightarrow> u64 kr" where
  "argraw n k = (if n \<le> 5 then Inr (tf_get (112 + 8 * n) k) else Inl (Panic ''argraw''))"

definition argint :: "nat \<Rightarrow> 'd kernel \<Rightarrow> int kr" where
  "argint n k = kbind (argraw n k) (\<lambda>x. Inr (int_of_u64 x))"

definition argaddr :: "nat \<Rightarrow> 'd kernel \<Rightarrow> u64 kr" where
  "argaddr n k = argraw n k"

text \<open>fetchstr gives the characters before the NUL, whose number is what the code returns; None is -1.\<close>

definition fetchstr :: "u64 \<Rightarrow> nat \<Rightarrow> 'd kernel \<Rightarrow> byte list option kr" where
  "fetchstr addr mx k =
     kbind (copyinstr (km k) (p_pagetable (myproc k)) addr mx) (\<lambda>(r, bs). Inr (if r < 0 then None else Some (cstr bs)))"

definition argstr :: "nat \<Rightarrow> nat \<Rightarrow> 'd kernel \<Rightarrow> byte list option kr" where
  "argstr n mx k = kbind (argaddr n k) (\<lambda>addr. fetchstr addr mx k)"

definition fetchaddr :: "u64 \<Rightarrow> 'd kernel \<Rightarrow> u64 option kr" where
  "fetchaddr addr k =
     (if addr \<ge> p_sz (myproc k) \<or> addr + 8 > p_sz (myproc k) then Inr None
      else kbind (copyin (km k) (p_pagetable (myproc k)) addr 8) (\<lambda>(r, bs).
        Inr (if r \<noteq> 0 then None else Some (get64 (store_bytes (\<lambda>a. 0) 0 bs) 0))))"

text \<open>argfd gives the descriptor and its file; None is -1.\<close>

definition argfd :: "nat \<Rightarrow> 'd kernel \<Rightarrow> (nat \<times> nat) option kr" where
  "argfd n k =
     kbind (argint n k) (\<lambda>fd.
       if fd < 0 \<or> fd \<ge> int NOFILE then Inr None
       else case p_ofile (myproc k) ! nat fd of None \<Rightarrow> Inr None | Some f \<Rightarrow> Inr (Some (nat fd, f)))"

fun fdalloc_scan :: "nat option list \<Rightarrow> nat \<Rightarrow> nat option" where
  "fdalloc_scan [] fd = None"
| "fdalloc_scan (f # fs) fd = (if f = None then Some fd else fdalloc_scan fs (fd + 1))"

definition set_fd :: "nat \<Rightarrow> nat option \<Rightarrow> 'd kernel \<Rightarrow> 'd kernel" where
  "set_fd fd f k = upd_proc (\<lambda>p. p\<lparr>p_ofile := (p_ofile p)[fd := f]\<rparr>) k"

definition fdalloc :: "nat \<Rightarrow> 'd kernel \<Rightarrow> nat option \<times> 'd kernel" where
  "fdalloc f k =
     (case fdalloc_scan (p_ofile (myproc k)) 0 of None \<Rightarrow> (None, k) | Some fd \<Rightarrow> (Some fd, set_fd fd (Some f) k))"

section \<open>System calls on descriptors\<close>

definition sys_dup :: "'d kernel \<Rightarrow> (int \<times> 'd kernel) kr" where
  "sys_dup k =
     kbind (argfd 0 k) (\<lambda>r.
       case r of
         None \<Rightarrow> Inr (-1, k)
       | Some (_, f) \<Rightarrow>
           (case fdalloc f k of
              (None, k) \<Rightarrow> Inr (-1, k)
            | (Some fd, k) \<Rightarrow> kbind (filedup f k) (\<lambda>(_, k). Inr (int fd, k))))"

definition sys_read :: "'d kernel \<Rightarrow> (int \<times> 'd kernel) kr" where
  "sys_read k =
     kbind (argaddr 1 k) (\<lambda>p. kbind (argint 2 k) (\<lambda>n. kbind (argfd 0 k) (\<lambda>r.
       case r of None \<Rightarrow> Inr (-1, k) | Some (_, f) \<Rightarrow> fileread f p n k)))"

definition sys_write :: "'d kernel \<Rightarrow> (int \<times> 'd kernel) kr" where
  "sys_write k =
     kbind (argaddr 1 k) (\<lambda>p. kbind (argint 2 k) (\<lambda>n. kbind (argfd 0 k) (\<lambda>r.
       case r of None \<Rightarrow> Inr (-1, k) | Some (_, f) \<Rightarrow> filewrite f p n k)))"

definition sys_close :: "'d kernel \<Rightarrow> (int \<times> 'd kernel) kr" where
  "sys_close k =
     kbind (argfd 0 k) (\<lambda>r.
       case r of
         None \<Rightarrow> Inr (-1, k)
       | Some (fd, f) \<Rightarrow> kbind (fileclose f (set_fd fd None k)) (\<lambda>k. Inr (0, k)))"

definition sys_fstat :: "byte list \<Rightarrow> 'd kernel \<Rightarrow> (int \<times> 'd kernel) kr" where
  "sys_fstat junk k =
     kbind (argaddr 1 k) (\<lambda>st. kbind (argfd 0 k) (\<lambda>r.
       case r of None \<Rightarrow> Inr (-1, k) | Some (_, f) \<Rightarrow> filestat junk f st k))"

definition sys_pipe :: "byte list \<Rightarrow> 'd kernel \<Rightarrow> (int \<times> 'd kernel) kr" where
  "sys_pipe junk k =
     kbind (argaddr 0 k) (\<lambda>fdarray.
     kbind (pipealloc junk k) (\<lambda>(r, k).
       case r of
         None \<Rightarrow> Inr (-1, k)
       | Some (rfi, wfi) \<Rightarrow>
           (case fdalloc rfi k of
              (None, k) \<Rightarrow> kbind (fileclose rfi k) (\<lambda>k. kbind (fileclose wfi k) (\<lambda>k. Inr (-1, k)))
            | (Some fd0, k) \<Rightarrow>
                (case fdalloc wfi k of
                   (None, k) \<Rightarrow>
                     kbind (fileclose rfi (set_fd fd0 None k)) (\<lambda>k. kbind (fileclose wfi k) (\<lambda>k. Inr (-1, k)))
                 | (Some fd1, k) \<Rightarrow>
                     kbind (kcopyout fdarray (le32 (int fd0)) k) (\<lambda>(r, k).
                     kbind (if r < 0 then Inr (r, k) else kcopyout (fdarray + 4) (le32 (int fd1)) k) (\<lambda>(r, k).
                       if r < 0 then
                         kbind (fileclose rfi (set_fd fd1 None (set_fd fd0 None k))) (\<lambda>k.
                         kbind (fileclose wfi k) (\<lambda>k. Inr (-1, k)))
                       else Inr (0, k)))))))"

end
