(* ===== verification/Xv6_Sysfile.thy ===== *)
theory Xv6_Sysfile
  imports Xv6_File
begin

text \<open>
  The system calls of sysfile.c that work on path names. begin_op and end_op bracket each of them; an
  error path releases what the call holds in the order of the code. junk stands for the initial
  contents of the local array name.
\<close>

abbreviation kpid :: "'d kernel \<Rightarrow> int" where
  "kpid k \<equiv> p_pid (myproc k)"

text \<open>The current directory of the process, which namex reads for a relative path only.\<close>

definition kcwd :: "'d kernel \<Rightarrow> nat kr" where
  "kcwd k = (case p_cwd (myproc k) of Some d \<Rightarrow> Inr d | None \<Rightarrow> Inl (Fault ''cwd''))"

definition start_dir :: "byte list \<Rightarrow> 'd kernel \<Rightarrow> nat kr" where
  "start_dir path k = (if path \<noteq> [] \<and> hd path = 47 then Inr 0 else kcwd k)"

definition knamei :: "byte list \<Rightarrow> byte list \<Rightarrow> 'd kernel \<Rightarrow> (nat option \<times> 'd kernel) kr" where
  "knamei junk path k = kbind (start_dir path k) (\<lambda>d. on_fs (namei junk (kpid k) d path) k)"

definition knameiparent :: "byte list \<Rightarrow> byte list \<Rightarrow> 'd kernel \<Rightarrow> (nat option \<times> byte list \<times> 'd kernel) kr" where
  "knameiparent junk path k =
     kbind (start_dir path k) (\<lambda>d.
     kbind (nameiparent (kpid k) d path junk (kfs k)) (\<lambda>(ip, name, s). Inr (ip, name, k\<lparr>kfs := s\<rparr>)))"

definition kilock :: "nat \<Rightarrow> 'd kernel \<Rightarrow> 'd kernel kr" where
  "kilock ip k = on_fs' (ilock (kpid k) ip) k"

definition kiunlock :: "nat \<Rightarrow> 'd kernel \<Rightarrow> 'd kernel kr" where
  "kiunlock ip k = on_fs' (iunlock (kpid k) ip) k"

definition kiput :: "nat \<Rightarrow> 'd kernel \<Rightarrow> 'd kernel kr" where
  "kiput ip k = on_fs' (iput (kpid k) ip) k"

definition kiunlockput :: "nat \<Rightarrow> 'd kernel \<Rightarrow> 'd kernel kr" where
  "kiunlockput ip k = on_fs' (iunlockput (kpid k) ip) k"

definition kiupdate :: "nat \<Rightarrow> (inode \<Rightarrow> inode) \<Rightarrow> 'd kernel \<Rightarrow> 'd kernel kr" where
  "kiupdate ip f k = on_fs' (\<lambda>s. iupdate ip (upd_inode ip f s)) k"

abbreviation kino :: "'d kernel \<Rightarrow> nat \<Rightarrow> inode" where
  "kino k ip \<equiv> ino (kfs k) ip"

text \<open>End the transaction with result -1.\<close>

definition fail_op :: "'d kernel \<Rightarrow> (int \<times> 'd kernel) kr" where
  "fail_op k = kbind (kend_op k) (\<lambda>k. Inr (-1, k))"

text \<open>sys_link from the label bad on.\<close>

definition link_bad :: "nat \<Rightarrow> 'd kernel \<Rightarrow> (int \<times> 'd kernel) kr" where
  "link_bad ip k =
     kbind (kilock ip k) (\<lambda>k.
     kbind (kiupdate ip (\<lambda>i. i\<lparr>inlink := inlink i - 1\<rparr>) k) (\<lambda>k.
     kbind (kiunlockput ip k) fail_op))"

definition sys_link :: "byte list \<Rightarrow> 'd kernel \<Rightarrow> (int \<times> 'd kernel) kr" where
  "sys_link junk k =
     kbind (argstr 0 MAXPATH k) (\<lambda>old_path.
     kbind (if old_path = None then Inr None else argstr 1 MAXPATH k) (\<lambda>new_path.
     case (old_path, new_path) of
       (Some old_path, Some new_path) \<Rightarrow>
         kbind (kbegin_op k) (\<lambda>k.
         kbind (knamei junk old_path k) (\<lambda>(ip, k).
         case ip of
           None \<Rightarrow> fail_op k
         | Some ip \<Rightarrow>
             kbind (kilock ip k) (\<lambda>k.
             if itype (kino k ip) = T_DIR then kbind (kiunlockput ip k) fail_op
             else
               kbind (kiupdate ip (\<lambda>i. i\<lparr>inlink := inlink i + 1\<rparr>) k) (\<lambda>k.
               kbind (kiunlock ip k) (\<lambda>k.
               kbind (knameiparent junk new_path k) (\<lambda>(dp, name, k).
               case dp of
                 None \<Rightarrow> link_bad ip k
               | Some dp \<Rightarrow>
                   kbind (kilock dp k) (\<lambda>k.
                   kbind (if idev (kino k dp) \<noteq> idev (kino k ip) then Inr (-1, k)
                          else on_fs (dirlink (kpid k) dp name (inum (kino k ip))) k) (\<lambda>(r, k).
                   if r < 0 then kbind (kiunlockput dp k) (link_bad ip)
                   else
                     kbind (kiunlockput dp k) (\<lambda>k.
                     kbind (kiput ip k) (\<lambda>k.
                     kbind (kend_op k) (\<lambda>k. Inr (0, k))))))))))))
     | _ \<Rightarrow> Inr (-1, k)))"

text \<open>isdirempty visits the entries from the third on.\<close>

fun isdirempty_from :: "nat list \<Rightarrow> nat \<Rightarrow> fs \<Rightarrow> (int \<times> fs) kr" where
  "isdirempty_from [] dp s = Inr (1, s)"
| "isdirempty_from (k # ks) dp s =
     kbind (read_dirent ''isdirempty: readi'' dp (of_nat (16 * k)) s) (\<lambda>(de, s).
       if de_inum de \<noteq> 0 then Inr (0, s) else isdirempty_from ks dp s)"

definition isdirempty :: "nat \<Rightarrow> fs \<Rightarrow> (int \<times> fs) kr" where
  "isdirempty dp s = isdirempty_from [2..<dirents (isize (ino s dp))] dp s"

definition unlink_bad :: "nat \<Rightarrow> 'd kernel \<Rightarrow> (int \<times> 'd kernel) kr" where
  "unlink_bad dp k = kbind (kiunlockput dp k) fail_op"

definition sys_unlink :: "byte list \<Rightarrow> 'd kernel \<Rightarrow> (int \<times> 'd kernel) kr" where
  "sys_unlink junk k =
     kbind (argstr 0 MAXPATH k) (\<lambda>path.
     case path of
       None \<Rightarrow> Inr (-1, k)
     | Some path \<Rightarrow>
         kbind (kbegin_op k) (\<lambda>k.
         kbind (knameiparent junk path k) (\<lambda>(dp, name, k).
         case dp of
           None \<Rightarrow> fail_op k
         | Some dp \<Rightarrow>
             kbind (kilock dp k) (\<lambda>k.
             kbind (namecmp name [46, 0]) (\<lambda>c1.
             kbind (if c1 = 0 then Inr 0 else namecmp name [46, 46, 0]) (\<lambda>c2.
             if c1 = 0 \<or> c2 = 0 then unlink_bad dp k
             else
               kbind (on_fs (dirlookup dp name) k) (\<lambda>(r, k).
               case r of
                 None \<Rightarrow> unlink_bad dp k
               | Some (ip, off) \<Rightarrow>
                   kbind (kilock ip k) (\<lambda>k.
                   if sint (inlink (kino k ip)) < 1 then Inl (Panic ''unlink: nlink < 1'')
                   else
                     kbind (if itype (kino k ip) = T_DIR then on_fs (isdirempty ip) k else Inr (1, k)) (\<lambda>(e, k).
                     if e = 0 then kbind (kiunlockput ip k) (unlink_bad dp)
                     else
                       kbind (on_fs (writei kget dp 0 off 16 (replicate 16 0)) k) (\<lambda>(r, k).
                       if r \<noteq> 16 then Inl (Panic ''unlink: writei'')
                       else
                         kbind (if itype (kino k ip) = T_DIR then kiupdate dp (\<lambda>i. i\<lparr>inlink := inlink i - 1\<rparr>) k else Inr k) (\<lambda>k.
                         kbind (kiunlockput dp k) (\<lambda>k.
                         kbind (kiupdate ip (\<lambda>i. i\<lparr>inlink := inlink i - 1\<rparr>) k) (\<lambda>k.
                         kbind (kiunlockput ip k) (\<lambda>k.
                         kbind (kend_op k) (\<lambda>k. Inr (0, k))))))))))))))))"

text \<open>create from the label fail on.\<close>

definition create_fail :: "nat \<Rightarrow> nat \<Rightarrow> 'd kernel \<Rightarrow> (nat option \<times> 'd kernel) kr" where
  "create_fail ip dp k =
     kbind (kiupdate ip (\<lambda>i. i\<lparr>inlink := 0\<rparr>) k) (\<lambda>k.
     kbind (kiunlockput ip k) (\<lambda>k.
     kbind (kiunlockput dp k) (\<lambda>k. Inr (None, k))))"

definition create_new :: "byte list \<Rightarrow> nat \<Rightarrow> nat \<Rightarrow> u16 \<Rightarrow> u16 \<Rightarrow> u16 \<Rightarrow> 'd kernel \<Rightarrow> (nat option \<times> 'd kernel) kr" where
  "create_new name ip dp type major minor k =
     kbind (kilock ip k) (\<lambda>k.
     kbind (kiupdate ip (\<lambda>i. i\<lparr>imajor := major, iminor := minor, inlink := 1\<rparr>) k) (\<lambda>k.
     kbind (if type = T_DIR then
         kbind (on_fs (dirlink (kpid k) ip [46, 0] (inum (kino k ip))) k) (\<lambda>(r, k).
         if r < 0 then Inr (r, k) else on_fs (dirlink (kpid k) ip [46, 46, 0] (inum (kino k dp))) k)
       else Inr (0, k)) (\<lambda>(r, k).
     if r < 0 then create_fail ip dp k
     else
       kbind (on_fs (dirlink (kpid k) dp name (inum (kino k ip))) k) (\<lambda>(r, k).
       if r < 0 then create_fail ip dp k
       else
         kbind (if type = T_DIR then kiupdate dp (\<lambda>i. i\<lparr>inlink := inlink i + 1\<rparr>) k else Inr k) (\<lambda>k.
         kbind (kiunlockput dp k) (\<lambda>k. Inr (Some ip, k)))))))"

definition create :: "byte list \<Rightarrow> byte list \<Rightarrow> u16 \<Rightarrow> u16 \<Rightarrow> u16 \<Rightarrow> 'd kernel \<Rightarrow> (nat option \<times> 'd kernel) kr" where
  "create junk path type major minor k =
     kbind (knameiparent junk path k) (\<lambda>(dp, name, k).
     case dp of
       None \<Rightarrow> Inr (None, k)
     | Some dp \<Rightarrow>
         let isv = (if is_vault (kino k dp) \<noteq> 0 then 1 else 0); vid = (if is_vault (kino k dp) \<noteq> 0 then vault_id (kino k dp) else 0) in
         kbind (kilock dp k) (\<lambda>k.
         kbind (on_fs (dirlookup dp name) k) (\<lambda>(r, k).
         case r of
           Some (ip, off) \<Rightarrow>
             kbind (kiunlockput dp k) (\<lambda>k.
             kbind (kilock ip k) (\<lambda>k.
             if type = T_FILE \<and> (itype (kino k ip) = T_FILE \<or> itype (kino k ip) = T_DEVICE) then Inr (Some ip, k)
             else kbind (kiunlockput ip k) (\<lambda>k. Inr (None, k))))
         | None \<Rightarrow>
             kbind (on_fs (ialloc (idev (kino k dp)) type) k) (\<lambda>(r, k).
             case r of
               None \<Rightarrow> kbind (kiunlockput dp k) (\<lambda>k. Inr (None, k))
             | Some ip \<Rightarrow>
                 create_new name ip dp type major minor
                   (k\<lparr>kfs := upd_inode ip (\<lambda>i. i\<lparr>is_vault := isv, vault_id := vid\<rparr>) (kfs k)\<rparr>)))))"

text \<open>sys_open once it holds the locked inode ip.\<close>

definition open_inode :: "nat \<Rightarrow> u32 \<Rightarrow> 'd kernel \<Rightarrow> (int \<times> 'd kernel) kr" where
  "open_inode ip omode k =
     (if itype (kino k ip) = T_DEVICE \<and> (sint (imajor (kino k ip)) < 0 \<or> sint (imajor (kino k ip)) \<ge> NDEV)
      then kbind (kiunlockput ip k) fail_op
      else case filealloc k of
        (None, k) \<Rightarrow> kbind (kiunlockput ip k) fail_op
      | (Some f, k) \<Rightarrow>
          (case fdalloc f k of
             (None, k) \<Rightarrow> kbind (fileclose f k) (\<lambda>k. kbind (kiunlockput ip k) fail_op)
           | (Some fd, k) \<Rightarrow>
               let k = upd_file f (\<lambda>x. if itype (kino k ip) = T_DEVICE then x\<lparr>f_type := FD_DEVICE, f_major := imajor (kino k ip)\<rparr>
                                       else x\<lparr>f_type := FD_INODE, f_off := 0\<rparr>) k;
                   k = upd_file f (\<lambda>x. x\<lparr>f_ip := ip, f_readable := (omode AND O_WRONLY = 0),
                         f_writable := (omode AND O_WRONLY \<noteq> 0 \<or> omode AND O_RDWR \<noteq> 0)\<rparr>) k in
               kbind (if omode AND O_TRUNC \<noteq> 0 \<and> itype (kino k ip) = T_FILE then on_fs' (itrunc ip) k else Inr k) (\<lambda>k.
               kbind (kiunlock ip k) (\<lambda>k.
               kbind (kend_op k) (\<lambda>k. Inr (int fd, k))))))"

definition sys_open :: "byte list \<Rightarrow> 'd kernel \<Rightarrow> (int \<times> 'd kernel) kr" where
  "sys_open junk k =
     kbind (argint 1 k) (\<lambda>om.
     kbind (argstr 0 MAXPATH k) (\<lambda>path.
     case path of
       None \<Rightarrow> Inr (-1, k)
     | Some path \<Rightarrow>
         let omode = of_int om :: u32 in
         kbind (kbegin_op k) (\<lambda>k.
         if omode AND O_CREATE \<noteq> 0 then
           kbind (create junk path T_FILE 0 0 k) (\<lambda>(ip, k).
           case ip of None \<Rightarrow> fail_op k | Some ip \<Rightarrow> open_inode ip omode k)
         else
           kbind (knamei junk path k) (\<lambda>(ip, k).
           case ip of
             None \<Rightarrow> fail_op k
           | Some ip \<Rightarrow>
               kbind (kilock ip k) (\<lambda>k.
               if itype (kino k ip) = T_DIR \<and> omode \<noteq> O_RDONLY then kbind (kiunlockput ip k) fail_op
               else open_inode ip omode k)))))"

text \<open>The common part of sys_mkdir and sys_mknod after their arguments.\<close>

definition make_node :: "byte list \<Rightarrow> byte list option \<Rightarrow> u16 \<Rightarrow> u16 \<Rightarrow> u16 \<Rightarrow> 'd kernel \<Rightarrow> (int \<times> 'd kernel) kr" where
  "make_node junk path type major minor k =
     (case path of
        None \<Rightarrow> fail_op k
      | Some path \<Rightarrow>
          kbind (create junk path type major minor k) (\<lambda>(ip, k).
          case ip of
            None \<Rightarrow> fail_op k
          | Some ip \<Rightarrow> kbind (kiunlockput ip k) (\<lambda>k. kbind (kend_op k) (\<lambda>k. Inr (0, k)))))"

definition sys_mkdir :: "byte list \<Rightarrow> 'd kernel \<Rightarrow> (int \<times> 'd kernel) kr" where
  "sys_mkdir junk k =
     kbind (kbegin_op k) (\<lambda>k. kbind (argstr 0 MAXPATH k) (\<lambda>path. make_node junk path T_DIR 0 0 k))"

definition sys_mknod :: "byte list \<Rightarrow> 'd kernel \<Rightarrow> (int \<times> 'd kernel) kr" where
  "sys_mknod junk k =
     kbind (kbegin_op k) (\<lambda>k.
     kbind (argint 1 k) (\<lambda>major. kbind (argint 2 k) (\<lambda>minor.
     kbind (argstr 0 MAXPATH k) (\<lambda>path. make_node junk path T_DEVICE (of_int major) (of_int minor) k))))"

definition sys_chdir :: "byte list \<Rightarrow> 'd kernel \<Rightarrow> (int \<times> 'd kernel) kr" where
  "sys_chdir junk k =
     kbind (kbegin_op k) (\<lambda>k.
     kbind (argstr 0 MAXPATH k) (\<lambda>path.
     case path of
       None \<Rightarrow> fail_op k
     | Some path \<Rightarrow>
         kbind (knamei junk path k) (\<lambda>(ip, k).
         case ip of
           None \<Rightarrow> fail_op k
         | Some ip \<Rightarrow>
             kbind (kilock ip k) (\<lambda>k.
             if itype (kino k ip) \<noteq> T_DIR then kbind (kiunlockput ip k) fail_op
             else
               kbind (kiunlock ip k) (\<lambda>k.
               kbind (kcwd k) (\<lambda>d. kbind (kiput d k) (\<lambda>k.
               kbind (kend_op k) (\<lambda>k. Inr (0, upd_proc (\<lambda>p. p\<lparr>p_cwd := Some ip\<rparr>) k)))))))))"

end
