(* ===== verification/Xv6_Life.thy ===== *)
theory Xv6_Life
  imports Xv6_Sysfile
begin

text \<open>
  The life of a process: creation, fork, exec, exit and wait, proc.c and exec.c, with the frames that
  fork maps for the struct Shrimpy. A call that would sleep yields Blocked; exit ends at its call of
  sched. The addresses the linker assigns are fields of a record.
\<close>

section \<open>Page tables of processes\<close>

record ksyms =
  trampoline :: u64
  forkret_addr :: u64
  proc_base :: u64
  proc_size :: u64

definition proc_pagetable :: "ksyms \<Rightarrow> u64 \<Rightarrow> kmem \<Rightarrow> (u64 \<times> kmem) kr" where
  "proc_pagetable sy trapframe s =
     (case uvmcreate s of (pagetable, s) \<Rightarrow>
      if pagetable = 0 then Inr (0, s)
      else
        kbind (mappages s pagetable TRAMPOLINE PGSIZE (trampoline sy) (PTE_R OR PTE_X)) (\<lambda>(r, s).
        if r < 0 then kbind (uvmfree s pagetable 0) (\<lambda>s. Inr (0, s))
        else
          kbind (mappages s pagetable TRAPFRAME PGSIZE trapframe (PTE_R OR PTE_W)) (\<lambda>(r, s).
          if r < 0 then
            kbind (uvmunmap s pagetable TRAMPOLINE 1 False) (\<lambda>s.
            kbind (uvmfree s pagetable 0) (\<lambda>s. Inr (0, s)))
          else Inr (pagetable, s))))"

definition proc_freepagetable :: "u64 \<Rightarrow> u64 \<Rightarrow> kmem \<Rightarrow> kmem kr" where
  "proc_freepagetable pagetable sz s =
     kbind (uvmunmap s pagetable TRAMPOLINE 1 False) (\<lambda>s.
     kbind (uvmunmap s pagetable TRAPFRAME 1 False) (\<lambda>s.
     uvmfree s pagetable sz))"

section \<open>Allocating and freeing a process\<close>

abbreviation kproc :: "'d kernel \<Rightarrow> nat \<Rightarrow> proc" where
  "kproc k i \<equiv> ptab k ! i"

definition upd_at :: "nat \<Rightarrow> (proc \<Rightarrow> proc) \<Rightarrow> 'd kernel \<Rightarrow> 'd kernel" where
  "upd_at i f k = k\<lparr>ptab := (ptab k)[i := f (kproc k i)]\<rparr>"

definition on_km :: "(kmem \<Rightarrow> kmem kr) \<Rightarrow> 'd kernel \<Rightarrow> 'd kernel kr" where
  "on_km f k = kbind (f (km k)) (\<lambda>s. Inr (k\<lparr>km := s\<rparr>))"

definition freeproc :: "nat \<Rightarrow> 'd kernel \<Rightarrow> 'd kernel kr" where
  "freeproc i k =
     kbind (if p_trapframe (kproc k i) \<noteq> 0 then on_km (\<lambda>s. kfree s (p_trapframe (kproc k i))) k else Inr k) (\<lambda>k.
     let k = upd_at i (\<lambda>p. p\<lparr>p_trapframe := 0\<rparr>) k in
     kbind (if p_pagetable (kproc k i) \<noteq> 0 then on_km (proc_freepagetable (p_pagetable (kproc k i)) (p_sz (kproc k i))) k else Inr k) (\<lambda>k.
     Inr (upd_at i (\<lambda>p. p\<lparr>p_pagetable := 0, p_sz := 0, p_pid := 0, p_parent := None, p_name := (p_name p)[0 := 0],
       p_chan := None, p_killed := 0, p_xstate := 0, p_state := UNUSED\<rparr>) k)))"

fun allocproc_scan :: "proc list \<Rightarrow> nat \<Rightarrow> nat option" where
  "allocproc_scan [] i = None"
| "allocproc_scan (p # ps) i = (if p_state p = UNUSED then Some i else allocproc_scan ps (i + 1))"

definition sys_uptime :: "'d kernel \<Rightarrow> u64" where
  "sys_uptime k = ucast (kticks k)"

text \<open>allocproc once it has the trap frame and the page table.\<close>

definition allocproc_init :: "ksyms \<Rightarrow> nat \<Rightarrow> 'd kernel \<Rightarrow> 'd kernel" where
  "allocproc_init sy i k =
     upd_at i (\<lambda>p. p\<lparr>p_context := \<lparr>ctx_ra = forkret_addr sy, ctx_sp = p_kstack p + PGSIZE, ctx_s = replicate 12 0\<rparr>,
         p_token_bucket := 64, p_last_scheduled_tick := sys_uptime k\<rparr>)
       (k\<lparr>shr := (shr k)\<lparr>sh_NP := Some i\<rparr>\<rparr>)"

definition allocproc :: "ksyms \<Rightarrow> 'd kernel \<Rightarrow> (nat option \<times> 'd kernel) kr" where
  "allocproc sy k =
     (case allocproc_scan (ptab k) 0 of
        None \<Rightarrow> Inr (None, k)
      | Some i \<Rightarrow>
          (case allocpid (nextpid k) of (pid, np) \<Rightarrow>
           let k = upd_at i (\<lambda>p. p\<lparr>p_pid := pid, p_state := USED\<rparr>) (k\<lparr>nextpid := np\<rparr>) in
           case kalloc (km k) of (tf, s) \<Rightarrow>
           let k = upd_at i (\<lambda>p. p\<lparr>p_trapframe := tf\<rparr>) (k\<lparr>km := s\<rparr>) in
           if tf = 0 then kbind (freeproc i k) (\<lambda>k. Inr (None, k))
           else
             kbind (proc_pagetable sy tf (km k)) (\<lambda>(pt, s).
             let k = upd_at i (\<lambda>p. p\<lparr>p_pagetable := pt\<rparr>) (k\<lparr>km := s\<rparr>) in
             if pt = 0 then kbind (freeproc i k) (\<lambda>k. Inr (None, k))
             else Inr (Some i, allocproc_init sy i k))))"

definition growproc :: "int \<Rightarrow> 'd kernel \<Rightarrow> (int \<times> 'd kernel) kr" where
  "growproc n k =
     (let sz = p_sz (myproc k); pt = p_pagetable (myproc k) in
      if n > 0 then
        kbind (uvmalloc (km k) pt sz (sz + of_int n) PTE_W) (\<lambda>(sz, s).
        if sz = 0 then Inr (-1, k\<lparr>km := s\<rparr>)
        else Inr (0, upd_proc (\<lambda>p. p\<lparr>p_sz := sz\<rparr>) (k\<lparr>km := s\<rparr>)))
      else if n < 0 then
        kbind (uvmdealloc (km k) pt sz (sz + of_int n)) (\<lambda>(sz, s).
        Inr (0, upd_proc (\<lambda>p. p\<lparr>p_sz := sz\<rparr>) (k\<lparr>km := s\<rparr>)))
      else Inr (0, k))"

section \<open>The frames of Shrimpy\<close>

definition translate :: "memory \<Rightarrow> u64 \<Rightarrow> u64 \<Rightarrow> nat \<Rightarrow> u64" where
  "translate m pagetable vaddr level =
     (let pte2 = get64 m (pte_slot pagetable 2 vaddr) in
      if pte2 AND PTE_V = 0 then - 1
      else let pte1 = get64 m (pte_slot (PTE2PA pte2) 1 vaddr) in
      if pte1 AND PTE_V = 0 then - 1
      else let pte = get64 m (pte_slot (PTE2PA pte1) level vaddr) in
      if pte AND PTE_V = 0 then - 1
      else PTE2PA pte OR (vaddr AND (PGSIZE - 1)))"

definition unmap :: "u64 \<Rightarrow> u64 \<Rightarrow> kmem \<Rightarrow> kmem kr" where
  "unmap pagetable va s =
     kbind (walk s pagetable va True) (\<lambda>(pte, s).
     if pte \<noteq> 0 \<and> get64 (mem s) pte AND PTE_V \<noteq> 0 \<and> get64 (mem s) pte AND (PTE_R OR PTE_W OR PTE_X) = 0
     then uvmunmap s pagetable va 1 False else Inr s)"

definition sh_pt :: "(shrimpy_t \<Rightarrow> nat option) \<Rightarrow> 'd kernel \<Rightarrow> u64 kr" where
  "sh_pt f k = (case f (shr k) of None \<Rightarrow> Inl (Fault ''Shrimpy'') | Some i \<Rightarrow> Inr (p_pagetable (kproc k i)))"

text \<open>
  One page of map_frames: its frame is allocated the first time; the address that is mapped is the
  first word of the frame.
\<close>

definition map_frame :: "nat \<Rightarrow> u64 \<Rightarrow> string \<Rightarrow> string \<Rightarrow> 'd kernel \<Rightarrow> 'd kernel kr" where
  "map_frame i perm no_page no_map k =
     (case (if sh_frames (shr k) ! i = 0 then
              (case kalloc (km k) of (pa, s) \<Rightarrow>
                 k\<lparr>km := s, shr := (shr k)\<lparr>sh_frames := (sh_frames (shr k))[i := pa], sh_pas := (sh_pas (shr k))[i := pa]\<rparr>\<rparr>)
            else k) of k \<Rightarrow>
      let pa = sh_frames (shr k) ! i in
      if pa = 0 then Inl (Panic no_page)
      else
        kbind (sh_pt sh_P k) (\<lambda>pt.
        kbind (mappages (km k) pt (sh_vas (shr k) ! i) PGSIZE (get64 (mem (km k)) pa) perm) (\<lambda>(r, s).
        if r \<noteq> 0 then kbind (kfree s pa) (\<lambda>s. Inl (Panic no_map))
        else Inr (k\<lparr>km := s\<rparr>))))"

definition map_frames :: "'d kernel \<Rightarrow> 'd kernel kr" where
  "map_frames k =
     kbind (sh_pt sh_NP k) (\<lambda>npt.
     kbind (kfold (\<lambda>va. on_km (unmap npt va)) [FRY, SHRIMP, HEAP, STACK, GUARD_PAGE, DATA, TEXT] k) (\<lambda>k.
     let rwxu = PTE_R OR PTE_W OR PTE_X OR PTE_U; no_context = ''map_frames: failed to allocate context page'';
         no_map = ''map_frames: failed to map context page'' in
     kbind (map_frame 0 (rwxu OR PTE_V) ''map_frames: failed to allocate fry page'' ''map_frames: failed to map fry page'' k) (\<lambda>k.
     kbind (map_frame 1 (rwxu OR PTE_V) ''map_frames: failed to allocate shrimp page'' ''map_frames: failed to map shrimp page'' k) (\<lambda>k.
     kbind (map_frame 2 rwxu (''Failed to allocate memory for heap_page frame...'' @ [CHR 0x0A]) ''map_frames: failed to map heap page(uint64)HEAP'' k) (\<lambda>k.
     kbind (kfold (\<lambda>i. map_frame i rwxu no_context no_map) [3, 4, 5, 6] k) (\<lambda>k.
     kbind (sh_pt sh_P k) (\<lambda>pt.
     Inr (k\<lparr>km := (km k)\<lparr>mem := memmove (mem (km k)) npt pt 8\<rparr>\<rparr>))))))))"

definition map_frames_helper :: "'d kernel \<Rightarrow> 'd kernel kr" where
  "map_frames_helper k =
     map_frames (k\<lparr>shr := (shr k)\<lparr>sh_vas := [FRY, SHRIMP, HEAP, STACK, GUARD_PAGE, DATA, TEXT]\<rparr>\<rparr>)"

section \<open>fork\<close>

text \<open>The loop over the descriptors of the parent.\<close>

definition fork_fd :: "nat \<Rightarrow> nat \<Rightarrow> 'd kernel \<Rightarrow> 'd kernel kr" where
  "fork_fd np i k =
     (case p_ofile (myproc k) ! i of
        None \<Rightarrow> Inr k
      | Some f \<Rightarrow> kbind (filedup f k) (\<lambda>(f, k). Inr (upd_at np (\<lambda>p. p\<lparr>p_ofile := (p_ofile p)[i := Some f]\<rparr>) k)))"

definition fork :: "ksyms \<Rightarrow> 'd kernel \<Rightarrow> (int \<times> 'd kernel) kr" where
  "fork sy k =
     kbind (allocproc sy k) (\<lambda>(np, k).
     case np of
       None \<Rightarrow> Inr (-1, k)
     | Some np \<Rightarrow>
         kbind (uvmcopy (km k) (p_pagetable (myproc k)) (p_pagetable (kproc k np)) (p_sz (myproc k))) (\<lambda>(r, s).
         let k = k\<lparr>km := s\<rparr> in
         if r < 0 then
           kbind (freeproc np (upd_at np (\<lambda>p. p\<lparr>p_ticks := 0, p_token_bucket := p_token_bucket (myproc k)\<rparr>) k)) (\<lambda>k.
           Inr (-1, k))
         else
           let k = upd_at np (\<lambda>p. p\<lparr>p_sz := p_sz (myproc k)\<rparr>) k;
               m = memmove (mem (km k)) (p_trapframe (kproc k np)) (p_trapframe (myproc k)) 288;
               k = k\<lparr>km := (km k)\<lparr>mem := put64 m (p_trapframe (kproc k np) + 112) 0\<rparr>\<rparr> in
           kbind (kfold (fork_fd np) [0..<NOFILE] k) (\<lambda>k.
           kbind (kcwd k) (\<lambda>d.
           case idup d (kfs k) of (d, f) \<Rightarrow>
           (case safestrcpy (p_name (kproc k np)) (p_name (myproc k)) 16 of
              None \<Rightarrow> Inl (Fault ''safestrcpy'')
            | Some nm \<Rightarrow>
                let k = upd_at np (\<lambda>p. p\<lparr>p_cwd := Some d, p_name := nm, p_ticks := 0, p_last_scheduled_tick := sys_uptime k,
                          p_parent := Some (cur k), p_state := RUNNABLE\<rparr>) (k\<lparr>kfs := f\<rparr>);
                    pid = p_pid (kproc k np) in
                kbind (map_frames_helper (k\<lparr>shr := (shr k)\<lparr>sh_P := Some np\<rparr>\<rparr>)) (\<lambda>k. Inr (pid, k)))))))"

section \<open>exit and wait\<close>

definition wakeup_parent :: "'d kernel \<Rightarrow> 'd kernel" where
  "wakeup_parent k =
     (case p_parent (myproc k) of
        Some q \<Rightarrow> kwakeup (Chan_proc q) k
      | None \<Rightarrow> k\<lparr>ptab := map (\<lambda>(i, p). if i \<noteq> cur k \<and> p_state p = SLEEPING \<and> p_chan p = None then p\<lparr>p_state := RUNNABLE\<rparr> else p)
                   (enumerate 0 (ptab k))\<rparr>)"

definition exit_fd :: "nat \<Rightarrow> 'd kernel \<Rightarrow> 'd kernel kr" where
  "exit_fd fd k =
     (case p_ofile (myproc k) ! fd of
        None \<Rightarrow> Inr k
      | Some f \<Rightarrow> kbind (fileclose f k) (\<lambda>k. Inr (set_fd fd None k)))"

text \<open>exit up to its call of sched.\<close>

definition kexit :: "int \<Rightarrow> 'd kernel \<Rightarrow> 'd kernel kr" where
  "kexit status k =
     (if cur k = initproc k then Inl (Panic ''init exiting'')
      else
        kbind (kfold exit_fd [0..<NOFILE] k) (\<lambda>k.
        kbind (kbegin_op k) (\<lambda>k.
        kbind (kcwd k) (\<lambda>d.
        kbind (kiput d k) (\<lambda>k.
        kbind (kend_op k) (\<lambda>k.
        let k = upd_proc (\<lambda>p. p\<lparr>p_cwd := None\<rparr>) k;
            k = k\<lparr>ptab := reparent (Some (cur k)) (initproc k) (cur k) (ptab k)\<rparr>
        in Inr (upd_proc (exit_enter status) (wakeup_parent k))))))))"

text \<open>One pass of wait over the table; havekids says whether a child was seen.\<close>

fun wait_scan :: "nat list \<Rightarrow> u64 \<Rightarrow> bool \<Rightarrow> 'd kernel \<Rightarrow> (int \<times> 'd kernel) kr" where
  "wait_scan [] addr havekids k =
     (if \<not> havekids \<or> killed (myproc k) \<noteq> 0 then Inr (-1, k) else Inl (Blocked ''wait''))"
| "wait_scan (pp # pps) addr havekids k =
     (if p_parent (kproc k pp) = Some (cur k) then
        if p_state (kproc k pp) = ZOMBIE then
          let pid = p_pid (kproc k pp) in
          kbind (if addr \<noteq> 0 then kcopyout addr (le32 (p_xstate (kproc k pp))) k else Inr (0, k)) (\<lambda>(r, k).
          if r < 0 then Inr (-1, k)
          else kbind (freeproc pp k) (\<lambda>k. Inr (pid, k)))
        else wait_scan pps addr True k
      else wait_scan pps addr havekids k)"

definition wait :: "u64 \<Rightarrow> 'd kernel \<Rightarrow> (int \<times> 'd kernel) kr" where
  "wait addr k = wait_scan [0..<length (ptab k)] addr False k"

section \<open>exec\<close>

definition ELF_MAGIC :: u32 where "ELF_MAGIC = 0x464C457F"
definition ELF_PROG_LOAD :: u32 where "ELF_PROG_LOAD = 1"

definition flags2perm :: "u32 \<Rightarrow> u64" where
  "flags2perm flags =
     (let perm = (if flags AND 1 \<noteq> 0 then PTE_X else 0) in if flags AND 2 \<noteq> 0 then perm OR PTE_W else perm)"

definition get64l :: "byte list \<Rightarrow> nat \<Rightarrow> u64" where
  "get64l bs j = get64 (store_bytes (\<lambda>a. 0) 0 (take 8 (drop j bs))) 0"

record elfhdr =
  e_magic :: u32
  e_entry :: u64
  e_phoff :: u64
  e_phnum :: u16

record proghdr =
  ph_type :: u32
  ph_flags :: u32
  ph_off :: u64
  ph_vaddr :: u64
  ph_filesz :: u64
  ph_memsz :: u64

text \<open>The fields exec reads, at their places in the 64 and 56 bytes of the structs.\<close>

definition elfhdr_of :: "byte list \<Rightarrow> elfhdr" where
  "elfhdr_of bs = \<lparr>e_magic = get32 bs 0, e_entry = get64l bs 24, e_phoff = get64l bs 32, e_phnum = get16 bs 56\<rparr>"

definition proghdr_of :: "byte list \<Rightarrow> proghdr" where
  "proghdr_of bs = \<lparr>ph_type = get32 bs 0, ph_flags = get32 bs 4, ph_off = get64l bs 8, ph_vaddr = get64l bs 16,
     ph_filesz = get64l bs 32, ph_memsz = get64l bs 40\<rparr>"

text \<open>loadseg at the page offsets below sz; readi fails at the end of a file, long before the offset wraps.\<close>

fun loadseg_from :: "nat list \<Rightarrow> u64 \<Rightarrow> u64 \<Rightarrow> nat \<Rightarrow> u32 \<Rightarrow> u32 \<Rightarrow> 'd kernel \<Rightarrow> (int \<times> 'd kernel) kr" where
  "loadseg_from [] pt va ip off sz k = Inr (0, k)"
| "loadseg_from (j # js) pt va ip off sz k =
     (let i = of_nat j * 4096 :: u32 in
      kbind (walkaddr (km k) pt (va + ucast i)) (\<lambda>pa.
      if pa = 0 then Inl (Panic ''loadseg: address should exist'')
      else
        let n = (if sz - i < 4096 then sz - i else 4096) in
        kbind (readi (either_copyout False 0) ip pa (off + i) n (km k) (kfs k)) (\<lambda>(r, s, f).
        let k = k\<lparr>km := s, kfs := f\<rparr> in
        if r \<noteq> uint n then Inr (-1, k) else loadseg_from js pt va ip off sz k)))"

definition loadseg :: "u64 \<Rightarrow> u64 \<Rightarrow> nat \<Rightarrow> u32 \<Rightarrow> u32 \<Rightarrow> 'd kernel \<Rightarrow> (int \<times> 'd kernel) kr" where
  "loadseg pt va ip off sz k = loadseg_from [0..<(unat sz + 4095) div 4096] pt va ip off sz k"

text \<open>
  The loop over the program headers, n of them left; the result is -1 where the code jumps to bad, with
  the size reached.
\<close>

fun exec_segs :: "nat \<Rightarrow> u32 \<Rightarrow> nat \<Rightarrow> u64 \<Rightarrow> u64 \<Rightarrow> 'd kernel \<Rightarrow> (int \<times> u64 \<times> 'd kernel) kr" where
  "exec_segs 0 off ip pt sz k = Inr (0, sz, k)"
| "exec_segs (Suc n) off ip pt sz k =
     kbind (readi kput ip 0 off 56 (replicate 56 0) (kfs k)) (\<lambda>(r, buf, f).
     let k = k\<lparr>kfs := f\<rparr>; ph = proghdr_of buf in
     if r \<noteq> 56 then Inr (-1, sz, k)
     else if ph_type ph \<noteq> ELF_PROG_LOAD then exec_segs n (off + 56) ip pt sz k
     else if ph_memsz ph < ph_filesz ph then Inr (-1, sz, k)
     else if ph_vaddr ph + ph_memsz ph < ph_vaddr ph then Inr (-1, sz, k)
     else if ph_vaddr ph mod PGSIZE \<noteq> 0 then Inr (-1, sz, k)
     else
       kbind (uvmalloc (km k) pt sz (ph_vaddr ph + ph_memsz ph) (flags2perm (ph_flags ph))) (\<lambda>(sz1, s).
       let k = k\<lparr>km := s\<rparr> in
       if sz1 = 0 then Inr (-1, sz, k)
       else
         kbind (loadseg pt (ph_vaddr ph) ip (ucast (ph_off ph)) (ucast (ph_filesz ph)) k) (\<lambda>(r, k).
         if r < 0 then Inr (-1, sz1, k) else exec_segs n (off + 56) ip pt sz1 k)))"

text \<open>
  Pushing the argument strings, from argc on; ustack holds their addresses. None is a jump to bad.
\<close>

fun exec_args :: "byte list list \<Rightarrow> u64 \<Rightarrow> u64 \<Rightarrow> u64 \<Rightarrow> u64 list \<Rightarrow> kmem \<Rightarrow> ((u64 \<times> u64 list) option \<times> kmem) kr" where
  "exec_args [] pt stackbase sp ustack s = Inr (Some (sp, ustack), s)"
| "exec_args (a # as) pt stackbase sp ustack s =
     (if length ustack \<ge> MAXARG then Inr (None, s)
      else
        let sp = sp - of_nat (length a + 1); sp = sp - sp mod 16 in
        if sp < stackbase then Inr (None, s)
        else kbind (copyout s pt sp (a @ [0])) (\<lambda>(r, s).
          if r < 0 then Inr (None, s) else exec_args as pt stackbase sp (ustack @ [sp]) s))"

definition exec_stack :: "byte list list \<Rightarrow> u64 \<Rightarrow> u64 \<Rightarrow> kmem \<Rightarrow> ((u64 \<times> nat) option \<times> kmem) kr" where
  "exec_stack argv pt sp s =
     (let stackbase = sp - PGSIZE in
      kbind (exec_args argv pt stackbase sp [] s) (\<lambda>(r, s).
      case r of
        None \<Rightarrow> Inr (None, s)
      | Some (sp, ustack) \<Rightarrow>
          let argc = length ustack in
          if argc \<ge> MAXARG then Inl (Fault ''ustack'')
          else
            let sp = sp - of_nat (argc + 1) * 8; sp = sp - sp mod 16 in
            if sp < stackbase then Inr (None, s)
            else kbind (copyout s pt sp (concat (map (\<lambda>x. load_bytes (put64 (\<lambda>a. 0) 0 x) 0 8) (ustack @ [0])))) (\<lambda>(r, s).
              Inr (if r < 0 then None else Some (sp, argc), s))))"

definition exec_bad :: "u64 \<Rightarrow> u64 \<Rightarrow> nat option \<Rightarrow> 'd kernel \<Rightarrow> (int \<times> 'd kernel) kr" where
  "exec_bad pt sz ip k =
     kbind (if pt \<noteq> 0 then on_km (proc_freepagetable pt sz) k else Inr k) (\<lambda>k.
     case ip of
       None \<Rightarrow> Inr (-1, k)
     | Some ip \<Rightarrow> kbind (kiunlockput ip k) (\<lambda>k. kbind (kend_op k) (\<lambda>k. Inr (-1, k))))"

text \<open>The part of a path after its last slash.\<close>

definition last_elem :: "byte list \<Rightarrow> byte list" where
  "last_elem path = rev (takeWhile (\<lambda>c. c \<noteq> 47) (rev path))"

text \<open>exec from the commit on.\<close>

definition exec_commit :: "byte list \<Rightarrow> u64 \<Rightarrow> u64 \<Rightarrow> u64 \<Rightarrow> u64 \<Rightarrow> 'd kernel \<Rightarrow> 'd kernel kr" where
  "exec_commit path pt sz sp epc k =
     (let k = tf_put 120 sp k; old_pt = p_pagetable (myproc k); oldsz = p_sz (myproc k) in
      case safestrcpy (p_name (myproc k)) (last_elem path @ [0]) 16 of
        None \<Rightarrow> Inl (Fault ''safestrcpy'')
      | Some nm \<Rightarrow>
          let k = upd_proc (\<lambda>p. p\<lparr>p_name := nm, p_pagetable := pt, p_sz := sz\<rparr>) k
          in on_km (proc_freepagetable old_pt oldsz) (tf_put 48 sp (tf_put 24 epc k)))"

definition exec :: "ksyms \<Rightarrow> byte list \<Rightarrow> byte list \<Rightarrow> byte list list \<Rightarrow> 'd kernel \<Rightarrow> (int \<times> 'd kernel) kr" where
  "exec sy junk path argv k =
     kbind (kbegin_op k) (\<lambda>k.
     kbind (knamei junk path k) (\<lambda>(ip, k).
     case ip of
       None \<Rightarrow> fail_op k
     | Some ip \<Rightarrow>
         kbind (kilock ip k) (\<lambda>k.
         kbind (readi kput ip 0 0 64 (replicate 64 0) (kfs k)) (\<lambda>(r, buf, f).
         let k = k\<lparr>kfs := f\<rparr>; elf = elfhdr_of buf in
         if r \<noteq> 64 \<or> e_magic elf \<noteq> ELF_MAGIC then exec_bad 0 0 (Some ip) k
         else
           kbind (proc_pagetable sy (p_trapframe (myproc k)) (km k)) (\<lambda>(pt, s).
           let k = k\<lparr>km := s\<rparr> in
           if pt = 0 then exec_bad 0 0 (Some ip) k
           else
             kbind (exec_segs (unat (e_phnum elf)) (ucast (e_phoff elf)) ip pt 0 k) (\<lambda>(r, sz, k).
             if r < 0 then exec_bad pt sz (Some ip) k
             else
               kbind (kiunlockput ip k) (\<lambda>k.
               kbind (kend_op k) (\<lambda>k.
               let sz = PGROUNDUP sz in
               kbind (uvmalloc (km k) pt sz (sz + 2 * PGSIZE) PTE_W) (\<lambda>(sz1, s).
               let k = k\<lparr>km := s\<rparr> in
               if sz1 = 0 then exec_bad pt sz None k
               else
                 kbind (uvmclear (km k) pt (sz1 - 2 * PGSIZE)) (\<lambda>s.
                 kbind (exec_stack argv pt sz1 s) (\<lambda>(r, s).
                 let k = k\<lparr>km := s\<rparr> in
                 case r of
                   None \<Rightarrow> exec_bad pt sz1 None k
                 | Some (sp, argc) \<Rightarrow>
                     kbind (exec_commit path pt sz1 sp (e_entry elf) k) (\<lambda>k. Inr (int argc, k)))))))))))))"

text \<open>
  sys_exec fetches the argument strings, each into a page of its own. The pages are freed whatever
  happens, unless a panic ends the call; the loop gives the pages with the strings, or None for bad.
\<close>

fun sys_exec_args :: "nat list \<Rightarrow> u64 \<Rightarrow> (u64 \<times> byte list) list \<Rightarrow> 'd kernel \<Rightarrow> (bool \<times> (u64 \<times> byte list) list \<times> 'd kernel) kr" where
  "sys_exec_args [] uargv acc k = Inr (False, acc, k)"
| "sys_exec_args (i # is) uargv acc k =
     kbind (fetchaddr (uargv + 8 * of_nat i) k) (\<lambda>r.
     case r of
       None \<Rightarrow> Inr (False, acc, k)
     | Some uarg \<Rightarrow>
         if uarg = 0 then Inr (True, acc, k)
         else case kalloc (km k) of (pa, s) \<Rightarrow>
           let k = k\<lparr>km := s\<rparr> in
           if pa = 0 then Inr (False, acc, k)
           else
             kbind (fetchstr uarg 4096 k) (\<lambda>r.
             case r of
               None \<Rightarrow> Inr (False, acc @ [(pa, [])], k)
             | Some a \<Rightarrow>
                 sys_exec_args is uargv (acc @ [(pa, a)]) (k\<lparr>km := (km k)\<lparr>mem := store_bytes (mem (km k)) pa (a @ [0])\<rparr>\<rparr>)))"

definition sys_exec :: "ksyms \<Rightarrow> byte list \<Rightarrow> 'd kernel \<Rightarrow> (int \<times> 'd kernel) kr" where
  "sys_exec sy junk k =
     kbind (argaddr 1 k) (\<lambda>uargv.
     kbind (argstr 0 MAXPATH k) (\<lambda>path.
     case path of
       None \<Rightarrow> Inr (-1, k)
     | Some path \<Rightarrow>
         kbind (sys_exec_args [0..<MAXARG] uargv [] k) (\<lambda>(good, args, k).
         kbind (if good then exec sy junk path (map snd args) k else Inr (-1, k)) (\<lambda>(r, k).
         kbind (kfold (\<lambda>pa. on_km (\<lambda>s. kfree s pa)) (map fst args) k) (\<lambda>k. Inr (r, k))))))"

end
