(* ===== verification/Xv6_Syscall.thy ===== *)
theory Xv6_Syscall
  imports Xv6_Life
begin

text \<open>
  The system calls of sysproc.c with the vault calls of proc.c, and the dispatcher of syscall.c. A call returns the value for a0, or None when it ended in exit. stk stands
  for what uninitialised variables hold.
\<close>

section \<open>Vaults\<close>

text \<open>The contents of st when its page is new: a struct stat read from the page.\<close>

definition stat_of :: "byte list \<Rightarrow> stat" where
  "stat_of bs = \<lparr>st_dev = sint (get32 bs 0), st_ino = get32 bs 4, st_type = get16 bs 8, st_nlink = get16 bs 10,
     st_size = get64l bs 16, st_is_vault = sint (get32 bs 24), st_vault_id = sint (get32 bs 28), st_vault_open = sint (get32 bs 32)\<rparr>"

definition st_alloc :: "'d kernel \<Rightarrow> 'd kernel kr" where
  "st_alloc k =
     (if v_st (vlt k) = 0 then
        (case kalloc (km k) of (pa, s) \<Rightarrow>
           if pa = 0 then Inl (Panic ''Failed to allocate memory for stat'')
           else Inr (k\<lparr>km := s, vlt := (vlt k)\<lparr>v_st := pa, v_stat := stat_of (load_bytes (mem s) pa 40)\<rparr>\<rparr>))
      else Inr k)"

definition mkvault :: "'d kernel \<Rightarrow> (int \<times> 'd kernel) kr" where
  "mkvault k =
     (let ip = v_inode (vlt k) in
      kbind (on_fs (isdirempty ip) k) (\<lambda>(r, k).
      if r = -1 then Inr (-1, k)
      else
        kbind (st_alloc k) (\<lambda>k.
        let vid = sint (inum (kino k ip));
            k = k\<lparr>kfs := upd_inode ip (\<lambda>i. i\<lparr>is_vault := 1, vault_id := vid\<rparr>) (kfs k)\<rparr>;
            st = (v_stat (vlt k))\<lparr>st_is_vault := 1, st_vault_id := vid\<rparr>
        in Inr (0, k\<lparr>vlt := (vlt k)\<lparr>v_stat := stati (kino k ip) st\<rparr>\<rparr>))))"

definition openvault :: "'d kernel \<Rightarrow> (int \<times> 'd kernel) kr" where
  "openvault k =
     (if v_mkv (vlt k) = 0 then Inl (Fault ''mkv'')
      else if st_is_vault (v_stat (vlt k)) \<noteq> 0 \<and> st_vault_open (v_stat (vlt k)) = 0 then
        kbind (on_fs' (iupdate (v_inode (vlt k))) (k\<lparr>vlt := (vlt k)\<lparr>v_stat := (v_stat (vlt k))\<lparr>st_vault_open := 1\<rparr>\<rparr>\<rparr>)) (\<lambda>k. Inr (0, k))
      else Inr (-1, k))"

definition closevault :: "'d kernel \<Rightarrow> (int \<times> 'd kernel) kr" where
  "closevault k =
     (if v_mkv (vlt k) = 0 then Inl (Fault ''mkv'')
      else if st_is_vault (v_stat (vlt k)) \<noteq> 0 \<and> st_vault_open (v_stat (vlt k)) \<noteq> 0 then
        kbind (on_fs' (iupdate (v_inode (vlt k))) (k\<lparr>vlt := (vlt k)\<lparr>v_stat := (v_stat (vlt k))\<lparr>st_vault_open := 0\<rparr>\<rparr>\<rparr>)) (\<lambda>k. Inr (0, k))
      else Inr (-1, k))"

definition mkv_alloc :: "'d kernel \<Rightarrow> 'd kernel kr" where
  "mkv_alloc k =
     (if v_mkv (vlt k) = 0 then
        (case kalloc (km k) of (pa, s) \<Rightarrow>
           if pa = 0 then Inl (Panic ''Failed to allocate memory for mkv'') else Inr (k\<lparr>km := s, vlt := (vlt k)\<lparr>v_mkv := pa\<rparr>\<rparr>))
      else Inr k)"

definition sys_mkvault :: "byte list \<Rightarrow> 'd kernel \<Rightarrow> (int \<times> 'd kernel) kr" where
  "sys_mkvault junk k =
     kbind (argstr 0 100 k) (\<lambda>path.
     case path of
       None \<Rightarrow> Inr (-1, k)
     | Some path \<Rightarrow>
         kbind (mkv_alloc k) (\<lambda>k.
         kbind (knamei junk path k) (\<lambda>(ip, k).
         case ip of
           None \<Rightarrow>
             kbind (kbegin_op k) (\<lambda>k.
             kbind (on_fs (ialloc ROOTDEV T_DIR) k) (\<lambda>(ip, k).
             kbind (kend_op k) (\<lambda>k.
             case ip of
               None \<Rightarrow> Inl (Panic ''Failed to allocate inode for mkvault'')
             | Some ip \<Rightarrow> mkvault (k\<lparr>vlt := (vlt k)\<lparr>v_inode := ip\<rparr>\<rparr>))))
         | Some ip \<Rightarrow>
             kbind (st_alloc (k\<lparr>vlt := (vlt k)\<lparr>v_inode := ip\<rparr>\<rparr>)) (\<lambda>k.
             mkvault (k\<lparr>vlt := (vlt k)\<lparr>v_stat := stati (kino k ip) (v_stat (vlt k))\<rparr>\<rparr>)))))"

definition sys_openvault :: "'d kernel \<Rightarrow> (int \<times> 'd kernel) kr" where
  "sys_openvault k = kbind (argstr 0 100 k) (\<lambda>path. if path = None then Inr (-1, k) else openvault k)"

definition sys_closevault :: "'d kernel \<Rightarrow> (int \<times> 'd kernel) kr" where
  "sys_closevault k = kbind (argstr 0 100 k) (\<lambda>path. if path = None then Inr (-1, k) else closevault k)"

section \<open>sysproc.c\<close>

definition u_junk :: "(nat \<Rightarrow> byte) \<Rightarrow> uproc" where
  "u_junk stk = \<lparr>u_pid = 0, u_name = map stk [4..<20], u_state = map stk [20..<27], u_ticks = sint (get32 (map stk [28..<32]) 0),
     u_avialable_tokens = 0, u_pticks = 0\<rparr>"

definition sys_pslist :: "(nat \<Rightarrow> byte) \<Rightarrow> 'd kernel \<Rightarrow> (int \<times> 'd kernel) kr" where
  "sys_pslist stk k =
     kbind (argaddr 0 k) (\<lambda>utable.
     kbind (pslist (stk 27) (\<lambda>s. copyout s (p_pagetable (myproc k))) utable 0 (u_junk stk) (ptab k) (km k)) (\<lambda>(r, ps, s).
     Inr (r, k\<lparr>ptab := ps, km := s\<rparr>)))"

text \<open>shrimpy translates the first address and exits; the copy is of the pointer P, the first field of the struct.\<close>

definition shrimpy :: "'d kernel \<Rightarrow> 'd kernel kr" where
  "shrimpy k = kbind (sh_pt sh_P k) (\<lambda>pt. kexit 0 k)"

definition sys_shrimpy :: "ksyms \<Rightarrow> 'd kernel \<Rightarrow> (u64 option \<times> 'd kernel) kr" where
  "sys_shrimpy sy k =
     kbind (argaddr 0 k) (\<lambda>ushrimp.
     case sh_P (shr k) of
       None \<Rightarrow> Inl (Fault ''Shrimpy'')
     | Some i \<Rightarrow>
         kbind (copyout (km k) (p_pagetable (kproc k i)) ushrimp
           (load_bytes (put64 (\<lambda>a. 0) 0 (proc_base sy + of_nat i * proc_size sy)) 0 8)) (\<lambda>(r, s).
         let k = k\<lparr>km := s\<rparr> in
         if r < 0 then Inr (Some (- 1), k) else kbind (shrimpy k) (\<lambda>k. Inr (None, k))))"

definition sys_exit :: "'d kernel \<Rightarrow> 'd kernel kr" where
  "sys_exit k = kbind (argint 0 k) (\<lambda>n. kexit n k)"

definition sys_getpid :: "'d kernel \<Rightarrow> int" where
  "sys_getpid k = p_pid (myproc k)"

definition sys_fork :: "ksyms \<Rightarrow> 'd kernel \<Rightarrow> (int \<times> 'd kernel) kr" where
  "sys_fork sy k = fork sy k"

definition sys_wait :: "'d kernel \<Rightarrow> (int \<times> 'd kernel) kr" where
  "sys_wait k = kbind (argaddr 0 k) (\<lambda>p. wait p k)"

definition sys_sbrk :: "'d kernel \<Rightarrow> (u64 \<times> 'd kernel) kr" where
  "sys_sbrk k =
     kbind (argint 0 k) (\<lambda>n.
     let addr = p_sz (myproc k) in
     kbind (growproc n k) (\<lambda>(r, k). Inr (if r < 0 then - 1 else addr, k)))"

text \<open>sys_sleep from ticks0 on; the comparison is one of unsigned values.\<close>

definition sys_sleep_from :: "u32 \<Rightarrow> int \<Rightarrow> 'd kernel \<Rightarrow> int kr" where
  "sys_sleep_from ticks0 n k =
     (if kticks k - ticks0 < of_int n then if killed (myproc k) \<noteq> 0 then Inr (-1) else Inl (Blocked ''sleep'') else Inr 0)"

definition sys_sleep :: "'d kernel \<Rightarrow> (int \<times> 'd kernel) kr" where
  "sys_sleep k = kbind (argint 0 k) (\<lambda>n. kbind (sys_sleep_from (kticks k) n k) (\<lambda>r. Inr (r, k)))"

definition sys_kill :: "'d kernel \<Rightarrow> (int \<times> 'd kernel) kr" where
  "sys_kill k = kbind (argint 0 k) (\<lambda>pid. case kill pid (ptab k) of (r, ps) \<Rightarrow> Inr (r, k\<lparr>ptab := ps\<rparr>))"

section \<open>The dispatcher\<close>

definition ret_int :: "(int \<times> 'd kernel) kr \<Rightarrow> (u64 option \<times> 'd kernel) kr" where
  "ret_int x = kbind x (\<lambda>(r, k). Inr (Some (of_int r), k))"

text \<open>The table syscalls; None where it has no entry.\<close>

definition syscalls :: "ksyms \<Rightarrow> (nat \<Rightarrow> byte) \<Rightarrow> nat \<Rightarrow> ('d kernel \<Rightarrow> (u64 option \<times> 'd kernel) kr) option" where
  "syscalls sy stk num =
     (let name = map stk [0..<DIRSIZ] in
      map_of
       [(1, \<lambda>k. ret_int (sys_fork sy k)),
        (2, \<lambda>k. kbind (sys_exit k) (\<lambda>k. Inr (None, k))),
        (3, \<lambda>k. ret_int (sys_wait k)),
        (4, \<lambda>k. ret_int (sys_pipe (map stk [0..<512]) k)),
        (5, \<lambda>k. ret_int (sys_read k)),
        (6, \<lambda>k. ret_int (sys_kill k)),
        (7, \<lambda>k. ret_int (sys_exec sy name k)),
        (8, \<lambda>k. ret_int (sys_fstat (map stk [0..<12]) k)),
        (9, \<lambda>k. ret_int (sys_chdir name k)),
        (10, \<lambda>k. ret_int (sys_dup k)),
        (11, \<lambda>k. Inr (Some (of_int (sys_getpid k)), k)),
        (12, \<lambda>k. kbind (sys_sbrk k) (\<lambda>(r, k). Inr (Some r, k))),
        (13, \<lambda>k. ret_int (sys_sleep k)),
        (14, \<lambda>k. Inr (Some (sys_uptime k), k)),
        (15, \<lambda>k. ret_int (sys_open name k)),
        (16, \<lambda>k. ret_int (sys_write k)),
        (17, \<lambda>k. ret_int (sys_mknod name k)),
        (18, \<lambda>k. ret_int (sys_unlink name k)),
        (19, \<lambda>k. ret_int (sys_link name k)),
        (20, \<lambda>k. ret_int (sys_mkdir name k)),
        (21, \<lambda>k. ret_int (sys_close k)),
        (24, \<lambda>k. ret_int (sys_pslist stk k)),
        (25, sys_shrimpy sy),
        (26, \<lambda>k. ret_int (sys_mkvault name k)),
        (27, \<lambda>k. ret_int (sys_openvault k)),
        (28, \<lambda>k. ret_int (sys_closevault k))] num)"

text \<open>syscall gives whether the process is still there.\<close>

definition syscall :: "ksyms \<Rightarrow> (nat \<Rightarrow> byte) \<Rightarrow> 'd kernel \<Rightarrow> (bool \<times> 'd kernel) kr" where
  "syscall sy stk k =
     (let num = int_of_u64 (tf_get 168 k) in
      case (if num > 0 \<and> num < 29 then syscalls sy stk (nat num) else None) of
        None \<Rightarrow> Inr (True, tf_put 112 (- 1) k)
      | Some h \<Rightarrow>
          kbind (h k) (\<lambda>(r, k).
          case r of None \<Rightarrow> Inr (False, k) | Some v \<Rightarrow> Inr (True, tf_put 112 v k)))"

end
