(* ===== verification/Xv6_Trap.thy ===== *)
theory Xv6_Trap
  imports Xv6_Syscall
begin

text \<open>
  The trap handlers of trap.c. The registers a handler reads are its arguments. The interrupt handlers of
  the serial port and of the disk change the state of their device and wake the processes that sleep on
  the channels they name; irq is what plic_claim returns.
\<close>

definition UART0_IRQ :: int where "UART0_IRQ = 10"
definition VIRTIO0_IRQ :: int where "VIRTIO0_IRQ = 1"
definition SSTATUS_SPP :: u64 where "SSTATUS_SPP = push_bit 8 1"
definition SSTATUS_SPIE :: u64 where "SSTATUS_SPIE = push_bit 5 1"
definition SATP_SV39 :: u64 where "SATP_SV39 = push_bit 60 8"

definition MAKE_SATP :: "u64 \<Rightarrow> u64" where
  "MAKE_SATP pagetable = SATP_SV39 OR drop_bit 12 pagetable"

type_synonym 'd irqfn = "'d \<Rightarrow> 'd \<times> chan list"

record trapregs =
  r_sstatus :: u64
  r_sepc :: u64
  r_scause :: u64
  r_satp :: u64
  r_tp :: u64
  r_irq :: int

definition clockintr :: "'d kernel \<Rightarrow> 'd kernel" where
  "clockintr k = kwakeup Chan_ticks (k\<lparr>kticks := kticks k + 1\<rparr>)"

definition irq_handle :: "'d irqfn \<Rightarrow> 'd kernel \<Rightarrow> 'd kernel" where
  "irq_handle h k = (case h (devst k) of (d, chs) \<Rightarrow> fold (\<lambda>ch. kwakeup ch) chs (k\<lparr>devst := d\<rparr>))"

text \<open>devintr returns 2 for the timer, 1 for another device, 0 if it does not know the cause.\<close>

definition devintr :: "'d irqfn \<Rightarrow> 'd irqfn \<Rightarrow> trapregs \<Rightarrow> 'd kernel \<Rightarrow> int \<times> 'd kernel" where
  "devintr uartintr virtio_disk_intr rg k =
     (if r_scause rg AND 0x8000000000000000 \<noteq> 0 \<and> r_scause rg AND 0xff = 9 then
        (1, if r_irq rg = UART0_IRQ then irq_handle uartintr k
            else if r_irq rg = VIRTIO0_IRQ then irq_handle virtio_disk_intr k else k)
      else if r_scause rg = 0x8000000000000001 then (2, if r_tp rg = 0 then clockintr k else k)
      else (0, k))"

text \<open>
  What a trap from user space ends with: the process has exited, it has given up the CPU and returns
  to user space later, or it returns now.
\<close>

datatype trap_end = Exited | Yields | Returns

text \<open>usertrap after the system call or the interrupt; alive tells whether the process is still there.\<close>

definition usertrap_end :: "bool \<Rightarrow> int \<Rightarrow> 'd kernel \<Rightarrow> (trap_end \<times> 'd kernel) kr" where
  "usertrap_end alive which_dev k =
     (if \<not> alive then Inr (Exited, k)
      else if killed (myproc k) \<noteq> 0 then kbind (kexit (-1) k) (\<lambda>k. Inr (Exited, k))
      else if which_dev = 2 then Inr (Yields, upd_proc yield_enter k)
      else Inr (Returns, k))"

definition usertrap :: "ksyms \<Rightarrow> (nat \<Rightarrow> byte) \<Rightarrow> 'd irqfn \<Rightarrow> 'd irqfn \<Rightarrow> trapregs \<Rightarrow> 'd kernel \<Rightarrow> (trap_end \<times> 'd kernel) kr" where
  "usertrap sy stk uartintr virtio_disk_intr rg k =
     (if r_sstatus rg AND SSTATUS_SPP \<noteq> 0 then Inl (Panic ''usertrap: not from user mode'')
      else
        let k = tf_put 24 (r_sepc rg) k in
        if r_scause rg = 8 then
          if killed (myproc k) \<noteq> 0 then kbind (kexit (-1) k) (\<lambda>k. Inr (Exited, k))
          else kbind (syscall sy stk (tf_put 24 (r_sepc rg + 4) k)) (\<lambda>(alive, k). usertrap_end alive 0 k)
        else
          (case devintr uartintr virtio_disk_intr rg k of (which_dev, k) \<Rightarrow>
             usertrap_end True which_dev (if which_dev = 0 then upd_proc setkilled k else k)))"

text \<open>usertrapret: the trap frame it prepares, and the registers it returns with.\<close>

record retregs =
  w_sstatus :: u64
  w_sepc :: u64
  w_satp :: u64

definition usertrapret :: "u64 \<Rightarrow> trapregs \<Rightarrow> 'd kernel \<Rightarrow> retregs \<times> 'd kernel" where
  "usertrapret usertrap_addr rg k =
     (let k = tf_put 0 (r_satp rg) k;
          k = tf_put 8 (p_kstack (myproc k) + PGSIZE) k;
          k = tf_put 16 usertrap_addr k;
          k = tf_put 32 (r_tp rg) k
      in (\<lparr>w_sstatus = (r_sstatus rg AND NOT SSTATUS_SPP) OR SSTATUS_SPIE, w_sepc = tf_get 24 k,
           w_satp = MAKE_SATP (p_pagetable (myproc k))\<rparr>, k))"

text \<open>kerneltrap: whether the interrupted process gives up the CPU; has_proc tells whether there is one.\<close>

definition kerneltrap :: "'d irqfn \<Rightarrow> 'd irqfn \<Rightarrow> trapregs \<Rightarrow> bool \<Rightarrow> bool \<Rightarrow> 'd kernel \<Rightarrow> (bool \<times> 'd kernel) kr" where
  "kerneltrap uartintr virtio_disk_intr rg intr_on has_proc k =
     (if r_sstatus rg AND SSTATUS_SPP = 0 then Inl (Panic ''kerneltrap: not from supervisor mode'')
      else if intr_on then Inl (Panic ''kerneltrap: interrupts enabled'')
      else case devintr uartintr virtio_disk_intr rg k of (which_dev, k) \<Rightarrow>
        if which_dev = 0 then Inl (Panic ''kerneltrap'')
        else if which_dev = 2 \<and> has_proc \<and> p_state (myproc k) = RUNNING then Inr (True, upd_proc yield_enter k)
        else Inr (False, k))"

end
