(* ===== verification/Xv6_Frame.thy ===== *)
theory Xv6_Frame
  imports Xv6_Trap
begin

text \<open>
  What each operation of the kernel leaves alone: descriptors, reference counts of open files, and the
  slots of the process table that are in use. Rules in the style of a program logic compose the facts
  along the code of an operation.
\<close>

section \<open>Results\<close>

definition post :: "('a \<Rightarrow> bool) \<Rightarrow> 'a kr \<Rightarrow> bool" where
  "post P x = (case x of Inl e \<Rightarrow> True | Inr y \<Rightarrow> P y)"

abbreviation post2 :: "('b \<Rightarrow> bool) \<Rightarrow> ('a \<times> 'b) kr \<Rightarrow> bool" where
  "post2 P \<equiv> post (\<lambda>(r, k). P k)"

abbreviation post3 :: "('c \<Rightarrow> bool) \<Rightarrow> ('a \<times> 'b \<times> 'c) kr \<Rightarrow> bool" where
  "post3 P \<equiv> post (\<lambda>(r, n, k). P k)"

named_theorems post_rules \<open>rules that follow the structure of a program\<close>
named_theorems frame_rules \<open>operations that keep descriptors and reference counts\<close>

lemma postD: "post P x \<Longrightarrow> x = Inr y \<Longrightarrow> P y"
  by (simp add: post_def)

lemma postI: "(\<And>y. x = Inr y \<Longrightarrow> P y) \<Longrightarrow> post P x"
  by (simp add: post_def split: sum.split)

lemma post_mono: "post P x \<Longrightarrow> (\<And>y. P y \<Longrightarrow> Q y) \<Longrightarrow> post Q x"
  by (simp add: post_def split: sum.splits)

lemma post_Inl: "post P (Inl e)"
  by (simp add: post_def)

lemma post_Inr: "P y \<Longrightarrow> post P (Inr y)"
  by (simp add: post_def)

lemma post_bind: "post Q x \<Longrightarrow> (\<And>y. Q y \<Longrightarrow> post P (f y)) \<Longrightarrow> post P (kbind x f)"
  by (cases x) (auto simp: post_def)

lemma post_bind2: "post2 Q x \<Longrightarrow> (\<And>r k. Q k \<Longrightarrow> post P (f r k)) \<Longrightarrow> post P (kbind x (\<lambda>(r, k). f r k))"
  by (erule post_bind) auto

lemma post_bind3: "post3 Q x \<Longrightarrow> (\<And>r n k. Q k \<Longrightarrow> post P (f r n k)) \<Longrightarrow> post P (kbind x (\<lambda>(r, n, k). f r n k))"
  by (erule post_bind) auto

lemma post_any: "(\<And>y. post P (f y)) \<Longrightarrow> post P (kbind x f)"
  by (cases x) (auto simp: post_def)

lemma post_any2: "(\<And>r s. post P (f r s)) \<Longrightarrow> post P (kbind x (\<lambda>(r, s). f r s))"
  by (rule post_any) auto

lemma post_any3: "(\<And>r s t. post P (f r s t)) \<Longrightarrow> post P (kbind x (\<lambda>(r, s, t). f r s t))"
  by (rule post_any) auto

lemma post_if: "(c \<Longrightarrow> post P x) \<Longrightarrow> (\<not> c \<Longrightarrow> post P y) \<Longrightarrow> post P (if c then x else y)"
  by simp

lemma post_option: "(z = None \<Longrightarrow> post P x) \<Longrightarrow> (\<And>y. z = Some y \<Longrightarrow> post P (f y)) \<Longrightarrow> post P (case z of None \<Rightarrow> x | Some y \<Rightarrow> f y)"
  by (simp split: option.split)

lemma post_prod: "(\<And>a b. z = (a, b) \<Longrightarrow> post P (f a b)) \<Longrightarrow> post P (case z of (a, b) \<Rightarrow> f a b)"
  by (simp split: prod.split)

lemma post_sum: "(\<And>a. z = Inl a \<Longrightarrow> post P (f a)) \<Longrightarrow> (\<And>a. z = Inr a \<Longrightarrow> post P (g a)) \<Longrightarrow> post P (case z of Inl a \<Rightarrow> f a | Inr a \<Rightarrow> g a)"
  by (simp split: sum.split)

lemma post_kfold:
  assumes "J s" "\<And>x s. J s \<Longrightarrow> post J (f x s)"
  shows "post J (kfold f xs s)"
  by (rule postI, erule kfold_inv, rule assms(1)) (rule postD [OF assms(2)])

lemma post_kfold_upt:
  assumes "a \<le> b" "J a s" "\<And>i s. a \<le> i \<Longrightarrow> i < b \<Longrightarrow> J i s \<Longrightarrow> post (J (Suc i)) (f i s)"
  shows "post (J b) (kfold f [a..<b] s)"
  using assms
proof (induction "b - a" arbitrary: a s)
  case (Suc n)
  then have "[a..<b] = a # [Suc a..<b]" by (simp add: upt_conv_Cons)
  moreover have "post (J (Suc a)) (f a s)" using Suc.prems Suc.hyps(2) by simp
  moreover have "J (Suc a) s' \<Longrightarrow> post (J b) (kfold f [Suc a..<b] s')" for s'
    using Suc.hyps Suc.prems by simp
  ultimately show ?case by (auto intro!: post_bind)
qed (simp add: post_Inr)

lemmas post_struct = post_if post_option post_prod post_sum post_Inl

section \<open>The frame\<close>

text \<open>A slot whose process has no open files: unused, or exited.\<close>

definition closed :: "proc \<Rightarrow> bool" where
  "closed p = (p_state p = UNUSED \<or> p_state p = ZOMBIE)"

text \<open>
  From k0 to k no descriptor and no reference count has changed, and no slot has become closed.
\<close>

definition sfd :: "'d kernel \<Rightarrow> 'd kernel \<Rightarrow> bool" where
  "sfd k0 k = (map p_ofile (ptab k) = map p_ofile (ptab k0) \<and> map f_ref (ftable k) = map f_ref (ftable k0) \<and> cur k = cur k0 \<and>
     (\<forall>i < length (ptab k0). closed (kproc k i) \<longrightarrow> closed (kproc k0 i)))"

lemma sfd_refl: "sfd k k"
  by (simp add: sfd_def)

lemma sfd_trans: "sfd k0 k1 \<Longrightarrow> sfd k1 k2 \<Longrightarrow> sfd k0 k2"
  unfolding sfd_def by (metis length_map)

lemma sfd_length: "sfd k0 k \<Longrightarrow> length (ptab k) = length (ptab k0)" "sfd k0 k \<Longrightarrow> length (ftable k) = length (ftable k0)"
  unfolding sfd_def by (metis length_map)+

text \<open>Updates outside the process table and the reference counts.\<close>

lemma sfd_upd [frame_rules]:
  "sfd k0 k \<Longrightarrow> sfd k0 (k\<lparr>kfs := s\<rparr>)" "sfd k0 k \<Longrightarrow> sfd k0 (k\<lparr>km := m\<rparr>)" "sfd k0 k \<Longrightarrow> sfd k0 (k\<lparr>pipes := ps\<rparr>)"
  "sfd k0 k \<Longrightarrow> sfd k0 (k\<lparr>vlt := v\<rparr>)" "sfd k0 k \<Longrightarrow> sfd k0 (k\<lparr>shr := sh\<rparr>)" "sfd k0 k \<Longrightarrow> sfd k0 (k\<lparr>nextpid := n\<rparr>)"
  "sfd k0 k \<Longrightarrow> sfd k0 (k\<lparr>devst := d\<rparr>)"
  by (simp_all add: sfd_def)

lemma sfd_ptab:
  assumes "sfd k0 k" "length ps = length (ptab k)"
    "\<And>i. i < length (ptab k) \<Longrightarrow> p_ofile (ps ! i) = p_ofile (kproc k i)"
    "\<And>i. i < length (ptab k) \<Longrightarrow> closed (ps ! i) \<Longrightarrow> closed (kproc k i)"
  shows "sfd k0 (k\<lparr>ptab := ps\<rparr>)"
proof -
  have "map p_ofile ps = map p_ofile (ptab k)" using assms(2,3) by (simp add: list_eq_iff_nth_eq)
  then show ?thesis using assms sfd_length [OF assms(1)] unfolding sfd_def by simp
qed

lemma sfd_upd_at:
  assumes "sfd k0 k" "\<And>p. p_ofile (f p) = p_ofile p" "i < length (ptab k) \<Longrightarrow> closed (f (kproc k i)) \<Longrightarrow> closed (kproc k0 i)"
  shows "sfd k0 (upd_at i f k)"
  using assms sfd_length [OF assms(1)] unfolding sfd_def upd_at_def
  by (cases "i < length (ptab k)") (auto simp: map_update nth_list_update list_update_beyond list_eq_iff_nth_eq)

lemma sfd_if [frame_rules]: "(c \<Longrightarrow> sfd k0 x) \<Longrightarrow> (\<not> c \<Longrightarrow> sfd k0 y) \<Longrightarrow> sfd k0 (if c then x else y)"
  by simp

lemma sfd_prod [frame_rules]: "(\<And>a b. z = (a, b) \<Longrightarrow> sfd k0 (f a b)) \<Longrightarrow> sfd k0 (case z of (a, b) \<Rightarrow> f a b)"
  by (simp split: prod.split)

lemma sfd_fold: "sfd k0 k \<Longrightarrow> (\<And>x k. sfd k0 k \<Longrightarrow> sfd k0 (f x k)) \<Longrightarrow> sfd k0 (fold f xs k)"
  by (induction xs arbitrary: k) auto

lemma upd_proc_at: "upd_proc f k = upd_at (cur k) f k"
  by (simp add: upd_proc_def upd_at_def)


section \<open>Composition\<close>

abbreviation fr1 :: "'d kernel \<Rightarrow> 'd kernel kr \<Rightarrow> bool" where
  "fr1 k0 \<equiv> post (sfd k0)"

abbreviation fr2 :: "'d kernel \<Rightarrow> ('a \<times> 'd kernel) kr \<Rightarrow> bool" where
  "fr2 k0 \<equiv> post2 (sfd k0)"

abbreviation fr3 :: "'d kernel \<Rightarrow> ('a \<times> 'b \<times> 'd kernel) kr \<Rightarrow> bool" where
  "fr3 k0 \<equiv> post3 (sfd k0)"

lemma fr_bind1 [frame_rules]:
  fixes x :: "'d kernel kr"
  shows "fr1 k0 x \<Longrightarrow> (\<And>k. sfd k0 k \<Longrightarrow> fr1 k0 (f1 k)) \<Longrightarrow> fr1 k0 (kbind x f1)"
    "fr1 k0 x \<Longrightarrow> (\<And>k. sfd k0 k \<Longrightarrow> fr2 k0 (f2 k)) \<Longrightarrow> fr2 k0 (kbind x f2)"
    "fr1 k0 x \<Longrightarrow> (\<And>k. sfd k0 k \<Longrightarrow> fr3 k0 (f3 k)) \<Longrightarrow> fr3 k0 (kbind x f3)"
  by (erule post_bind, blast)+

lemma fr_bind2 [frame_rules]:
  fixes x :: "('a \<times> 'd kernel) kr"
  shows "fr2 k0 x \<Longrightarrow> (\<And>r k. sfd k0 k \<Longrightarrow> fr1 k0 (f1 r k)) \<Longrightarrow> fr1 k0 (kbind x (\<lambda>(r, k). f1 r k))"
    "fr2 k0 x \<Longrightarrow> (\<And>r k. sfd k0 k \<Longrightarrow> fr2 k0 (f2 r k)) \<Longrightarrow> fr2 k0 (kbind x (\<lambda>(r, k). f2 r k))"
    "fr2 k0 x \<Longrightarrow> (\<And>r k. sfd k0 k \<Longrightarrow> fr3 k0 (f3 r k)) \<Longrightarrow> fr3 k0 (kbind x (\<lambda>(r, k). f3 r k))"
  by (erule post_bind2, blast)+

lemma fr_bind3 [frame_rules]:
  fixes x :: "('a \<times> 'b \<times> 'd kernel) kr"
  shows "fr3 k0 x \<Longrightarrow> (\<And>r n k. sfd k0 k \<Longrightarrow> fr2 k0 (f2 r n k)) \<Longrightarrow> fr2 k0 (kbind x (\<lambda>(r, n, k). f2 r n k))"
    "fr3 k0 x \<Longrightarrow> (\<And>r n k. sfd k0 k \<Longrightarrow> fr3 k0 (f3 r n k)) \<Longrightarrow> fr3 k0 (kbind x (\<lambda>(r, n, k). f3 r n k))"
  by (erule post_bind3, blast)+

lemma fr_ret [frame_rules]:
  "sfd k0 k \<Longrightarrow> fr1 k0 (Inr k)" "sfd k0 k \<Longrightarrow> fr2 k0 (Inr (r, k))" "sfd k0 k \<Longrightarrow> fr3 k0 (Inr (r, n, k))"
  by (simp_all add: post_def)

lemma fr_kfold [frame_rules]: "sfd k0 k \<Longrightarrow> (\<And>x k. sfd k0 k \<Longrightarrow> fr1 k0 (f x k)) \<Longrightarrow> fr1 k0 (kfold f xs k)"
  by (rule post_kfold)

declare post_struct [frame_rules]

section \<open>Operations of the kernel\<close>

lemma on_fs_frame [frame_rules]: "sfd k0 k \<Longrightarrow> fr2 k0 (on_fs f k)"
  unfolding on_fs_def by (intro frame_rules post_any2)

lemma on_fs'_frame [frame_rules]: "sfd k0 k \<Longrightarrow> fr1 k0 (on_fs' f k)"
  unfolding on_fs'_def by (intro frame_rules post_any)

lemma on_km_frame [frame_rules]: "sfd k0 k \<Longrightarrow> fr1 k0 (on_km f k)"
  unfolding on_km_def by (intro frame_rules post_any)

lemma kwakeup_frame [frame_rules]: "sfd k0 k \<Longrightarrow> sfd k0 (kwakeup ch k)"
  unfolding kwakeup_def by (rule sfd_ptab) (auto simp: wakeup_nth closed_def split: if_splits)

lemma kbegin_op_frame [frame_rules]: "sfd k0 k \<Longrightarrow> fr1 k0 (kbegin_op k)"
  unfolding kbegin_op_def by (intro frame_rules)

lemma kend_op_frame [frame_rules]: "sfd k0 k \<Longrightarrow> fr1 k0 (kend_op k)"
  unfolding kend_op_def by (intro frame_rules post_any2)

lemma kcopyout_frame [frame_rules]: "sfd k0 k \<Longrightarrow> fr2 k0 (kcopyout a bs k)"
  unfolding kcopyout_def by (intro frame_rules post_any2)

lemma upd_file_frame [frame_rules]:
  assumes "sfd k0 k" "\<And>x. f_ref (g x) = f_ref x"
  shows "sfd k0 (upd_file f g k)"
proof -
  have "map f_ref ((ftable k)[f := g (ftable k ! f)]) = map f_ref (ftable k)"
    using assms(2) by (cases "f < length (ftable k)") (simp_all add: map_update list_eq_iff_nth_eq nth_list_update list_update_beyond)
  then show ?thesis using assms(1) by (simp add: sfd_def upd_file_def)
qed

lemma upd_proc_frame [frame_rules]:
  assumes "sfd k0 k" "\<And>p. p_ofile (f p) = p_ofile p" "\<And>p. p_state (f p) = p_state p"
  shows "sfd k0 (upd_proc f k)"
  unfolding upd_proc_at
proof (rule sfd_upd_at [OF assms(1,2)])
  assume "cur k < length (ptab k)" "closed (f (kproc k (cur k)))"
  then show "closed (kproc k0 (cur k))"
    using assms(1,3) sfd_length(1) [OF assms(1)] by (auto simp: closed_def sfd_def)
qed

lemma tf_put_frame [frame_rules]: "sfd k0 k \<Longrightarrow> sfd k0 (tf_put j v k)"
  unfolding tf_put_def by (intro frame_rules)

lemma post_outcome [frame_rules]:
  "(\<And>r. z = Done r \<Longrightarrow> post P (f r)) \<Longrightarrow> (\<And>ch. z = Sleeps ch \<Longrightarrow> post P (g ch)) \<Longrightarrow> post P (case z of Done r \<Rightarrow> f r | Sleeps ch \<Rightarrow> g ch)"
  by (cases z) simp_all

lemma fold_kwakeup_frame [frame_rules]: "sfd k0 k \<Longrightarrow> sfd k0 (fold (\<lambda>ch. kwakeup (c ch)) chs k)"
  by (erule sfd_fold) (intro frame_rules)

lemma file_frame [frame_rules]:
  "sfd k0 k \<Longrightarrow> fr1 k0 (kpipeclose pi w k)"
  "sfd k0 k \<Longrightarrow> fr2 k0 (filestat junk f a k)"
  "sfd k0 k \<Longrightarrow> fr2 k0 (fileread f a n k)"
  unfolding kpipeclose_def filestat_def fileread_def Let_def
  by (intro frame_rules | assumption | rule post_any3 post_any2 post_any | (simp; fail))+

lemma filewrite_loop_frame [frame_rules]: "sfd k0 k \<Longrightarrow> fr2 k0 (filewrite_loop f a i n k)"
proof (induction "nat (n - i)" arbitrary: i k rule: less_induct)
  case less
  have IH: "i < n \<Longrightarrow> \<not> r \<noteq> (if n - i > max_write then max_write else n - i) \<Longrightarrow> sfd k0 k \<Longrightarrow> fr2 k0 (filewrite_loop f a (i + r) n k)" for r k
    by (rule less.hyps) (auto simp: max_write_def MAXOPBLOCKS_def split: if_splits)
  show ?case
    by (insert less.prems, subst filewrite_loop.simps, unfold Let_def) (intro frame_rules IH | assumption | rule post_any3 post_any2 post_any | (simp; fail))+
qed

lemma inode_frame [frame_rules]:
  "sfd k0 k \<Longrightarrow> fr2 k0 (filewrite f a n k)"
  "sfd k0 k \<Longrightarrow> fr2 k0 (knamei junk path k)"
  "sfd k0 k \<Longrightarrow> fr3 k0 (knameiparent junk path k)"
  "sfd k0 k \<Longrightarrow> fr1 k0 (kilock ip k)"
  "sfd k0 k \<Longrightarrow> fr1 k0 (kiunlock ip k)"
  "sfd k0 k \<Longrightarrow> fr1 k0 (kiput ip k)"
  "sfd k0 k \<Longrightarrow> fr1 k0 (kiunlockput ip k)"
  "sfd k0 k \<Longrightarrow> fr1 k0 (kiupdate ip g k)"
  "sfd k0 k \<Longrightarrow> fr2 k0 (fail_op k)"
  unfolding filewrite_def knamei_def knameiparent_def kilock_def kiunlock_def kiput_def kiunlockput_def kiupdate_def fail_op_def Let_def
  by (intro frame_rules | assumption | rule post_any3 post_any2 post_any | (simp; fail))+

lemma path_frame [frame_rules]:
  "sfd k0 k \<Longrightarrow> fr2 k0 (link_bad ip k)"
  "sfd k0 k \<Longrightarrow> fr2 k0 (unlink_bad dp k)"
  "sfd k0 k \<Longrightarrow> fr2 k0 (create_fail ip dp k)"
  "sfd k0 k \<Longrightarrow> fr2 k0 (sys_chdir junk k)"
  "sfd k0 k \<Longrightarrow> fr2 k0 (growproc n k)"
  unfolding link_bad_def unlink_bad_def create_fail_def sys_chdir_def growproc_def Let_def
  by (intro frame_rules | assumption | rule post_any3 post_any2 post_any | (simp; fail))+

lemma create_new_frame [frame_rules]:
  "sfd k0 k \<Longrightarrow> fr2 k0 (create_new name ip dp type major minor k)"
  unfolding create_new_def Let_def
  by (intro frame_rules | assumption | rule post_any3 post_any2 post_any | (simp; fail))+

lemma create_frame [frame_rules]:
  "sfd k0 k \<Longrightarrow> fr2 k0 (create junk path type major minor k)"
  "sfd k0 k \<Longrightarrow> fr2 k0 (sys_link junk k)"
  "sfd k0 k \<Longrightarrow> fr2 k0 (sys_unlink junk k)"
  unfolding create_def sys_link_def sys_unlink_def Let_def
  by (intro frame_rules | assumption | rule post_any3 post_any2 post_any | (simp; fail))+

lemma make_node_frame [frame_rules]:
  "sfd k0 k \<Longrightarrow> fr2 k0 (make_node junk path type major minor k)"
  unfolding make_node_def Let_def
  by (intro frame_rules | assumption | rule post_any3 post_any2 post_any | (simp; fail))+

lemma sys_make_frame [frame_rules]:
  "sfd k0 k \<Longrightarrow> fr2 k0 (sys_mkdir junk k)"
  "sfd k0 k \<Longrightarrow> fr2 k0 (sys_mknod junk k)"
  unfolding sys_mkdir_def sys_mknod_def Let_def
  by (intro frame_rules | assumption | rule post_any3 post_any2 post_any | (simp; fail))+

lemma loadseg_from_frame [frame_rules]: "sfd k0 k \<Longrightarrow> fr2 k0 (loadseg_from js pt va ip off sz k)"
proof (induction js arbitrary: k)
  case (Cons j js)
  note IH = this
  show ?case
    by (insert IH(2), unfold loadseg_from.simps Let_def) (intro frame_rules IH(1) | assumption | rule post_any3 post_any2 post_any | (simp; fail))+
qed (simp add: post_def)

lemma loadseg_frame [frame_rules]:
  "sfd k0 k \<Longrightarrow> fr2 k0 (loadseg pt va ip off sz k)"
  unfolding loadseg_def Let_def
  by (intro frame_rules | assumption | rule post_any3 post_any2 post_any | (simp; fail))+

lemma exec_segs_frame [frame_rules]: "sfd k0 k \<Longrightarrow> fr3 k0 (exec_segs n off ip pt sz k)"
proof (induction n arbitrary: off sz k)
  case (Suc n)
  note IH = this
  show ?case
    by (insert IH(2), unfold exec_segs.simps Let_def) (intro frame_rules IH(1) | assumption | rule post_any3 post_any2 post_any | (simp; fail))+
qed (simp add: post_def)

lemma exec_end_frame [frame_rules]:
  "sfd k0 k \<Longrightarrow> fr2 k0 (exec_bad pt sz ip k)"
  "sfd k0 k \<Longrightarrow> fr1 k0 (exec_commit path pt sz sp epc k)"
  unfolding exec_bad_def exec_commit_def Let_def
  by (intro frame_rules | assumption | rule post_any3 post_any2 post_any | (simp; fail))+

lemma exec_frame [frame_rules]:
  "sfd k0 k \<Longrightarrow> fr2 k0 (exec sy junk path argv k)"
  unfolding exec_def Let_def
  by (intro frame_rules | assumption | rule post_any3 post_any2 post_any | (simp; fail))+

lemma sys_exec_args_frame [frame_rules]: "sfd k0 k \<Longrightarrow> fr3 k0 (sys_exec_args js ua acc k)"
proof (induction js arbitrary: acc k)
  case (Cons j js)
  note IH = this
  show ?case
    by (insert IH(2), unfold sys_exec_args.simps Let_def) (intro frame_rules IH(1) | assumption | rule post_any3 post_any2 post_any | (simp; fail))+
qed (simp add: post_def)

lemma map_frame_frame [frame_rules]:
  "sfd k0 k \<Longrightarrow> fr2 k0 (sys_exec sy junk k)"
  "sfd k0 k \<Longrightarrow> fr1 k0 (map_frame i perm e1 e2 k)"
  unfolding sys_exec_def map_frame_def Let_def
  by (intro frame_rules | assumption | rule post_any3 post_any2 post_any | (simp; fail))+

lemma map_frames_frame [frame_rules]:
  "sfd k0 k \<Longrightarrow> fr1 k0 (map_frames k)"
  unfolding map_frames_def Let_def
  by (intro frame_rules | assumption | rule post_any3 post_any2 post_any | (simp; fail))+

lemma alloc_frame [frame_rules]:
  "sfd k0 k \<Longrightarrow> fr1 k0 (map_frames_helper k)"
  "sfd k0 k \<Longrightarrow> fr1 k0 (st_alloc k)"
  "sfd k0 k \<Longrightarrow> fr1 k0 (mkv_alloc k)"
  unfolding map_frames_helper_def st_alloc_def mkv_alloc_def Let_def
  by (intro frame_rules | assumption | rule post_any3 post_any2 post_any | (simp; fail))+

lemma vault_frame [frame_rules]:
  "sfd k0 k \<Longrightarrow> fr2 k0 (mkvault k)"
  "sfd k0 k \<Longrightarrow> fr2 k0 (openvault k)"
  "sfd k0 k \<Longrightarrow> fr2 k0 (closevault k)"
  unfolding mkvault_def openvault_def closevault_def Let_def
  by (intro frame_rules | assumption | rule post_any3 post_any2 post_any | (simp; fail))+

lemma call_frame [frame_rules]:
  "sfd k0 k \<Longrightarrow> fr2 k0 (sys_mkvault junk k)"
  "sfd k0 k \<Longrightarrow> fr2 k0 (sys_openvault k)"
  "sfd k0 k \<Longrightarrow> fr2 k0 (sys_closevault k)"
  "sfd k0 k \<Longrightarrow> fr2 k0 (sys_read k)"
  "sfd k0 k \<Longrightarrow> fr2 k0 (sys_write k)"
  "sfd k0 k \<Longrightarrow> fr2 k0 (sys_fstat junk k)"
  "sfd k0 k \<Longrightarrow> fr2 k0 (sys_sbrk k)"
  "sfd k0 k \<Longrightarrow> fr2 k0 (sys_sleep k)"
  unfolding sys_mkvault_def sys_openvault_def sys_closevault_def sys_read_def sys_write_def sys_fstat_def sys_sbrk_def sys_sleep_def Let_def
  by (intro frame_rules | assumption | rule post_any3 post_any2 post_any | (simp; fail))+

section \<open>Processes\<close>

text \<open>freeproc closes its slot, which must have been closed at the start.\<close>

lemma upd_at_frame:
  "sfd k0 k \<Longrightarrow> (\<And>p. p_ofile (f p) = p_ofile p) \<Longrightarrow> closed (kproc k0 i) \<Longrightarrow> sfd k0 (upd_at i f k)"
  by (rule sfd_upd_at)

lemma freeproc_frame: "sfd k0 k \<Longrightarrow> closed (kproc k0 i) \<Longrightarrow> fr1 k0 (freeproc i k)"
  unfolding freeproc_def Let_def by (intro frame_rules upd_at_frame | assumption | (simp; fail))+

lemma allocproc_scan_Some: "allocproc_scan ps n = Some i \<Longrightarrow> n \<le> i \<and> i < n + length ps \<and> p_state (ps ! (i - n)) = UNUSED"
proof (induction ps arbitrary: n)
  case (Cons p ps)
  show ?case
  proof (cases "p_state p = UNUSED")
    case False
    then have "Suc n \<le> i \<and> i < Suc n + length ps \<and> p_state (ps ! (i - Suc n)) = UNUSED"
      using Cons.IH [of "Suc n"] Cons.prems by simp
    moreover from this have "i - n = Suc (i - Suc n)" by linarith
    ultimately show ?thesis by simp
  qed (use Cons.prems in simp)
qed simp

lemma allocproc_frame:
  "post (\<lambda>(r, k'). sfd k k' \<and> (\<forall>i. r = Some i \<longrightarrow> i < length (ptab k) \<and> closed (kproc k i))) (allocproc sy k)"
proof (cases "allocproc_scan (ptab k) 0")
  case (Some i)
  have i: "i < length (ptab k)" "closed (kproc k i)" using allocproc_scan_Some [OF Some] by (simp_all add: closed_def)
  have ok: "sfd k k' \<Longrightarrow> sfd k (allocproc_init sy i k')" for k'
    unfolding allocproc_init_def by (intro upd_at_frame frame_rules) (simp_all add: i)
  have "fr2 k (allocproc sy k)"
    unfolding allocproc_def Some option.case Let_def
    by (intro frame_rules upd_at_frame freeproc_frame ok i(2) sfd_refl | (simp; fail) | rule post_any2)+
  moreover have "post (\<lambda>(r, k'). r = None \<or> r = Some i) (allocproc sy k)"
    unfolding allocproc_def Some option.case Let_def
    by (auto simp: post_def kbind_def split: sum.splits prod.splits)
  ultimately show ?thesis using i by (auto simp: post_def split: sum.splits)
qed (simp add: allocproc_def post_def sfd_refl)

lemma wait_scan_frame: "sfd k0 k \<Longrightarrow> set js \<subseteq> {..<length (ptab k0)} \<Longrightarrow> fr2 k0 (wait_scan js addr havekids k)"
proof (induction js arbitrary: havekids)
  case (Cons pp js)
  have cl: "p_state (kproc k pp) = ZOMBIE \<Longrightarrow> closed (kproc k0 pp)"
    using Cons.prems by (auto simp: sfd_def closed_def)
  show ?case unfolding wait_scan.simps Let_def using Cons
    by (auto intro!: frame_rules freeproc_frame cl)
qed (simp add: post_def)

lemma wait_frame [frame_rules]:
  assumes "sfd k0 k"
  shows "fr2 k0 (wait addr k)"
  unfolding wait_def by (rule wait_scan_frame [OF assms]) (use sfd_length(1) [OF assms] in auto)

lemma pslist_ticks_frame: "pslist_ticks n u p = (u', p') \<Longrightarrow> p_ofile p' = p_ofile p \<and> (closed p' \<longrightarrow> closed p)"
proof (induction n arbitrary: u p)
  case (Suc n)
  then show ?case by (fastforce simp: Let_def closed_def split: if_splits)
qed simp

lemma pslist_entry_frame: "pslist_entry u p = Inr (u', p') \<Longrightarrow> p_ofile p' = p_ofile p \<and> (closed p' \<longrightarrow> closed p)"
  by (auto simp: pslist_entry_def Let_def split: if_splits option.splits prod.splits dest: pslist_ticks_frame)

lemma pslist_frame:
  "pslist pad put a c u ps m = Inr (r, ps', m') \<Longrightarrow>
     list_all2 (\<lambda>p p'. p_ofile p' = p_ofile p \<and> (closed p' \<longrightarrow> closed p)) ps ps'"
proof (induction ps arbitrary: a c u m r ps' m')
  case (Cons p ps)
  have refl: "list_all2 (\<lambda>p p'. p_ofile p' = p_ofile p \<and> (closed p' \<longrightarrow> closed p)) qs qs" for qs :: "proc list"
    by (rule list_all2_refl) simp
  show ?case using Cons.prems
    by (auto simp: kr_simps refl split: if_splits dest!: Cons.IH dest: pslist_entry_frame)
qed simp

lemma sys_pslist_frame [frame_rules]: "sfd k0 k \<Longrightarrow> fr2 k0 (sys_pslist stk k)"
  by (rule postI)
    (auto simp: sys_pslist_def kr_simps list_all2_conv_all_nth intro!: frame_rules sfd_ptab dest!: pslist_frame)

lemma sys_kill_frame [frame_rules]: "sfd k0 k \<Longrightarrow> fr2 k0 (sys_kill k)"
proof (rule postI)
  fix y assume k: "sfd k0 k" "sys_kill k = Inr y"
  then obtain pid where y: "snd y = k\<lparr>ptab := snd (kill pid (ptab k))\<rparr>"
    by (auto simp: sys_kill_def kr_simps case_prod_beta)
  have "sfd k0 (k\<lparr>ptab := snd (kill pid (ptab k))\<rparr>)"
    using kill_nth [of pid "ptab k"] by (intro sfd_ptab [OF k(1)]) (fastforce simp: closed_def split: if_splits)+
  then show "case y of (r, k) \<Rightarrow> sfd k0 k" using y by (cases y) simp
qed

lemma ret_int_frame [frame_rules]: "fr2 k0 x \<Longrightarrow> fr2 k0 (ret_int x)"
  unfolding ret_int_def by (intro frame_rules)

end
