(* ===== verification/Xv6_Fdesc.thy ===== *)
theory Xv6_Fdesc
  imports Xv6_Frame Xv6_Inode
begin

text \<open>
  Descriptors and reference counts: on every history of system calls the count of an open file is the
  number of descriptors that refer to it.
\<close>

section \<open>Counting descriptors\<close>

lemma count_list_update: "j < length xs \<Longrightarrow>
    int (count_list (xs[j := v]) a) = int (count_list xs a) + (if v = a then 1 else 0) - (if xs ! j = a then 1 else 0)"
proof (induction xs arbitrary: j)
  case (Cons x xs)
  show ?case using Cons.IH [of "j - 1"] Cons.prems by (cases j) auto
qed simp

lemma sum_list_update_int: "i < length xs \<Longrightarrow> sum_list (xs[i := x]) = sum_list xs + x - xs ! i" for x :: int
proof (induction xs arbitrary: i)
  case (Cons y xs)
  then show ?case by (cases i) auto
qed simp

lemma sum_list_pos: "(\<And>x. x \<in> set xs \<Longrightarrow> 0 \<le> x) \<Longrightarrow> y \<in> set xs \<Longrightarrow> y \<le> sum_list xs" for y :: int
proof (induction xs)
  case (Cons x xs)
  have "0 \<le> sum_list xs" using Cons.prems(1) by (intro sum_list_nonneg) auto
  moreover have "0 \<le> x" using Cons.prems(1) by simp
  moreover have "y = x \<or> y \<le> sum_list xs" using Cons by auto
  ultimately show ?case by auto
qed simp

definition refs :: "'d kernel \<Rightarrow> nat \<Rightarrow> int" where
  "refs k f = sum_list (map (\<lambda>fds. int (count_list fds (Some f))) (map p_ofile (ptab k)))"

text \<open>A row of the process table: its descriptors are in the table of files, and it has none when closed.\<close>

definition fd_row :: "nat \<Rightarrow> proc \<Rightarrow> bool" where
  "fd_row n p = (length (p_ofile p) = NOFILE \<and> (\<forall>f. Some f \<in> set (p_ofile p) \<longrightarrow> f < n \<and> \<not> closed p))"

text \<open>
  The count of each file exceeds the number of its descriptors by X, which is 0 between system calls;
  inside a call X accounts for references that are not yet, or no longer, in a descriptor.
\<close>

definition fdx :: "(nat \<Rightarrow> int) \<Rightarrow> 'd kernel \<Rightarrow> bool" where
  "fdx X k = (cur k < length (ptab k) \<and> (\<forall>i < length (ptab k). fd_row (length (ftable k)) (kproc k i)) \<and>
     (\<forall>f < length (ftable k). f_ref (ftable k ! f) = refs k f + X f))"

abbreviation fd_ok :: "'d kernel \<Rightarrow> bool" where
  "fd_ok \<equiv> fdx (\<lambda>f. 0)"

definition fdr :: "(nat \<Rightarrow> int) \<Rightarrow> 'd kernel \<Rightarrow> bool" where
  "fdr X k = (fdx X k \<and> \<not> closed (myproc k))"

lemma refs_nonneg: "0 \<le> refs k f"
  unfolding refs_def by (rule sum_list_nonneg) auto

lemma refs_pos:
  assumes "i < length (ptab k)" "Some f \<in> set (p_ofile (kproc k i))"
  shows "1 \<le> refs k f"
proof -
  have "count_list (p_ofile (kproc k i)) (Some f) \<noteq> 0" using assms(2) by (simp add: count_list_0_iff)
  moreover have "int (count_list (p_ofile (kproc k i)) (Some f)) \<le> refs k f"
    unfolding refs_def using assms(1) by (intro sum_list_pos) auto
  ultimately show ?thesis by linarith
qed

lemma sfd_nth: "sfd k0 k \<Longrightarrow> i < length (ptab k0) \<Longrightarrow> p_ofile (kproc k i) = p_ofile (kproc k0 i)"
  unfolding sfd_def by (metis length_map nth_map)

lemma fdx_frame:
  assumes "sfd k0 k" "fdx X k0"
  shows "fdx X k"
proof -
  note len = sfd_length [OF assms(1)]
  have "fd_row (length (ftable k)) (kproc k i)" if "i < length (ptab k)" for i
    using assms that len sfd_nth [OF assms(1)] by (auto simp: fdx_def fd_row_def sfd_def)
  moreover have "f_ref (ftable k ! f) = f_ref (ftable k0 ! f)" if "f < length (ftable k)" for f
    using assms(1) that len(2) unfolding sfd_def by (metis nth_map)
  moreover have "refs k = refs k0" using assms(1) by (auto simp: refs_def sfd_def)
  ultimately show ?thesis using assms len by (auto simp: fdx_def sfd_def)
qed

lemma fdr_frame: "sfd k0 k \<Longrightarrow> fdr X k0 \<Longrightarrow> fdr X k"
  using fdx_frame [of k0 k X] by (auto simp: fdr_def fdx_def sfd_def)

lemma fdr_post:
  "fdr X k \<Longrightarrow> fr1 k x \<Longrightarrow> post (fdr X) x"
  "fdr X k \<Longrightarrow> fr2 k y \<Longrightarrow> post2 (fdr X) y"
  by (auto elim!: post_mono intro: fdr_frame)

text \<open>One descriptor changes.\<close>

abbreviation set_slot :: "nat \<Rightarrow> nat \<Rightarrow> nat option \<Rightarrow> 'd kernel \<Rightarrow> 'd kernel" where
  "set_slot i j v \<equiv> upd_at i (\<lambda>p. p\<lparr>p_ofile := (p_ofile p)[j := v]\<rparr>)"

lemma set_fd_slot: "set_fd fd v k = set_slot (cur k) fd v k"
  by (simp add: set_fd_def upd_proc_at)

lemma refs_set_slot:
  assumes "i < length (ptab k)" "j < length (p_ofile (kproc k i))"
  shows "refs (set_slot i j v k) f = refs k f + (if v = Some f then 1 else 0) - (if p_ofile (kproc k i) ! j = Some f then 1 else 0)"
  using assms by (simp add: refs_def upd_at_def map_update sum_list_update_int count_list_update)

lemma fdx_set_slot:
  assumes "fdx X k" "i < length (ptab k)" "j < NOFILE" "\<And>f. v = Some f \<Longrightarrow> f < length (ftable k) \<and> \<not> closed (kproc k i)"
    "\<And>f. Y f = X f + (if p_ofile (kproc k i) ! j = Some f then 1 else 0) - (if v = Some f then 1 else 0)"
  shows "fdx Y (set_slot i j v k)"
proof -
  have len: "length (p_ofile (kproc k i)) = NOFILE" using assms(1,2) by (simp add: fdx_def fd_row_def)
  have "fd_row (length (ftable k)) ((kproc k i)\<lparr>p_ofile := (p_ofile (kproc k i))[j := v]\<rparr>)"
    using assms(1,2,4) set_update_subset_insert [of "p_ofile (kproc k i)" j v]
    by (auto simp: fdx_def fd_row_def closed_def)
  moreover have "refs (set_slot i j v k) f + Y f = refs k f + X f" for f
    using refs_set_slot [OF assms(2), of j v f] assms(3,5) len by simp
  ultimately show ?thesis using assms(1,2)
    by (auto simp: fdx_def upd_at_def nth_list_update)
qed

text \<open>One count changes.\<close>

lemma fdx_upd_file:
  assumes "fdx X k" "f < length (ftable k)" "f_ref (g (ftable k ! f)) = f_ref (ftable k ! f) + d" "\<And>h. Y h = X h + (if h = f then d else 0)"
  shows "fdx Y (upd_file f g k)"
proof -
  have "refs (upd_file f g k) = refs k" by (simp add: refs_def upd_file_def fun_eq_iff)
  then show ?thesis using assms by (auto simp: fdx_def upd_file_def nth_list_update)
qed

lemma upd_file_simps [simp]: "ptab (upd_file f g k) = ptab k" "cur (upd_file f g k) = cur k" "length (ftable (upd_file f g k)) = length (ftable k)"
  by (simp_all add: upd_file_def)

lemma fdr_upd_file:
  "fdr X k \<Longrightarrow> f < length (ftable k) \<Longrightarrow> f_ref (g (ftable k ! f)) = f_ref (ftable k ! f) + d \<Longrightarrow>
    (\<And>h. Y h = X h + (if h = f then d else 0)) \<Longrightarrow> fdr Y (upd_file f g k)"
  by (auto simp: fdr_def intro: fdx_upd_file)

lemma set_slot_simps [simp]:
  "cur (set_slot i j v k) = cur k" "ftable (set_slot i j v k) = ftable k" "length (ptab (set_slot i j v k)) = length (ptab k)"
  "p_state (kproc (set_slot i j v k) m) = p_state (kproc k m)"
  by (cases "i < length (ptab k)"; simp add: upd_at_def nth_list_update list_update_beyond)+

lemma set_slot_ofile: "i < length (ptab k) \<Longrightarrow> p_ofile (kproc (set_slot i j v k) m) = (if m = i then (p_ofile (kproc k i))[j := v] else p_ofile (kproc k m))"
  by (simp add: upd_at_def nth_list_update)

lemma fdr_set_slot:
  assumes "fdr X k" "i < length (ptab k)" "j < NOFILE" "\<And>f. v = Some f \<Longrightarrow> f < length (ftable k) \<and> \<not> closed (kproc k i)"
    "\<And>f. Y f = X f + (if p_ofile (kproc k i) ! j = Some f then 1 else 0) - (if v = Some f then 1 else 0)"
  shows "fdr Y (set_slot i j v k)"
  using assms fdx_set_slot [of X k i j v Y] by (auto simp: fdr_def closed_def)


section \<open>Operations on files and descriptors\<close>

lemma filealloc_scan_Some: "filealloc_scan fs n = Some i \<Longrightarrow> n \<le> i \<and> i < n + length fs \<and> f_ref (fs ! (i - n)) = 0"
proof (induction fs arbitrary: n)
  case (Cons x fs)
  show ?case
  proof (cases "f_ref x = 0")
    case False
    then have "Suc n \<le> i \<and> i < Suc n + length fs \<and> f_ref (fs ! (i - Suc n)) = 0"
      using Cons.IH [of "Suc n"] Cons.prems by simp
    moreover from this have "i - n = Suc (i - Suc n)" by linarith
    ultimately show ?thesis by simp
  qed (use Cons.prems in simp)
qed simp

lemma filealloc_Some:
  assumes "filealloc k = (Some f, k')"
  shows "f < length (ftable k)" "f_ref (ftable k ! f) = 0" "k' = upd_file f (\<lambda>x. x\<lparr>f_ref := 1\<rparr>) k"
  using assms filealloc_scan_Some [of "ftable k" 0 f] by (auto simp: filealloc_def split: option.splits)

lemma filealloc_None: "filealloc k = (None, k') \<Longrightarrow> k' = k"
  by (auto simp: filealloc_def split: option.splits)

lemma fdr_filealloc:
  assumes "filealloc k = (Some f, k')" "fdr X k"
  shows "fdr (X(f := X f + 1)) k'"
  unfolding filealloc_Some(3) [OF assms(1)]
  by (rule fdr_upd_file [OF assms(2), where d = 1]) (use filealloc_Some [OF assms(1)] in auto)

lemma fdalloc_scan_Some: "fdalloc_scan fds n = Some i \<Longrightarrow> n \<le> i \<and> i < n + length fds \<and> fds ! (i - n) = None"
proof (induction fds arbitrary: n)
  case (Cons x fds)
  show ?case
  proof (cases "x = None")
    case False
    then have "Suc n \<le> i \<and> i < Suc n + length fds \<and> fds ! (i - Suc n) = None"
      using Cons.IH [of "Suc n"] Cons.prems by (cases x) simp_all
    moreover from this have "i - n = Suc (i - Suc n)" by linarith
    ultimately show ?thesis by simp
  qed (use Cons.prems in simp)
qed simp

lemma fdalloc_Some:
  assumes "fdalloc f k = (Some fd, k')" "fdr X k"
  shows "fd < NOFILE" "p_ofile (myproc k) ! fd = None" "k' = set_fd fd (Some f) k"
  using assms fdalloc_scan_Some [of "p_ofile (myproc k)" 0 fd]
  by (auto simp: fdalloc_def fdr_def fdx_def fd_row_def split: option.splits)

lemma fdalloc_None: "fdalloc f k = (None, k') \<Longrightarrow> k' = k"
  by (auto simp: fdalloc_def split: option.splits)

lemma fdr_set_fd:
  assumes "fdr X k" "fd < NOFILE" "\<And>f. v = Some f \<Longrightarrow> f < length (ftable k)"
    "\<And>f. Y f = X f + (if p_ofile (myproc k) ! fd = Some f then 1 else 0) - (if v = Some f then 1 else 0)"
  shows "fdr Y (set_fd fd v k)"
  unfolding set_fd_slot by (rule fdr_set_slot) (use assms in \<open>auto simp: fdr_def fdx_def\<close>)

lemma fdr_fdalloc:
  assumes "fdalloc f k = (Some fd, k')" "fdr X k" "f < length (ftable k)"
  shows "fdr (X(f := X f - 1)) k'"
  unfolding fdalloc_Some(3) [OF assms(1,2)]
  by (rule fdr_set_fd [OF assms(2)]) (use assms fdalloc_Some [OF assms(1,2)] in auto)

text \<open>filedup and fileclose, up to a frame, count one reference up or down.\<close>

lemma fdr_filedup:
  assumes "fdr X k" "f < length (ftable k)"
  shows "post (\<lambda>(g, k'). g = f \<and> k' = upd_file f (\<lambda>x. x\<lparr>f_ref := f_ref x + 1\<rparr>) k \<and> fdr (X(f := X f + 1)) k') (filedup f k)"
  using fdr_upd_file [OF assms, of "\<lambda>x. x\<lparr>f_ref := f_ref x + 1\<rparr>" 1] by (auto simp: filedup_def post_def)

lemma upd_file_same:
  assumes "f_ref (g (ftable k ! f)) = f_ref (ftable k ! f)"
  shows "sfd k (upd_file f g k)"
  using assms by (cases "f < length (ftable k)")
    (auto simp: sfd_def upd_file_def map_update list_eq_iff_nth_eq nth_list_update list_update_beyond)

definition dec_ref :: "nat \<Rightarrow> 'd kernel \<Rightarrow> 'd kernel" where
  "dec_ref f k = upd_file f (\<lambda>x. x\<lparr>f_ref := f_ref x - 1\<rparr>) k"

lemma fileclose_dec:
  assumes "f < length (ftable k)"
  shows "fr1 (dec_ref f k) (fileclose f k)"
proof (cases "f_ref (ftable k ! f) = 1")
  case True
  define k2 where "k2 = upd_file f (\<lambda>x. x\<lparr>f_ref := 0, f_type := FD_NONE\<rparr>) (dec_ref f k)"
  have "sfd (dec_ref f k) k2"
    unfolding k2_def using True assms by (intro upd_file_same) (simp add: dec_ref_def upd_file_def)
  then show ?thesis unfolding fileclose_def Let_def dec_ref_def [symmetric] k2_def [symmetric]
    by (intro frame_rules sfd_refl | assumption)+
next
  case False
  then show ?thesis using assms
    by (auto simp: fileclose_def Let_def dec_ref_def [symmetric] post_def sfd_refl) (auto simp: dec_ref_def upd_file_def)
qed

lemma fdr_fileclose:
  assumes "fdr X k" "f < length (ftable k)"
  shows "post (\<lambda>k'. sfd (dec_ref f k) k' \<and> fdr (X(f := X f - 1)) k') (fileclose f k)"
proof -
  have "fdr (X(f := X f - 1)) (dec_ref f k)"
    unfolding dec_ref_def by (rule fdr_upd_file [OF assms, where d = "-1"]) auto
  then show ?thesis using fileclose_dec [OF assms(2)] by (auto elim!: post_mono intro: fdr_frame)
qed


lemma argfd_Some:
  assumes "argfd n k = Inr (Some (fd, f))" "fdr X k"
  shows "fd < NOFILE" "p_ofile (myproc k) ! fd = Some f" "f < length (ftable k)"
proof -
  show "fd < NOFILE" "p_ofile (myproc k) ! fd = Some f"
    using assms(1) by (auto simp: argfd_def kr_simps split: if_splits option.splits)
  then have "Some f \<in> set (p_ofile (myproc k))"
    using assms(2) unfolding fdr_def fdx_def fd_row_def by (metis nth_mem)
  then show "f < length (ftable k)" using assms(2) by (auto simp: fdr_def fdx_def fd_row_def)
qed

lemma zero_upd [simp]: "(\<lambda>f. 0 :: int)(g := 0) = (\<lambda>f. 0)"
  by auto

abbreviation fdr0 :: "'d kernel \<Rightarrow> bool" where
  "fdr0 \<equiv> fdr (\<lambda>f. 0)"

section \<open>System calls on descriptors\<close>

lemma post_bindE: "(\<And>y. x = Inr y \<Longrightarrow> post P (f y)) \<Longrightarrow> post P (kbind x f)"
  by (cases x) (auto simp: post_def)

lemma fdr_return: "fdr X k \<Longrightarrow> post2 (fdr X) (Inr (r, k))"
  by (simp add: post_def)

lemma dup_fd:
  assumes "fdr0 k" "argfd 0 k = Inr (Some (fd0, f))" "fdalloc f k = (Some fd, k1)"
  shows "post2 fdr0 (kbind (filedup f k1) (\<lambda>(g, k). Inr (r, k)))"
proof -
  have len: "f < length (ftable k)" by (rule argfd_Some(3) [OF assms(2,1)])
  have k1: "fdr ((\<lambda>f. 0)(f := 0 - 1)) k1" "f < length (ftable k1)"
    using fdr_fdalloc [OF assms(3,1) len] fdalloc_Some(3) [OF assms(3,1)] len by (simp_all add: set_fd_slot)
  show ?thesis by (rule post_bind [OF fdr_filedup [OF k1]]) (auto simp: post_def)
qed

lemma sys_dup_fd: "fdr0 k \<Longrightarrow> post2 fdr0 (sys_dup k)"
  unfolding sys_dup_def
  by (rule post_bindE, intro post_option post_prod) (auto intro!: fdr_return dup_fd dest: fdalloc_None)

lemma sys_close_fd:
  assumes "fdr0 k"
  shows "post2 fdr0 (sys_close k)"
proof -
  have "post (\<lambda>k'. fdr0 k') (fileclose f (set_fd fd None k))" if "argfd 0 k = Inr (Some (fd, f))" for fd f
  proof -
    note f = argfd_Some [OF that assms]
    have "fdr ((\<lambda>f. 0)(f := 1)) (set_fd fd None k)"
      by (rule fdr_set_fd [OF assms f(1)]) (use f in auto)
    from fdr_fileclose [OF this, of f] show ?thesis
      using f(3) by (auto elim!: post_mono simp: set_fd_slot)
  qed
  then show ?thesis unfolding sys_close_def using assms
    by (auto simp: post_def kbind_def split: sum.splits option.splits)
qed


lemma fdr_close_all:
  assumes "fdr X k" "f < length (ftable k)" "g < length (ftable k)" "\<And>h. Y h = X h - (if h = f then 1 else 0) - (if h = g then 1 else 0)"
  shows "post (fdr Y) (kbind (fileclose f k) (fileclose g))"
proof (rule post_bind [OF fdr_fileclose [OF assms(1,2)]])
  fix k1 assume k1: "sfd (dec_ref f k) k1 \<and> fdr (X(f := X f - 1)) k1"
  then have "g < length (ftable k1)" using assms(3) sfd_length(2) [of "dec_ref f k" k1] by (simp add: dec_ref_def)
  from fdr_fileclose [OF conjunct2 [OF k1] this] show "post (fdr Y) (fileclose g k1)"
  proof (rule post_mono)
    fix k2 assume "sfd (dec_ref g k1) k2 \<and> fdr ((X(f := X f - 1))(g := (X(f := X f - 1)) g - 1)) k2"
    moreover have "(X(f := X f - 1))(g := (X(f := X f - 1)) g - 1) = Y" using assms(4) by (auto simp: fun_eq_iff)
    ultimately show "fdr Y k2" by simp
  qed
qed

text \<open>The files of a new pipe are referred to by no descriptor yet.\<close>

definition two :: "nat \<Rightarrow> nat \<Rightarrow> nat \<Rightarrow> int" where
  "two f g h = (if h = f then 1 else 0) + (if h = g then 1 else 0)"

lemma pipe_set_fd:
  assumes "fdr X k" "\<And>x. f_ref (a x) = f_ref x" "\<And>x. f_ref (b x) = f_ref x"
  shows "fdr X (upd_file g b (upd_file f a (k\<lparr>pipes := ps\<rparr>)))"
  by (rule fdr_frame [OF _ assms(1)]) (intro frame_rules sfd_refl assms(2,3))

lemma pipealloc_fd:
  assumes "fdr0 k"
  shows "post (\<lambda>(r, k'). case r of None \<Rightarrow> fdr0 k' | Some (f, g) \<Rightarrow> f < length (ftable k') \<and> g < length (ftable k') \<and> fdr (two f g) k') (pipealloc junk k)"
    (is "post ?P _")
proof (cases "filealloc k")
  case (Pair f0 k0)
  show ?thesis
  proof (cases f0)
    case None
    then have "k0 = k" using Pair filealloc_None by blast
    then show ?thesis using Pair None assms by (simp add: pipealloc_def close_opt_def Let_def post_def fdr_frame [OF sfd_upd(2) [OF sfd_refl]])
  next
    case (Some f)
    have f: "f < length (ftable k)" "k0 = upd_file f (\<lambda>x. x\<lparr>f_ref := 1\<rparr>) k" "fdr ((\<lambda>f. 0)(f := 1)) k0"
      using filealloc_Some [of k f k0] fdr_filealloc [of k f k0, OF _ assms] Pair Some by simp_all
    show ?thesis
    proof (cases "filealloc k0")
      case P1: (Pair f1 k1)
      show ?thesis
      proof (cases f1)
        case None
        then have k1: "k1 = k0" using P1 filealloc_None by blast
        have "post (\<lambda>k'. fdr0 k') (fileclose f k0)"
          using fdr_fileclose [OF f(3), of f] f(1,2) by (auto elim!: post_mono)
        then show ?thesis using Pair Some P1 None k1
          by (simp add: pipealloc_def close_opt_def Let_def post_def kbind_def split: sum.splits)
      next
        case S1: (Some g)
        have g: "g < length (ftable k0)" "k1 = upd_file g (\<lambda>x. x\<lparr>f_ref := 1\<rparr>) k0" "fdr (((\<lambda>f. 0)(f := 1))(g := ((\<lambda>f. 0)(f := 1)) g + 1)) k1"
          using filealloc_Some [of k0 g k1] fdr_filealloc [of k0 g k1, OF _ f(3)] P1 S1 by simp_all
        have "((\<lambda>f. 0)(f := 1))(g := ((\<lambda>f. 0)(f := 1)) g + 1) = two f g" by (auto simp: two_def fun_eq_iff)
        then have k1: "fdr (two f g) (k1\<lparr>km := s\<rparr>)" for s
          using g(3) fdr_frame [OF sfd_upd(2) [OF sfd_refl]] by metis
        have len: "f < length (ftable (k1\<lparr>km := s\<rparr>))" "g < length (ftable (k1\<lparr>km := s\<rparr>))" for s
          using f g by simp_all
        have "post fdr0 (kbind (fileclose f (k1\<lparr>km := s\<rparr>)) (fileclose g))" for s
          by (rule fdr_close_all [OF k1 len]) (simp add: two_def)
        then have bad: "post ?P (kbind (close_opt (Some f) (k1\<lparr>km := s\<rparr>)) (\<lambda>k. kbind (close_opt (Some g) k) (\<lambda>k. Inr (None, k))))" for s
          unfolding close_opt_def option.case kbind_assoc [symmetric] by (rule post_bind) (simp add: post_Inr)
        obtain pi s where "kalloc (km k1) = (pi, s)" by (cases "kalloc (km k1)")
        then show ?thesis using Pair Some P1 S1 bad [of s] len [of s]
          by (cases "pi = 0") (simp_all add: pipealloc_def Let_def post_Inr pipe_set_fd [OF k1])
      qed
    qed
  qed
qed


lemma close_both:
  assumes "fdr X k" "f < length (ftable k)" "g < length (ftable k)" "\<And>h. X h = two f g h"
  shows "post2 fdr0 (kbind (fileclose f k) (\<lambda>k. kbind (fileclose g k) (\<lambda>k. Inr (c, k))))"
  unfolding kbind_assoc [symmetric]
  by (rule post_bind [OF fdr_close_all [OF assms(1-3), where Y = "\<lambda>h. 0"]]) (use assms(4) in \<open>auto simp: two_def post_def\<close>)

text \<open>The two descriptors of a pipe, and giving them up again.\<close>

lemma pipe_fds:
  assumes "fdr (two f g) k" "f < length (ftable k)" "g < length (ftable k)" "fdalloc f k = (Some fd0, k1)"
  shows "fdr ((two f g)(f := two f g f - 1)) k1" "ftable k1 = ftable k" "fd0 < NOFILE" "p_ofile (myproc k1) ! fd0 = Some f"
proof -
  note a = fdalloc_Some [OF assms(4,1)]
  have "cur k < length (ptab k)" "length (p_ofile (myproc k)) = NOFILE"
    using assms(1) by (auto simp: fdr_def fdx_def fd_row_def)
  then show "p_ofile (myproc k1) ! fd0 = Some f" using a by (simp add: set_fd_slot set_slot_ofile)
  show "fdr ((two f g)(f := two f g f - 1)) k1" by (rule fdr_fdalloc [OF assms(4,1,2)])
  show "ftable k1 = ftable k" "fd0 < NOFILE" using a by (simp_all add: set_fd_slot)
qed

lemma pipe_undo1:
  assumes "fdr (two f g) k" "f < length (ftable k)" "g < length (ftable k)" "fdalloc f k = (Some fd0, k1)"
  shows "post2 fdr0 (kbind (fileclose f (set_fd fd0 None k1)) (\<lambda>k. kbind (fileclose g k) (\<lambda>k. Inr (c, k))))"
proof -
  note a = pipe_fds [OF assms]
  have "fdr (two f g) (set_fd fd0 None k1)" by (rule fdr_set_fd [OF a(1,3)]) (use a(4) in auto)
  then show ?thesis by (rule close_both) (use assms a(2) in \<open>simp_all add: set_fd_slot\<close>)
qed

lemma pipe_both:
  assumes "fdr (two f g) k" "f < length (ftable k)" "g < length (ftable k)" "fdalloc f k = (Some fd0, k1)" "fdalloc g k1 = (Some fd1, k2)"
  shows "fdr0 k2" "ftable k2 = ftable k" "fd0 < NOFILE" "fd1 < NOFILE" "fd0 \<noteq> fd1" "p_ofile (myproc k2) ! fd0 = Some f" "p_ofile (myproc k2) ! fd1 = Some g"
proof -
  note a = pipe_fds [OF assms(1-4)]
  note b = fdalloc_Some [OF assms(5) a(1)]
  have len: "cur k1 < length (ptab k1)" "length (p_ofile (myproc k1)) = NOFILE"
    using a(1) by (auto simp: fdr_def fdx_def fd_row_def)
  have "((two f g)(f := two f g f - 1))(g := ((two f g)(f := two f g f - 1)) g - 1) = (\<lambda>h. 0)"
    by (auto simp: two_def fun_eq_iff)
  then show "fdr0 k2" using fdr_fdalloc [OF assms(5) a(1)] assms(3) a(2) by simp
  show "ftable k2 = ftable k" "fd1 < NOFILE" "fd0 < NOFILE" using a b by (simp_all add: set_fd_slot)
  show "fd0 \<noteq> fd1" using a(4) b(2) by auto
  then show "p_ofile (myproc k2) ! fd0 = Some f" "p_ofile (myproc k2) ! fd1 = Some g"
    using a(4) b len by (simp_all add: set_fd_slot set_slot_ofile)
qed

lemma pipe_undo2:
  assumes "fdr0 k" "f < length (ftable k)" "g < length (ftable k)" "fd0 < NOFILE" "fd1 < NOFILE" "fd0 \<noteq> fd1"
    "p_ofile (myproc k) ! fd0 = Some f" "p_ofile (myproc k) ! fd1 = Some g"
  shows "post2 fdr0 (kbind (fileclose f (set_fd fd1 None (set_fd fd0 None k))) (\<lambda>k. kbind (fileclose g k) (\<lambda>k. Inr (c, k))))"
proof -
  have len: "cur k < length (ptab k)" using assms(1) by (auto simp: fdr_def fdx_def)
  have k1: "fdr (\<lambda>h. if h = f then 1 else 0) (set_fd fd0 None k)"
    by (rule fdr_set_fd [OF assms(1,4)]) (use assms(7) in auto)
  have "fdr (two f g) (set_fd fd1 None (set_fd fd0 None k))"
    by (rule fdr_set_fd [OF k1 assms(5)]) (use assms(6,8) len in \<open>auto simp: two_def set_fd_slot set_slot_ofile\<close>)
  then show ?thesis by (rule close_both) (use assms(2,3) in \<open>simp_all add: set_fd_slot\<close>)
qed

lemma pipe_copy:
  assumes "fdr (two f g) k" "f < length (ftable k)" "g < length (ftable k)" "fdalloc f k = (Some fd0, k1)" "fdalloc g k1 = (Some fd1, k2)"
  shows "post2 fdr0 (kbind (kcopyout a x k2) (\<lambda>(r, k).
     kbind (if r < 0 then Inr (r, k) else kcopyout b y k) (\<lambda>(r, k).
       if r < 0 then kbind (fileclose f (set_fd fd1 None (set_fd fd0 None k))) (\<lambda>k. kbind (fileclose g k) (\<lambda>k. Inr (-1, k)))
       else Inr (0, k))))"
proof -
  note b = pipe_both [OF assms]
  have k3: "fdr0 k3" if "sfd k2 k3" for k3 by (rule fdr_frame [OF that b(1)])
  have undo: "post2 fdr0 (kbind (fileclose f (set_fd fd1 None (set_fd fd0 None k3))) (\<lambda>k. kbind (fileclose g k) (\<lambda>k. Inr (-1, k))))"
    if s: "sfd k2 k3" for k3
  proof -
    have "cur k2 < length (ptab k2)" using b(1) by (auto simp: fdr_def fdx_def)
    then have o: "p_ofile (myproc k3) = p_ofile (myproc k2)" using sfd_nth [OF s] s by (simp add: sfd_def)
    show ?thesis
      by (rule pipe_undo2 [OF k3 [OF s]]) (use b o assms(2,3) sfd_length(2) [OF s] in simp_all)
  qed
  have "fr2 k2 (kcopyout a x k2)" by (intro frame_rules sfd_refl)
  then show ?thesis
  proof (rule post_bind2)
    fix r k3 assume "sfd k2 k3"
    then have "fr2 k2 (if r < 0 then Inr (r, k3) else kcopyout b y k3)" by (intro frame_rules)
    then show "post2 fdr0 (kbind (if r < 0 then Inr (r, k3) else kcopyout b y k3) (\<lambda>(r, k).
       if r < 0 then kbind (fileclose f (set_fd fd1 None (set_fd fd0 None k))) (\<lambda>k. kbind (fileclose g k) (\<lambda>k. Inr (-1, k)))
       else Inr (0, k)))"
      by (rule post_bind2) (auto intro: undo k3 fdr_return)
  qed
qed

lemma sys_pipe_fd:
  assumes "fdr0 k"
  shows "post2 fdr0 (sys_pipe junk k)"
  unfolding sys_pipe_def
  by (rule post_any, rule post_bind [OF pipealloc_fd [OF assms]], clarify, intro post_option post_prod)
    (auto intro!: fdr_return pipe_copy close_both pipe_undo1 dest!: fdalloc_None)


text \<open>Calls that only have a frame.\<close>

lemma fdr_call: "fdr X k \<Longrightarrow> (sfd k k \<Longrightarrow> fr2 k x) \<Longrightarrow> post2 (fdr X) x"
  using sfd_refl [of k] by (blast intro: fdr_post(2))

lemma open_fail:
  assumes "fdr0 k" "filealloc k = (Some f, k1)"
  shows "post2 fdr0 (kbind (fileclose f k1) (\<lambda>k. kbind (kiunlockput ip k) fail_op))"
proof -
  have k1: "fdr ((\<lambda>f. 0)(f := 1)) k1" "f < length (ftable k1)"
    using fdr_filealloc [OF assms(2,1)] filealloc_Some [OF assms(2)] by simp_all
  show ?thesis
    by (rule post_bind [OF fdr_fileclose [OF k1]]) (auto intro!: fdr_call frame_rules)
qed

lemma open_good:
  assumes "fdr0 k" "filealloc k = (Some f, k1)" "fdalloc f k1 = (Some fd, k2)"
  shows "fdr0 k2"
proof -
  have k1: "fdr ((\<lambda>f. 0)(f := 1)) k1" "f < length (ftable k1)"
    using fdr_filealloc [OF assms(2,1)] filealloc_Some [OF assms(2)] by simp_all
  show ?thesis using fdr_fdalloc [OF assms(3) k1] by simp
qed

lemma open_inode_fd:
  assumes "fdr0 k"
  shows "post2 fdr0 (open_inode ip omode k)"
  unfolding open_inode_def Let_def
  apply (intro post_if post_prod post_option)
  subgoal by (rule fdr_call [OF assms]) (intro frame_rules)
  subgoal using assms by (auto intro!: fdr_call frame_rules dest: filealloc_None)
  subgoal using open_fail [OF assms] by (auto dest: fdalloc_None)
  subgoal for r k1 f r2 k2
    by (rule fdr_call [OF open_good [OF assms, of f k1 _ k2]]) (intro frame_rules | assumption | (simp; fail))+
  done

lemma sys_open_fd:
  assumes "fdr0 k"
  shows "post2 fdr0 (sys_open junk k)"
  unfolding sys_open_def Let_def
  apply (rule post_any, rule post_any, rule post_option)
  subgoal by (rule fdr_return [OF assms])
  apply (rule post_bind [OF fdr_post(1) [OF assms]], intro frame_rules sfd_refl)
  apply (rule post_if; rule post_bind2 [OF fdr_post(2)], assumption, (intro frame_rules sfd_refl)[1], rule post_option)
  subgoal by (erule fdr_call) (intro frame_rules)
  subgoal by (rule open_inode_fd)
  subgoal by (erule fdr_call) (intro frame_rules)
  apply (rule post_bind [OF fdr_post(1)], assumption, (intro frame_rules sfd_refl)[1], rule post_if)
  subgoal by (erule fdr_call) (intro frame_rules)
  subgoal by (rule open_inode_fd)
  done

section \<open>fork\<close>

lemma allocproc_used: "post (\<lambda>(r, k'). \<forall>i. r = Some i \<longrightarrow> p_state (kproc k' i) = USED) (allocproc sy k)"
proof (cases "allocproc_scan (ptab k) 0")
  case (Some i)
  then have "i < length (ptab k)" using allocproc_scan_Some [OF Some] by simp
  then show ?thesis using Some
    by (auto simp: allocproc_def Let_def post_def kbind_def allocproc_init_def upd_at_def split: sum.splits prod.splits)
qed (simp add: allocproc_def post_def)

definition forking :: "nat \<Rightarrow> nat \<Rightarrow> 'd kernel \<Rightarrow> bool" where
  "forking np i k = (fdr0 k \<and> np < length (ptab k) \<and> np \<noteq> cur k \<and> \<not> closed (kproc k np) \<and>
     (\<forall>j. i \<le> j \<and> j < NOFILE \<longrightarrow> p_ofile (kproc k np) ! j = None))"

lemma fork_fd_step:
  assumes "forking np i k" "i < NOFILE"
  shows "post (forking np (Suc i)) (fork_fd np i k)"
proof (cases "p_ofile (myproc k) ! i")
  case None
  then show ?thesis using assms by (simp add: fork_fd_def post_def forking_def)
next
  case (Some f)
  have k: "fdr0 k" "np < length (ptab k)" "p_ofile (kproc k np) ! i = None" "\<not> closed (kproc k np)" using assms by (auto simp: forking_def)
  have row: "fd_row (length (ftable k)) (myproc k)" "length (p_ofile (kproc k np)) = NOFILE"
    using k(1,2) by (auto simp: fdr_def fdx_def fd_row_def)
  have "Some f \<in> set (p_ofile (myproc k))" using Some row(1) assms(2) unfolding fd_row_def by (metis nth_mem)
  then have f: "f < length (ftable k)" using row(1) by (auto simp: fd_row_def)
  let ?g = "\<lambda>x. x\<lparr>f_ref := f_ref x + 1\<rparr>"
  have "fdr0 (set_slot np i (Some f) (upd_file f ?g k))" if "fdr ((\<lambda>f. 0)(f := 1)) (upd_file f ?g k)"
    by (rule fdr_set_slot [OF that]) (use k f assms(2) in auto)
  then have "forking np (Suc i) (set_slot np i (Some f) (upd_file f ?g k))" if "fdr ((\<lambda>f. 0)(f := 1)) (upd_file f ?g k)"
    using that assms row(2) by (auto simp: forking_def set_slot_ofile closed_def)
  then show ?thesis unfolding fork_fd_def Some option.case
    by (intro post_bind [OF fdr_filedup [OF k(1) f]]) (auto simp: post_def)
qed


lemma forking_start:
  assumes "fdr0 k" "np < length (ptab k)" "closed (kproc k np)" "sfd k k2" "p_state (kproc k2 np) = USED"
  shows "forking np 0 k2"
proof -
  have "fd_row (length (ftable k)) (kproc k np)" using assms(1,2) by (simp add: fdr_def fdx_def)
  then have "p_ofile (kproc k np) ! j = None" if "j < NOFILE" for j
    using assms(3) that unfolding fd_row_def by (metis not_None_eq nth_mem)
  moreover have "np \<noteq> cur k2" using assms(1,3,4) by (auto simp: fdr_def sfd_def)
  ultimately show ?thesis
    using assms(2,5) sfd_nth [OF assms(4,2)] sfd_length(1) [OF assms(4)] fdr_frame [OF assms(4,1)]
    by (simp add: forking_def closed_def)
qed

lemma fork_fds: "forking np 0 k \<Longrightarrow> post (forking np NOFILE) (kfold (fork_fd np) [0..<NOFILE] k)"
  by (rule post_kfold_upt) (auto intro: fork_fd_step)

lemma fork_fd_ok:
  assumes "fdr0 k"
  shows "post2 fdr0 (fork sy k)"
proof -
  have a: "post (\<lambda>(r, k1). sfd k k1 \<and> (\<forall>i. r = Some i \<longrightarrow> i < length (ptab k) \<and> closed (kproc k i) \<and> p_state (kproc k1 i) = USED)) (allocproc sy k)"
    using allocproc_frame [of k sy] allocproc_used [of sy k] by (auto simp: post_def split: sum.splits)
  show ?thesis unfolding fork_def Let_def
    apply (rule post_bind [OF a], clarify, rule post_option)
    subgoal using assms by (auto intro: fdr_return fdr_frame)
    apply (rule post_any2, rule post_if)
    subgoal for r k1 np _ s
      by (rule post_bind [OF fdr_post(1) [OF assms]], rule freeproc_frame, rule upd_at_frame)
        (auto intro: frame_rules fdr_return)
    subgoal for r k1 np _ s
      apply (rule post_bind [OF fork_fds], rule forking_start [OF assms])
      subgoal by simp
      subgoal by simp
      subgoal by (intro frame_rules upd_at_frame) simp_all
      subgoal using sfd_length(1) [of k k1] by (simp add: upd_at_def)
      apply (rule post_any, rule post_prod, rule post_option, rule post_Inl)
      subgoal for k3 d d' f nm
        by (rule fdr_call [of _ k3])
          (auto simp: forking_def closed_def intro!: frame_rules sfd_upd_at)
      done
    done
qed

section \<open>exit\<close>

definition closing :: "nat \<Rightarrow> 'd kernel \<Rightarrow> bool" where
  "closing i k = (fdr0 k \<and> (\<forall>j < i. p_ofile (myproc k) ! j = None))"

lemma exit_fd_step:
  assumes "closing i k" "i < NOFILE"
  shows "post (closing (Suc i)) (exit_fd i k)"
proof (cases "p_ofile (myproc k) ! i")
  case None
  then show ?thesis using assms by (auto simp: exit_fd_def post_def closing_def less_Suc_eq)
next
  case (Some f)
  have k: "fdr0 k" "cur k < length (ptab k)" "fd_row (length (ftable k)) (myproc k)" using assms by (auto simp: closing_def fdr_def fdx_def)
  have "Some f \<in> set (p_ofile (myproc k))" using Some k(3) assms(2) unfolding fd_row_def by (metis nth_mem)
  then have f: "f < length (ftable k)" using k(3) by (auto simp: fd_row_def)
  show ?thesis unfolding exit_fd_def Some option.case
  proof (rule post_bind [OF fdr_fileclose [OF k(1) f]], rule post_Inr)
    fix k1 assume k1: "sfd (dec_ref f k) k1 \<and> fdr ((\<lambda>f. 0)(f := 0 - 1)) k1"
    have o: "p_ofile (myproc k1) = p_ofile (myproc k)" "cur k1 = cur k" "length (ptab k1) = length (ptab k)"
      using k1 k(2) sfd_nth [of "dec_ref f k" k1 "cur k"] sfd_length [of "dec_ref f k" k1] by (auto simp: sfd_def dec_ref_def)
    have "fdr0 (set_fd i None k1)"
      by (rule fdr_set_fd [OF conjunct2 [OF k1] assms(2)]) (use Some o in auto)
    then show "closing (Suc i) (set_fd i None k1)"
      using assms k(2,3) o by (auto simp: closing_def set_fd_slot set_slot_ofile nth_list_update less_Suc_eq fd_row_def)
  qed
qed

lemma exit_fds: "fdr0 k \<Longrightarrow> post (closing NOFILE) (kfold exit_fd [0..<NOFILE] k)"
  by (rule post_kfold_upt, simp, simp add: closing_def, rule exit_fd_step)

lemma closing_frame:
  assumes "sfd k0 k" "closing i k0"
  shows "closing i k"
proof -
  have "cur k0 < length (ptab k0)" "cur k = cur k0" using assms by (auto simp: closing_def fdr_def fdx_def sfd_def)
  then show ?thesis using sfd_nth [OF assms(1), of "cur k0"] fdr_frame [OF assms(1)] assms(2) by (simp add: closing_def)
qed

lemma reparent_frame [frame_rules]: "sfd k0 k \<Longrightarrow> sfd k0 (k\<lparr>ptab := reparent me ip p (ptab k)\<rparr>)"
proof -
  assume "sfd k0 k"
  then have "sfd k0 (k\<lparr>ptab := fold (\<lambda>pp ps.
         if p_parent (ps ! pp) = Some p
         then wakeup me (Chan_proc ip) (ps[pp := (ps ! pp)\<lparr>p_parent := Some ip\<rparr>]) else ps) js (ptab k)\<rparr>)" for js
  proof (induction js arbitrary: k)
    case (Cons j js)
    let ?ps = "if p_parent (ptab k ! j) = Some p then wakeup me (Chan_proc ip) ((ptab k)[j := (ptab k ! j)\<lparr>p_parent := Some ip\<rparr>]) else ptab k"
    have "sfd k0 (k\<lparr>ptab := ?ps\<rparr>)"
      by (rule sfd_ptab [OF Cons.prems]; cases "j < length (ptab k)")
        (auto simp: wakeup_nth nth_list_update list_update_beyond closed_def split: if_splits)
    from Cons.IH [OF this] show ?case by simp
  qed simp
  then show "sfd k0 (k\<lparr>ptab := reparent me ip p (ptab k)\<rparr>)" by (simp add: reparent_def)
qed

lemma wakeup_parent_frame [frame_rules]: "sfd k0 k \<Longrightarrow> sfd k0 (wakeup_parent k)"
  unfolding wakeup_parent_def
  by (auto split: option.split intro!: frame_rules sfd_ptab simp: nth_enumerate_eq closed_def split: if_splits)

lemma exit_end:
  assumes "closing NOFILE k"
  shows "fd_ok (upd_proc (exit_enter status) k)"
proof -
  let ?k = "upd_proc (exit_enter status) k"
  have len: "length (p_ofile (myproc k)) = NOFILE" "cur k < length (ptab k)" and ok: "fd_ok k"
    using assms by (simp_all add: closing_def fdr_def fdx_def fd_row_def)
  then have none: "Some f \<notin> set (p_ofile (myproc k))" for f
    using assms by (auto simp: closing_def in_set_conv_nth)
  have of: "p_ofile (kproc ?k i) = p_ofile (kproc k i)" if "i < length (ptab k)" for i
    using that len(2) by (simp add: upd_proc_def nth_list_update exit_enter_def)
  then have "map p_ofile (ptab ?k) = map p_ofile (ptab k)" by (intro nth_equalityI) (simp_all add: upd_proc_def)
  then have "refs ?k = refs k" by (simp add: refs_def fun_eq_iff)
  moreover have "fd_row (length (ftable k)) (kproc ?k i)" if "i < length (ptab k)" for i
    using that ok none len of [OF that] by (cases "i = cur k") (simp_all add: fdx_def fd_row_def upd_proc_def)
  ultimately show ?thesis using ok by (simp add: fdx_def upd_proc_def)
qed

lemma exit_tail:
  assumes "closing i k"
  shows "closing i (wakeup_parent ((upd_proc (p_cwd_update f) k)\<lparr>ptab := reparent me ip p (ptab (upd_proc (p_cwd_update f) k))\<rparr>))"
  by (rule closing_frame [OF _ assms]) (intro frame_rules sfd_refl | (simp; fail))+

lemma kexit_fd:
  assumes "fdr0 k"
  shows "post fd_ok (kexit status k)"
proof -
  have mid: "closing NOFILE k \<Longrightarrow> fr1 k x \<Longrightarrow> post (closing NOFILE) x" for k and x :: "'a kernel kr"
    by (erule post_mono) (rule closing_frame)
  show ?thesis unfolding kexit_def Let_def
    apply (rule post_if, rule post_Inl, rule post_bind [OF exit_fds [OF assms]])
    apply (rule post_bind [OF mid [rotated]], rule frame_rules, rule sfd_refl, assumption, rule post_any)
    apply (rule post_bind [OF mid [rotated]], rule frame_rules, rule sfd_refl, assumption)
    apply (rule post_bind [OF mid [rotated]], rule frame_rules, rule sfd_refl, assumption)
    apply (rule post_Inr, rule exit_end, erule exit_tail)
    done
qed


section \<open>Histories\<close>

text \<open>A call that returns to its process has left it running.\<close>

definition fd_ret :: "'a option \<times> 'd kernel \<Rightarrow> bool" where
  "fd_ret = (\<lambda>(r, k). fd_ok k \<and> (r \<noteq> None \<longrightarrow> \<not> closed (myproc k)))"

lemma fdr_ret: "post2 fdr0 x \<Longrightarrow> post fd_ret x"
  by (erule post_mono) (auto simp: fdr_def fd_ret_def)

lemma ret_int_fd: "post2 fdr0 x \<Longrightarrow> post fd_ret (ret_int x)"
  unfolding ret_int_def by (rule fdr_ret, erule post_bind2) (simp add: post_def)

lemma ret_int_call: "fdr0 k \<Longrightarrow> (sfd k k \<Longrightarrow> fr2 k x) \<Longrightarrow> post fd_ret (ret_int x)"
  by (rule ret_int_fd) (rule fdr_call)

lemma sys_exit_fd: "fdr0 k \<Longrightarrow> post fd_ret (kbind (sys_exit k) (\<lambda>k. Inr (None, k)))"
  unfolding sys_exit_def kbind_assoc by (rule post_any, rule post_bind [OF kexit_fd]) (auto simp: post_def fd_ret_def)

lemma sys_shrimpy_fd:
  assumes "fdr0 k"
  shows "post fd_ret (sys_shrimpy sy k)"
  unfolding sys_shrimpy_def shrimpy_def Let_def kbind_assoc
  apply (rule post_any, rule post_option, rule post_Inl, rule post_any2, rule post_if)
  subgoal for _ _ _ s using fdr_frame [OF sfd_upd(2) [OF sfd_refl] assms, of s] by (simp add: post_def fdr_def fd_ret_def)
  subgoal for _ _ _ s
    by (rule post_any, rule post_bind [OF kexit_fd])
      (auto simp: post_def fd_ret_def intro!: fdr_frame [OF sfd_upd(2) [OF sfd_refl] assms])
  done

lemma syscalls_fd:
  assumes "fdr0 k" "syscalls sy stk num = Some h"
  shows "post fd_ret (h k)"
proof -
  have same: "post fd_ret (Inr (r, k))" for r :: "u64 option" using assms(1) by (simp add: post_def fdr_def fd_ret_def)
  have sbrk: "post fd_ret (kbind (sys_sbrk k) (\<lambda>(r, k). Inr (Some r, k)))"
    by (rule fdr_ret, rule fdr_call [OF assms(1)]) (intro frame_rules)
  show ?thesis using assms(2) unfolding syscalls_def Let_def
    by (auto simp: sys_fork_def sys_wait_def split: if_splits
        intro!: same sbrk sys_exit_fd [OF assms(1)] sys_shrimpy_fd [OF assms(1)] ret_int_fd [OF fork_fd_ok [OF assms(1)]]
          ret_int_fd [OF sys_pipe_fd [OF assms(1)]] ret_int_fd [OF sys_dup_fd [OF assms(1)]] ret_int_fd [OF sys_open_fd [OF assms(1)]]
          ret_int_fd [OF sys_close_fd [OF assms(1)]] ret_int_call [OF assms(1)] frame_rules post_any)
qed

lemma fd_frame: "sfd k0 k \<Longrightarrow> fd_ok k0 \<Longrightarrow> fd_ok k"
  by (rule fdx_frame)

lemma syscall_fd:
  assumes "fdr0 k"
  shows "post (\<lambda>(alive, k). if alive then fdr0 k else fd_ok k) (syscall sy stk k)"
proof -
  have tf: "fdr0 k' \<Longrightarrow> fdr0 (tf_put j v k')" for k' :: "'a kernel" and j v
    by (rule fdr_frame [OF tf_put_frame [OF sfd_refl]])
  show ?thesis unfolding syscall_def Let_def
    apply (rule post_option)
    subgoal using tf [OF assms] by (simp add: post_def)
    subgoal for h
      by (rule post_bind [OF syscalls_fd [OF assms]])
        (auto simp: post_def fd_ret_def fdr_def split: option.split if_splits intro!: tf [unfolded fdr_def, THEN conjunct1] tf [unfolded fdr_def, THEN conjunct2])
    done
qed

lemma clockintr_frame [frame_rules]: "sfd k0 k \<Longrightarrow> sfd k0 (clockintr k)"
  unfolding clockintr_def by (intro frame_rules) (simp add: sfd_def)

lemma irq_handle_frame [frame_rules]: "sfd k0 k \<Longrightarrow> sfd k0 (irq_handle h k)"
  unfolding irq_handle_def by (intro frame_rules)

lemma devintr_frame: "devintr u d rg k = (r, k') \<Longrightarrow> sfd k k'"
  by (auto simp: devintr_def split: if_splits intro!: frame_rules sfd_refl)

lemma usertrap_end_fd:
  assumes "fdr0 k"
  shows "post2 fd_ok (usertrap_end True which_dev k)"
proof -
  have "sfd k (upd_proc yield_enter k)"
    unfolding upd_proc_at by (rule sfd_upd_at [OF sfd_refl]) (simp_all add: yield_enter_def closed_def)
  then have "fd_ok (upd_proc yield_enter k)" using assms fd_frame by (auto simp: fdr_def)
  then show ?thesis using assms kexit_fd [OF assms, of "-1"]
    by (auto simp: usertrap_end_def post_def fdr_def kbind_def split: sum.splits)
qed


lemma usertrap_alive: "(if alive then fdr0 k else fd_ok k) \<Longrightarrow> post2 fd_ok (usertrap_end alive which_dev k)"
  by (cases alive) (simp_all add: usertrap_end_fd, simp add: usertrap_end_def post_def)

lemma usertrap_fd:
  assumes "fdr0 k"
  shows "post2 fd_ok (usertrap sy stk u d rg k)"
proof -
  have tf: "fdr0 (tf_put j v k')" if "fdr0 k'" for k' :: "'a kernel" and j v
    by (rule fdr_frame [OF tf_put_frame [OF sfd_refl] that])
  have dead: "post2 fd_ok (Inr (Exited, k'))" if "fd_ok k'" for k' :: "'a kernel"
    using that by (simp add: post_def)
  have dev: "fdr0 k2" if "devintr u d rg (tf_put 24 (r_sepc rg) k) = (r, k2)" for r k2
    by (rule fdr_frame [OF devintr_frame [OF that] tf [OF assms]])
  have kill: "fdr0 (upd_proc setkilled k')" if "fdr0 k'" for k' :: "'a kernel"
    by (rule fdr_frame [OF upd_proc_frame [OF sfd_refl] that]) (simp_all add: setkilled_def)
  show ?thesis unfolding usertrap_def Let_def
    apply (intro post_if post_prod post_Inl)
    subgoal by (rule post_bind [OF kexit_fd [OF tf [OF assms]]]) (rule dead)
    subgoal by (rule post_bind [OF syscall_fd [OF tf [OF tf [OF assms]]]])
        (simp only: case_prod_beta, rule usertrap_alive, assumption)
    subgoal for r k2 by (rule usertrap_end_fd) (auto intro: dev kill)
    done
qed

text \<open>
  Histories of one CPU: the scheduler picks a process; user code changes memory, the trap frame
  included; the process traps into the kernel. A call that would sleep is not in the history until it
  can run to its end.
\<close>

inductive kernel_run :: "'d kernel \<Rightarrow> 'd kernel \<Rightarrow> bool" where
  kr_init: "kernel_run k k"
| kr_pick: "kernel_run k0 k \<Longrightarrow> i < length (ptab k) \<Longrightarrow> scheduler_pick (kproc k i) = Some p \<Longrightarrow>
    kernel_run k0 (k\<lparr>ptab := (ptab k)[i := p], cur := i\<rparr>)"
| kr_user: "kernel_run k0 k \<Longrightarrow> kernel_run k0 (k\<lparr>km := (km k)\<lparr>mem := m\<rparr>\<rparr>)"
| kr_trap: "kernel_run k0 k \<Longrightarrow> \<not> closed (myproc k) \<Longrightarrow> usertrap sy stk u d rg k = Inr (e, k') \<Longrightarrow> kernel_run k0 k'"

lemma pick_fd:
  assumes "fd_ok k" "i < length (ptab k)" "scheduler_pick (kproc k i) = Some p"
  shows "fd_ok (k\<lparr>ptab := (ptab k)[i := p], cur := i\<rparr>)"
proof -
  have p: "p = (kproc k i)\<lparr>p_state := RUNNING\<rparr>" "p_state (kproc k i) = RUNNABLE"
    using assms(3) by (simp_all add: scheduler_pick_def split: if_splits)
  have "sfd k (k\<lparr>ptab := (ptab k)[i := p]\<rparr>)"
    by (rule sfd_ptab [OF sfd_refl]) (auto simp: p closed_def nth_list_update assms(2) split: if_splits)
  from fd_frame [OF this assms(1)] show ?thesis using assms(2) by (simp add: fdx_def refs_def)
qed

lemma kernel_run_fd: "kernel_run k0 k \<Longrightarrow> fd_ok k0 \<Longrightarrow> fd_ok k"
proof (induction rule: kernel_run.induct)
  case (kr_user k0 k m)
  then show ?case using fd_frame [OF sfd_upd(2) [OF sfd_refl]] by simp
next
  case (kr_trap k0 k sy stk u d rg e k')
  then have "fdr0 k" by (simp add: fdr_def)
  from postD [OF usertrap_fd [OF this] kr_trap.hyps(3)] show ?case by simp
qed (simp_all add: pick_fd)

text \<open>
  C3. On every history of traps, for any programs, the reference count of an open file is the number
  of descriptors that refer to it. So the file of a descriptor is never free, filedup and fileclose
  pass their test on it, and filealloc hands out only files that no descriptor refers to.
\<close>

theorem file_refs:
  assumes "kernel_run k0 k" "fd_ok k0"
  shows "(\<forall>f < length (ftable k). f_ref (ftable k ! f) = refs k f) \<and>
    (\<forall>i fd f. i < length (ptab k) \<and> fd < NOFILE \<and> p_ofile (kproc k i) ! fd = Some f \<longrightarrow>
      f < length (ftable k) \<and> f_ref (ftable k ! f) \<ge> 1 \<and> (\<exists>k'. filedup f k = Inr (f, k'))) \<and>
    (\<forall>i f k'. filealloc k = (Some f, k') \<and> i < length (ptab k) \<longrightarrow> Some f \<notin> set (p_ofile (kproc k i)))"
proof (intro conjI allI impI; (elim conjE)?)
  note ok = kernel_run_fd [OF assms]
  have ref: "f_ref (ftable k ! f) = refs k f" if "f < length (ftable k)" for f using ok that by (simp add: fdx_def)
  have in_tab: "f < length (ftable k) \<and> f_ref (ftable k ! f) \<ge> 1" if "Some f \<in> set (p_ofile (kproc k i))" "i < length (ptab k)" for f i
  proof -
    have "f < length (ftable k)" using ok that by (auto simp: fdx_def fd_row_def)
    then show ?thesis using ref refs_pos [OF that(2,1)] by simp
  qed
  show "f_ref (ftable k ! f) = refs k f" if "f < length (ftable k)" for f by (rule ref [OF that])
  fix i fd f assume i: "i < length (ptab k)"
  show "Some f \<notin> set (p_ofile (kproc k i))" if "filealloc k = (Some f, k')" for k'
    using filealloc_Some(2) [OF that] in_tab [OF _ i, of f] by auto
  assume "fd < NOFILE" "p_ofile (kproc k i) ! fd = Some f"
  then have "Some f \<in> set (p_ofile (kproc k i))" using i ok unfolding fdx_def fd_row_def by (metis nth_mem)
  from in_tab [OF this i] show "f < length (ftable k)" "f_ref (ftable k ! f) \<ge> 1" "\<exists>k'. filedup f k = Inr (f, k')"
    by (simp_all add: filedup_def)
qed


text \<open>One process with one descriptor; its trap frame at 4096 asks for dup(0).\<close>

definition sample_kernel :: "unit kernel" where
  "sample_kernel = \<lparr>km = \<lparr>mem = (\<lambda>a. 0)(4264 := 10), freelist = 0, kend = KERNBASE\<rparr>, kfs = sample_fs,
     ftable = [\<lparr>f_type = FD_NONE, f_ref = 1, f_readable = True, f_writable = True, f_pipe = 0, f_ip = 0, f_off = 0, f_major = 0\<rparr>],
     pipes = (\<lambda>a. pipe_init []), ptab = [sample_proc\<lparr>p_state := RUNNABLE, p_trapframe := 4096, p_killed := 0, p_ofile := Some 0 # replicate 15 None\<rparr>],
     cur = 0, nextpid = 2, initproc = 0, kticks = 0,
     shr = \<lparr>sh_P = None, sh_NP = None, sh_vas = [], sh_pas = [], sh_frames = []\<rparr>,
     vlt = \<lparr>v_mkv = 0, v_st = 0, v_inode = 0, v_stat = stat_of []\<rparr>,
     devst = (), dev_read = (\<lambda>i. None), dev_write = (\<lambda>i. None)\<rparr>"

definition sample_ecall :: trapregs where
  "sample_ecall = \<lparr>r_sstatus = 0, r_sepc = 0, r_scause = 8, r_satp = 0, r_tp = 0, r_irq = 0\<rparr>"

definition sample_syms :: ksyms where
  "sample_syms = \<lparr>trampoline = 0, forkret_addr = 0, proc_base = 0, proc_size = 0\<rparr>"

definition sample_picked :: "unit kernel" where
  "sample_picked = sample_kernel\<lparr>ptab := [(kproc sample_kernel 0)\<lparr>p_state := RUNNING\<rparr>], cur := 0\<rparr>"

definition sample_in :: "unit kernel" where
  "sample_in = tf_put 24 4 (tf_put 24 0 sample_picked)"

definition sample_after :: "unit kernel" where
  "sample_after = tf_put 112 1 (upd_file 0 (\<lambda>x. x\<lparr>f_ref := f_ref x + 1\<rparr>) (set_fd 1 (Some 0) sample_in))"

lemma sample_kernel_ok: "fd_ok sample_kernel"
  by (simp add: fdx_def sample_kernel_def refs_def fd_row_def closed_def NOFILE_def)

lemmas sample_defs = sample_in_def sample_picked_def sample_kernel_def sample_proc_def tf_put_def

lemma sample_args: "tf_get 168 sample_in = 10" "tf_get 112 sample_in = 0"
  by (simp_all add: sample_defs tf_get_def get64_put64_other) (simp_all add: get64_def)

lemma sample_dup: "sys_dup sample_in = Inr (1, upd_file 0 (\<lambda>x. x\<lparr>f_ref := f_ref x + 1\<rparr>) (set_fd 1 (Some 0) sample_in))"
proof -
  have "argint 0 sample_in = Inr 0" by (simp add: argint_def argraw_def sample_args int_of_u64_def)
  moreover have "myproc sample_in = (sample_proc\<lparr>p_state := RUNNING, p_trapframe := 4096, p_killed := 0, p_ofile := Some 0 # replicate 15 None\<rparr>)"
    by (simp add: sample_defs)
  moreover have "f_ref (ftable (set_fd 1 (Some 0) sample_in) ! 0) = 1" by (simp add: sample_defs set_fd_def upd_proc_def)
  ultimately show ?thesis
    by (simp add: sys_dup_def argfd_def NOFILE_def fdalloc_def filedup_def numeral_eq_Suc)
qed

lemma sample_trap: "usertrap sample_syms (\<lambda>i. 0) (\<lambda>d. (d, [])) (\<lambda>d. (d, [])) sample_ecall sample_picked = Inr (Returns, sample_after)"
proof -
  have "syscalls sample_syms (\<lambda>i. 0) 10 = Some (\<lambda>k :: unit kernel. ret_int (sys_dup k))" by (simp add: syscalls_def)
  then have "syscall sample_syms (\<lambda>i. 0) sample_in = Inr (True, sample_after)"
    by (simp add: syscall_def sample_args int_of_u64_def ret_int_def sample_dup sample_after_def)
  moreover have "p_killed (myproc (tf_put 24 0 sample_picked)) = 0" "p_killed (myproc sample_after) = 0"
    by (simp_all add: sample_defs sample_after_def upd_file_def set_fd_def upd_proc_def)
  ultimately show ?thesis
    by (simp add: usertrap_def sample_ecall_def killed_def usertrap_end_def flip: sample_in_def)
qed

lemma sample_run: "kernel_run sample_kernel sample_after"
proof -
  have "kernel_run sample_kernel sample_picked"
    using kr_pick [OF kr_init, of 0 sample_kernel] by (simp add: sample_picked_def scheduler_pick_def) (simp add: sample_kernel_def)
  moreover have "\<not> closed (myproc sample_picked)" by (simp add: sample_picked_def closed_def)
  ultimately show ?thesis by (rule kr_trap) (rule sample_trap)
qed

theorem file_refs_witness:
  "kernel_run sample_kernel sample_after \<and> fd_ok sample_kernel \<and> p_ofile (kproc sample_after 0) = Some 0 # Some 0 # replicate 14 None \<and>
   f_ref (ftable sample_after ! 0) = refs sample_after 0 \<and> refs sample_after 0 = 2"
proof -
  have "length (ftable sample_after) = 1" by (simp add: sample_after_def sample_defs set_fd_def upd_proc_def)
  then have "f_ref (ftable sample_after ! 0) = refs sample_after 0"
    using file_refs [OF sample_run sample_kernel_ok] by simp
  then show ?thesis using sample_run sample_kernel_ok
    by (simp add: sample_after_def sample_defs set_fd_def upd_proc_def upd_file_def refs_def numeral_eq_Suc)
qed

end
