(* ===== verification/Xv6_Vault.thy ===== *)
theory Xv6_Vault
  imports Xv6_Fdesc Xv6_Uvm
begin

text \<open>
  What the vault calls achieve. The open flag that openvault and closevault test lives in the struct st;
  the one that readi tests lives in the inode, and no operation of the file system sets it.
\<close>

text \<open>A page from kalloc is filled with fives, so the open flag of a new struct st is not 0.\<close>

lemma st_alloc_open:
  assumes "st_alloc k = Inr k'" "v_st (vlt k) = 0"
  shows "st_vault_open (v_stat (vlt k')) = 0x05050505" "v_mkv (vlt k') = v_mkv (vlt k)" "v_inode (vlt k') = v_inode (vlt k)" "kfs k' = kfs k"
proof -
  obtain pa s where pa: "kalloc (km k) = (pa, s)" "pa \<noteq> 0" "k' = k\<lparr>km := s, vlt := (vlt k)\<lparr>v_st := pa, v_stat := stat_of (load_bytes (mem s) pa 40)\<rparr>\<rparr>"
    using assms by (auto simp: st_alloc_def split: if_splits prod.splits)
  have m: "mem s = memset (mem (km k)) pa 5 4096" using pa(1,2) by (auto simp: kalloc_def Let_def split: if_splits)
  have "load_bytes (mem s) pa 40 ! j = 5" if "j < 40" for j
    using that by (simp add: load_bytes_def m memset_apply unat_of_nat)
  then have "get32 (load_bytes (mem s) pa 40) 32 = 0x05050505" by (simp add: get32_def)
  then show "st_vault_open (v_stat (vlt k')) = 0x05050505" by (simp add: pa(3) stat_of_def)
  show "v_mkv (vlt k') = v_mkv (vlt k)" "v_inode (vlt k') = v_inode (vlt k)" "kfs k' = kfs k" by (simp_all add: pa(3))
qed

section \<open>What the file system leaves alone\<close>

text \<open>From s0 to s no open flag of an inode has changed, nor the number of running operations.\<close>

definition vk :: "fs \<Rightarrow> fs \<Rightarrow> bool" where
  "vk s0 s \<longleftrightarrow> map vault_open (itab s) = map vault_open (itab s0) \<and> outstanding (flog s) = outstanding (flog s0)"

named_theorems vk_rules \<open>operations that keep the open flags of the inodes\<close>

lemma vk_refl: "vk s s"
  by (simp add: vk_def)

lemma vk_upd [vk_rules]:
  assumes "vk s0 s" "\<And>i. vault_open (f i) = vault_open i"
  shows "vk s0 (upd_inode ip f s)"
proof -
  have "map vault_open ((itab s)[ip := f (ino s ip)]) = map vault_open (itab s)"
    by (cases "ip < length (itab s)") (simp_all add: map_update assms(2) list_update_same_conv list_update_beyond)
  then show ?thesis using assms(1) by (simp add: vk_def upd_inode_def)
qed

lemma vk_bset [vk_rules]: "vk s0 s \<Longrightarrow> vk s0 (bset b d s)"
  by (simp add: vk_def bset_def)

lemma vk_log_write [vk_rules]: "vk s0 s \<Longrightarrow> post (vk s0) (fs_log_write b s)"
  by (rule postI) (auto simp: vk_def fs_log_write_def log_write_def kr_simps split: if_splits)

lemma vk_bupdate [vk_rules]: "vk s0 s \<Longrightarrow> post (vk s0) (bupdate b d s)"
  unfolding bupdate_def by (intro vk_rules)

lemma vk_bzero [vk_rules]: "vk s0 s \<Longrightarrow> post (vk s0) (bzero b s)"
  unfolding bzero_def by (rule vk_bupdate)

lemma vk_balloc_from: "vk s0 s \<Longrightarrow> post2 (vk s0) (balloc_from b s)"
proof (induction b s rule: balloc_from.induct)
  case (1 b s)
  show ?case
    unfolding balloc_from.simps [of b s] Let_def
    by (intro post_struct post_bind [OF vk_bupdate] post_bind [OF vk_bzero] post_Inr 1) (simp_all add: 1)
qed

lemma vk_balloc [vk_rules]: "vk s0 s \<Longrightarrow> post2 (vk s0) (balloc s)"
  unfolding balloc_def by (rule vk_balloc_from)

lemma vk_bfree [vk_rules]: "vk s0 s \<Longrightarrow> post (vk s0) (bfree b s)"
  unfolding bfree_def Let_def by (intro post_struct vk_rules)

lemma vk_iget [vk_rules]: "vk s0 s \<Longrightarrow> post2 (vk s0) (iget dv inm s)"
  unfolding iget_def by (intro post_struct post_Inr) (auto intro!: vk_rules)

lemma vk_ialloc_scan: "vk s0 s \<Longrightarrow> post2 (vk s0) (ialloc_scan inms dv ty s)"
proof (induction inms arbitrary: s)
  case (Cons inm inms)
  then show ?case
    by (auto simp: Let_def intro!: post_bind [OF vk_bupdate] post_bind2 [OF vk_iget] post_Inr)
qed (simp add: post_Inr)

lemma vk_ialloc [vk_rules]: "vk s0 s \<Longrightarrow> post2 (vk s0) (ialloc dv ty s)"
  unfolding ialloc_def by (rule vk_ialloc_scan)

lemma vk_iupdate [vk_rules]: "vk s0 s \<Longrightarrow> post (vk s0) (iupdate ip s)"
  unfolding iupdate_def Let_def by (rule vk_bupdate)

lemma vk_ilock [vk_rules]: "vk s0 s \<Longrightarrow> post (vk s0) (ilock pid ip s)"
  unfolding ilock_def Let_def by (intro post_struct post_Inr) (auto intro!: vk_rules simp: dinode_get_def)

lemma vk_iunlock [vk_rules]: "vk s0 s \<Longrightarrow> post (vk s0) (iunlock pid ip s)"
  unfolding iunlock_def by (intro post_struct post_Inr) (auto intro!: vk_rules)

lemma vk_bmap_direct [vk_rules]: "vk s0 s \<Longrightarrow> post2 (vk s0) (bmap_direct ip bn s)"
  unfolding bmap_direct_def Let_def
  by (intro post_struct post_bind2 [OF vk_balloc] post_Inr) (auto intro!: vk_rules)

lemma vk_bmap [vk_rules]: "vk s0 s \<Longrightarrow> post2 (vk s0) (bmap ip bn s)"
  unfolding bmap_def Let_def
  by (intro post_struct post_bind2 [OF vk_bmap_direct] post_bind2 [OF vk_balloc] post_bind [OF vk_bupdate] post_Inr vk_bmap_direct) auto

lemma vk_itrunc [vk_rules]: "vk s0 s \<Longrightarrow> post (vk s0) (itrunc ip s)"
  unfolding itrunc_def Let_def
  by (intro post_bind [where Q = "vk s0"] post_kfold post_struct post_Inr vk_iupdate) (auto intro!: vk_rules)

lemma vk_iput [vk_rules]: "vk s0 s \<Longrightarrow> post (vk s0) (iput pid ip s)"
  unfolding iput_def
  by (intro post_bind [where Q = "vk s0"] post_struct post_Inr vk_iupdate vk_itrunc) (auto intro!: vk_rules)

lemma vk_iunlockput [vk_rules]: "vk s0 s \<Longrightarrow> post (vk s0) (iunlockput pid ip s)"
  unfolding iunlockput_def by (rule post_bind [OF vk_iunlock vk_iput])

lemma vk_readi_loop: "vk s0 s \<Longrightarrow> post3 (vk s0) (readi_loop put ip dst off n tot m s)"
proof (induction "unat (n - tot)" arbitrary: dst off tot m s rule: less_induct)
  case less
  show ?case
    unfolding readi_loop.simps [of put ip dst off n tot m s] Let_def
    by (intro post_if post_bind2 [OF vk_bmap [OF less.prems]] post_any2 post_Inr less.hyps) (auto simp: chunk_decr less.prems)
qed

lemma vk_readi [vk_rules]: "vk s0 s \<Longrightarrow> post3 (vk s0) (readi put ip dst off n m s)"
  unfolding readi_def Let_def by (intro post_struct post_bind3 [OF vk_readi_loop] post_Inr) auto

lemma vk_read_dirent [vk_rules]: "vk s0 s \<Longrightarrow> post2 (vk s0) (read_dirent msg dp off s)"
  unfolding read_dirent_def by (intro post_struct post_bind3 [OF vk_readi] post_Inr) auto

lemma vk_dirlookup_from: "vk s0 s \<Longrightarrow> post2 (vk s0) (dirlookup_from ks dp name s)"
proof (induction ks arbitrary: s)
  case (Cons x ks)
  show ?case unfolding dirlookup_from.simps
    by (intro post_bind2 [OF vk_read_dirent [OF Cons.prems]] post_struct post_any post_Inr) (auto intro: Cons.IH)
qed (simp add: post_Inr)

lemma vk_dirlookup [vk_rules]: "vk s0 s \<Longrightarrow> post2 (vk s0) (dirlookup dp name s)"
  unfolding dirlookup_def
  by (intro post_struct post_bind2 [OF vk_dirlookup_from] post_bind2 [OF vk_iget] post_Inr) auto

lemma vk_namex_loop: "vk s0 s \<Longrightarrow> post3 (vk s0) (namex_loop pid parent path name ip s)"
proof (induction "length path" arbitrary: path name ip s rule: less_induct)
  case less
  show ?case
    unfolding namex_loop.simps [of pid parent path name ip s]
    by (intro post_struct post_bind [OF vk_ilock] post_bind [OF vk_iunlockput] post_bind [OF vk_iput] post_bind [OF vk_iunlock]
          post_bind2 [OF vk_dirlookup] post_Inr less.hyps)
      (auto simp: less.prems dest: skipelem_shorter)
qed

lemma vk_namei [vk_rules]: "vk s0 s \<Longrightarrow> post2 (vk s0) (namei junk pid cwd path s)"
  unfolding namei_def namex_def
  by (intro post_bind3 [where Q = "vk s0"] post_bind2 [where Q = "vk s0"] post_struct vk_namex_loop vk_iget post_Inr)
    (auto simp: idup_def intro!: vk_rules)

lemma vk_isdirempty [vk_rules]: "vk s0 s \<Longrightarrow> post2 (vk s0) (isdirempty dp s)"
proof -
  have "vk s0 s \<Longrightarrow> post2 (vk s0) (isdirempty_from ks dp s)" for ks
  proof (induction ks arbitrary: s)
    case (Cons x ks)
    then show ?case by (auto intro!: post_bind2 [OF vk_read_dirent] post_struct post_Inr)
  qed (simp add: post_Inr)
  then show "vk s0 s \<Longrightarrow> ?thesis" unfolding isdirempty_def .
qed

lemma vk_flags: "vk s0 s \<Longrightarrow> \<forall>i\<in>set (itab s0). vault_open i = 0 \<Longrightarrow> \<forall>i\<in>set (itab s). vault_open i = 0"
  unfolding vk_def by (metis (no_types, lifting) imageE imageI image_set)

lemma vk_trans: "vk s0 s1 \<Longrightarrow> vk s1 s2 \<Longrightarrow> vk s0 s2"
  by (simp add: vk_def)

section \<open>Making a vault\<close>

lemma isdirempty_result: "isdirempty_from ks dp s = Inr (r, s') \<Longrightarrow> r = 0 \<or> r = 1"
  by (induction ks arbitrary: s) (auto simp: kr_simps split: if_splits)

lemma iupdate_outside: "outstanding (flog s) < 1 \<Longrightarrow> \<exists>msg. iupdate ip s = Inl (Panic msg)"
  by (auto simp: iupdate_def bupdate_def fs_log_write_def log_write_def bset_def Let_def)

lemma on_fs_vk:
  assumes "on_fs f k = Inr (r, k')" "post2 (vk (kfs k)) (f (kfs k))"
  shows "vk (kfs k) (kfs k') \<and> vlt k' = vlt k"
  using assms by (auto simp: on_fs_def kr_simps post_def)

lemma knamei_vk: "knamei junk path k = Inr (ip, k') \<Longrightarrow> vk (kfs k) (kfs k') \<and> vlt k' = vlt k"
proof -
  assume "knamei junk path k = Inr (ip, k')"
  then obtain d where "on_fs (namei junk (kpid k) d path) k = Inr (ip, k')" by (auto simp: knamei_def kr_simps)
  then show ?thesis by (rule on_fs_vk) (rule vk_namei [OF vk_refl])
qed

text \<open>A transaction around an operation that keeps the flags keeps the number of running operations.\<close>

lemma transaction_vk:
  assumes "kbegin_op k = Inr k1" "vk (kfs k1) (kfs k2)" "vlt k2 = vlt k1" "kend_op k2 = Inr k3"
  shows "vk (kfs k) (kfs k3) \<and> vlt k3 = vlt k"
proof -
  have b: "itab (kfs k1) = itab (kfs k)" "outstanding (flog (kfs k1)) = outstanding (flog (kfs k)) + 1" "vlt k1 = vlt k"
    using assms(1) by (auto simp: kbegin_op_def begin_op_def split: option.splits if_splits)
  obtain lg d where e: "end_op (flog (kfs k2)) (dsk (kfs k2)) = Inr (lg, d)"
    "k3 = kwakeup Chan_log (k2\<lparr>kfs := (kfs k2)\<lparr>flog := lg, dsk := d\<rparr>\<rparr>)"
    using assms(4) by (auto simp: kend_op_def kr_simps)
  have "outstanding lg = outstanding (flog (kfs k2)) - 1"
    using e(1) by (auto simp: end_op_def end_op_enter_def commit_def kr_simps Let_def split: if_splits prod.splits)
  then show ?thesis using assms(2,3) b by (simp add: vk_def e(2) kwakeup_def)
qed

lemma mkvault_result:
  assumes "mkvault k = Inr (r, k')"
  shows "r = 0" "v_mkv (vlt k') = v_mkv (vlt k)" "v_inode (vlt k') = v_inode (vlt k)" "vk (kfs k) (kfs k')"
    "st_vault_open (v_stat (vlt k')) = (if v_st (vlt k) = 0 then 0x05050505 else st_vault_open (v_stat (vlt k)))"
    "v_inode (vlt k) < length (itab (kfs k')) \<Longrightarrow> is_vault (kino k' (v_inode (vlt k))) = 1 \<and> st_is_vault (v_stat (vlt k')) = 1"
proof -
  let ?ip = "v_inode (vlt k)"
  obtain e s where e: "isdirempty ?ip (kfs k) = Inr (e, s)"
    using assms by (auto simp: mkvault_def Let_def on_fs_def kr_simps)
  then have "e \<noteq> -1" using isdirempty_result by (fastforce simp: isdirempty_def)
  then obtain k1 where k1: "st_alloc (k\<lparr>kfs := s\<rparr>) = Inr k1" and r: "r = 0" and
    k': "k' = (let k = k1\<lparr>kfs := upd_inode ?ip (\<lambda>i. i\<lparr>is_vault := 1, vault_id := sint (inum (kino k1 ?ip))\<rparr>) (kfs k1)\<rparr>
        in k\<lparr>vlt := (vlt k)\<lparr>v_stat := stati (kino k ?ip) ((v_stat (vlt k))\<lparr>st_is_vault := 1, st_vault_id := sint (inum (kino k1 ?ip))\<rparr>)\<rparr>\<rparr>)"
    using assms e by (auto simp: mkvault_def Let_def on_fs_def kr_simps)
  have a: "v_mkv (vlt k1) = v_mkv (vlt k)" "v_inode (vlt k1) = ?ip" "kfs k1 = s"
    "st_vault_open (v_stat (vlt k1)) = (if v_st (vlt k) = 0 then 0x05050505 else st_vault_open (v_stat (vlt k)))"
    using st_alloc_open [OF k1] k1 by (auto simp: st_alloc_def split: if_splits)
  show "r = 0" by (rule r)
  show "v_mkv (vlt k') = v_mkv (vlt k)" "v_inode (vlt k') = ?ip"
    "st_vault_open (v_stat (vlt k')) = (if v_st (vlt k) = 0 then 0x05050505 else st_vault_open (v_stat (vlt k)))"
    using a by (simp_all add: k' Let_def stati_def)
  have "vk (kfs k) s" using postD [OF vk_isdirempty [OF vk_refl] e] by simp
  then show "vk (kfs k) (kfs k')" by (simp add: k' Let_def a(3) vk_upd)
  show "is_vault (kino k' ?ip) = 1 \<and> st_is_vault (v_stat (vlt k')) = 1" if "?ip < length (itab (kfs k'))"
    using that by (simp add: k' Let_def stati_def upd_inode_def)
qed

text \<open>On a path that exists, sys_mkvault allocates st itself before it calls mkvault; on a new one mkvault does.\<close>

lemma sys_mkvault_result:
  assumes "sys_mkvault junk k = Inr (0, k')"
  shows "v_mkv (vlt k') \<noteq> 0" "vk (kfs k) (kfs k')"
    "st_vault_open (v_stat (vlt k')) = (if v_st (vlt k) = 0 then 0x05050505 else st_vault_open (v_stat (vlt k)))"
    "v_inode (vlt k') < length (itab (kfs k')) \<Longrightarrow>
       is_vault (kino k' (v_inode (vlt k'))) = 1 \<and> st_is_vault (v_stat (vlt k')) = 1"
proof -
  from assms obtain path k1 ip k2 where k1: "mkv_alloc k = Inr k1" and k2: "knamei junk path k1 = Inr (ip, k2)" and
    rest: "(case ip of
           None \<Rightarrow>
             kbind (kbegin_op k2) (\<lambda>k.
             kbind (on_fs (ialloc ROOTDEV T_DIR) k) (\<lambda>(ip, k).
             kbind (kend_op k) (\<lambda>k.
             case ip of
               None \<Rightarrow> Inl (Panic ''Failed to allocate inode for mkvault'')
             | Some ip \<Rightarrow> mkvault (k\<lparr>vlt := (vlt k)\<lparr>v_inode := ip\<rparr>\<rparr>))))
         | Some ip \<Rightarrow>
             kbind (st_alloc (k2\<lparr>vlt := (vlt k2)\<lparr>v_inode := ip\<rparr>\<rparr>)) (\<lambda>k.
             mkvault (k\<lparr>vlt := (vlt k)\<lparr>v_stat := stati (kino k ip) (v_stat (vlt k))\<rparr>\<rparr>))) = Inr (0, k')"
    by (auto simp: sys_mkvault_def kr_simps split: option.splits)
  have m: "kfs k1 = kfs k" "v_mkv (vlt k1) \<noteq> 0" "v_st (vlt k1) = v_st (vlt k)" "v_stat (vlt k1) = v_stat (vlt k)"
    using k1 by (auto simp: mkv_alloc_def split: if_splits prod.splits)
  note n = knamei_vk [OF k2]
  have "\<exists>k3. mkvault k3 = Inr (0, k') \<and> vk (kfs k2) (kfs k3) \<and> v_mkv (vlt k3) = v_mkv (vlt k2) \<and>
      (if v_st (vlt k3) = 0 then v_st (vlt k2) = 0
       else st_vault_open (v_stat (vlt k3)) = (if v_st (vlt k2) = 0 then 0x05050505 else st_vault_open (v_stat (vlt k2))))"
  proof (cases ip)
    case None
    then obtain k3 x k4 k5 j where s: "kbegin_op k2 = Inr k3" "on_fs (ialloc ROOTDEV T_DIR) k3 = Inr (x, k4)" "kend_op k4 = Inr k5"
      "mkvault (k5\<lparr>vlt := (vlt k5)\<lparr>v_inode := j\<rparr>\<rparr>) = Inr (0, k')"
      using rest by (auto simp: kr_simps split: option.splits)
    have "vk (kfs k3) (kfs k4) \<and> vlt k4 = vlt k3" by (rule on_fs_vk [OF s(2) vk_ialloc [OF vk_refl]])
    then have "vk (kfs k2) (kfs k5) \<and> vlt k5 = vlt k2" using transaction_vk [OF s(1) _ _ s(3)] by blast
    then show ?thesis using s(4) by (intro exI [of _ "k5\<lparr>vlt := (vlt k5)\<lparr>v_inode := j\<rparr>\<rparr>"]) simp
  next
    case (Some j)
    then obtain k3 where s: "st_alloc (k2\<lparr>vlt := (vlt k2)\<lparr>v_inode := j\<rparr>\<rparr>) = Inr k3"
      "mkvault (k3\<lparr>vlt := (vlt k3)\<lparr>v_stat := stati (kino k3 j) (v_stat (vlt k3))\<rparr>\<rparr>) = Inr (0, k')"
      using rest by (auto simp: kr_simps)
    have "v_st (vlt k3) \<noteq> 0" using s(1) by (auto simp: st_alloc_def split: if_splits prod.splits)
    moreover have "kfs k3 = kfs k2" "v_mkv (vlt k3) = v_mkv (vlt k2)"
      "st_vault_open (v_stat (vlt k3)) = (if v_st (vlt k2) = 0 then 0x05050505 else st_vault_open (v_stat (vlt k2)))"
      using st_alloc_open [OF s(1)] s(1) by (auto simp: st_alloc_def split: if_splits prod.splits)
    ultimately show ?thesis using s(2)
      by (intro exI [of _ "k3\<lparr>vlt := (vlt k3)\<lparr>v_stat := stati (kino k3 j) (v_stat (vlt k3))\<rparr>\<rparr>"]) (simp add: vk_refl stati_def)
  qed
  then obtain k3 where k3: "mkvault k3 = Inr (0, k')" "vk (kfs k2) (kfs k3)" "v_mkv (vlt k3) = v_mkv (vlt k2)"
    "if v_st (vlt k3) = 0 then v_st (vlt k2) = 0
     else st_vault_open (v_stat (vlt k3)) = (if v_st (vlt k2) = 0 then 0x05050505 else st_vault_open (v_stat (vlt k2)))" by blast
  note r = mkvault_result [OF k3(1)]
  show "v_mkv (vlt k') \<noteq> 0" using m(2) n k3(3) r(2) by simp
  show "vk (kfs k) (kfs k')" using m(1) n k3(2) r(4) by (metis vk_trans)
  show "st_vault_open (v_stat (vlt k')) = (if v_st (vlt k) = 0 then 0x05050505 else st_vault_open (v_stat (vlt k)))"
    using m(3,4) n k3(4) r(5) by (simp split: if_splits)
  show "v_inode (vlt k') < length (itab (kfs k')) \<Longrightarrow>
       is_vault (kino k' (v_inode (vlt k'))) = 1 \<and> st_is_vault (v_stat (vlt k')) = 1" using r(3,6) by simp
qed

section \<open>Properties\<close>

text \<open>
  C36. A vault that sys_mkvault has made, of a new inode or of a directory that exists, cannot be used.
  Every read of its inode fails: the inode's open flag, 0 in a table that was never written to, is set
  neither by sys_mkvault nor by openvault, which sets the flag in st. If no other file system call is
  running, the one of openvault and closevault that does not refuse panics, as it writes the inode
  outside a transaction. On a struct st that is new it is closevault, because the flag there is the
  garbage that kalloc leaves.
\<close>

theorem vault_unusable:
  assumes "sys_mkvault junk k = Inr (0, k')" "v_inode (vlt k') < length (itab (kfs k'))" "\<forall>i\<in>set (itab (kfs k)). vault_open i = 0"
  shows "readi put (v_inode (vlt k')) dst off n m (kfs k') = Inr (-1, m, kfs k') \<and>
    (outstanding (flog (kfs k)) = 0 \<longrightarrow>
      (if st_vault_open (v_stat (vlt k')) = 0
       then (\<exists>msg. openvault k' = Inl (Panic msg)) \<and> closevault k' = Inr (-1, k')
       else openvault k' = Inr (-1, k') \<and> (\<exists>msg. closevault k' = Inl (Panic msg)))) \<and>
    (v_st (vlt k) = 0 \<longrightarrow> st_vault_open (v_stat (vlt k')) \<noteq> 0)"
proof -
  note a = sys_mkvault_result [OF assms(1)]
  have v: "is_vault (kino k' (v_inode (vlt k'))) = 1" "st_is_vault (v_stat (vlt k')) = 1" using a(4) [OF assms(2)] by simp_all
  have "vault_open (kino k' (v_inode (vlt k'))) = 0" using vk_flags [OF a(2) assms(3)] assms(2) by simp
  then have "readi put (v_inode (vlt k')) dst off n m (kfs k') = Inr (-1, m, kfs k')" using v(1) by (simp add: readi_def)
  moreover have "if st_vault_open (v_stat (vlt k')) = 0
       then (\<exists>msg. openvault k' = Inl (Panic msg)) \<and> closevault k' = Inr (-1, k')
       else openvault k' = Inr (-1, k') \<and> (\<exists>msg. closevault k' = Inl (Panic msg))" if "outstanding (flog (kfs k)) = 0"
    using iupdate_outside [of "kfs k'" "v_inode (vlt k')"] that a(1,2) v(2)
    by (auto simp: openvault_def closevault_def on_fs'_def vk_def)
  ultimately show ?thesis using a(3) by simp
qed

text \<open>The second vault of a process: the path is empty and names the current directory, and st is in use.\<close>

definition sample_mkv :: "unit kernel" where
  "sample_mkv = sample_kernel\<lparr>km := sample_user,
     ptab := [sample_proc\<lparr>p_pagetable := sample_pt, p_trapframe := upa (mem sample_user) sample_pt 0, p_cwd := Some 0\<rparr>],
     kfs := sample_fs\<lparr>flog := (flog sample_fs)\<lparr>outstanding := 0\<rparr>, itab := [sample_inode\<lparr>itype := T_DIR\<rparr>]\<rparr>,
     vlt := \<lparr>v_mkv = 0x87FFE000, v_st = 0x87FFD000, v_inode = 0,
       v_stat = \<lparr>st_dev = 1, st_ino = 1, st_type = 1, st_nlink = 1, st_size = 0, st_is_vault = 1, st_vault_id = 1, st_vault_open = 0\<rparr>\<rparr>\<rparr>"

lemma sample_mkv_path: "argstr 0 100 sample_mkv = Inr (Some [])"
proof -
  obtain xs where inv: "uspace_inv sample_user sample_pt xs" using sample_user_alloc(1) by blast
  have u: "umem (mem sample_user) sample_pt (0 + of_nat i) = Some 0" if "i < 4096" for i :: nat
    using that by (simp add: sample_user_alloc(2) in_range_def unat_of_nat64)
  have z: "mem sample_user (upa (mem sample_user) sample_pt 0 + of_nat i) = 0" if "i < 4096" for i :: nat
    using umem_room [of i 0 "mem sample_user" sample_pt] u [OF that] that
    by (simp add: room_def PGROUNDDOWN_def PGSIZE_def split: if_splits)
  have "get64 (mem sample_user) (upa (mem sample_user) sample_pt 0 + 112) = get64 (\<lambda>a. 0) (upa (mem sample_user) sample_pt 0 + 112)"
  proof (rule get64_cong)
    show "mem sample_user (upa (mem sample_user) sample_pt 0 + 112 + of_nat k) = 0" if "k < 8" for k
      using z [of "112 + k"] that by (simp add: add.assoc)
  qed
  then have "tf_get 112 sample_mkv = 0" by (simp add: tf_get_def sample_mkv_def sample_kernel_def get64_def)
  moreover have "copyinstr sample_user sample_pt 0 100 = Inr (0, [0])"
  proof -
    have "ustr (mem sample_user) sample_pt 0 100 [0]" using sample_user_bytes [of 1] by (simp add: ustr_def)
    then obtain bs where bs: "copyinstr sample_user sample_pt 0 100 = Inr (0, bs)" "ustr (mem sample_user) sample_pt 0 100 bs"
      using copyinstr_spec [OF uspace_ptinv [OF inv], of 0 100] by auto
    have "map Some bs = replicate (length bs) (Some 0)" using bs(2) sample_user_bytes [of "length bs"] by (auto simp: ustr_def)
    then have "bs = replicate (length bs) 0" by (metis map_replicate inj_map_eq_map inj_Some length_map)
    moreover have "length bs = 1"
    proof (rule ccontr)
      assume "length bs \<noteq> 1"
      then obtain n where "length bs = Suc (Suc n)" using bs(2) by (metis One_nat_def length_0_conv nat.exhaust ustr_def)
      then have "bs = 0 # 0 # replicate n 0" using \<open>bs = replicate (length bs) 0\<close> by simp
      then show False using bs(2) by (simp add: ustr_def)
    qed
    ultimately show ?thesis using bs(1) by (metis One_nat_def replicate_0 replicate_Suc)
  qed
  ultimately show ?thesis
    by (simp add: argstr_def argaddr_def argraw_def fetchstr_def cstr_def) (simp add: sample_mkv_def sample_kernel_def cstr_def)
qed

lemma sample_sys_mkvault: "\<exists>k'. sys_mkvault junk sample_mkv = Inr (0, k') \<and> v_inode (vlt k') = 0 \<and> length (itab (kfs k')) = 1 \<and>
    st_vault_open (v_stat (vlt k')) = 0"
proof -
  define k2 where "k2 = sample_mkv\<lparr>kfs := upd_inode 0 (\<lambda>i. i\<lparr>iref := iref i + 1\<rparr>) (kfs sample_mkv)\<rparr>"
  define k3 where "k3 = k2\<lparr>vlt := (vlt k2)\<lparr>v_inode := 0\<rparr>\<rparr>"
  have n: "knamei junk [] sample_mkv = Inr (Some 0, k2)"
    by (simp add: knamei_def start_dir_def kcwd_def on_fs_def namei_def namex_def idup_def namex_loop.simps skipelem_def k2_def)
      (simp add: sample_mkv_def sample_kernel_def)
  have m: "mkv_alloc sample_mkv = Inr sample_mkv" by (simp add: mkv_alloc_def sample_mkv_def)
  have st: "st_alloc k3 = Inr k3" by (simp add: st_alloc_def k3_def k2_def sample_mkv_def)
  have "sys_mkvault junk sample_mkv = mkvault (k3\<lparr>vlt := (vlt k3)\<lparr>v_stat := stati (kino k3 0) (v_stat (vlt k3))\<rparr>\<rparr>)"
    by (simp add: sys_mkvault_def sample_mkv_path n m st flip: k3_def)
  moreover have "\<exists>k'. mkvault (k3\<lparr>vlt := (vlt k3)\<lparr>v_stat := stati (kino k3 0) (v_stat (vlt k3))\<rparr>\<rparr>) = Inr (0, k') \<and> v_inode (vlt k') = 0 \<and>
      length (itab (kfs k')) = 1 \<and> st_vault_open (v_stat (vlt k')) = 0"
    by (simp add: mkvault_def on_fs_def isdirempty_def k3_def k2_def sample_mkv_def sample_inode_def upd_inode_def dirents_def stati_def st_alloc_def)
  ultimately show ?thesis by simp
qed

theorem vault_unusable_witness:
  "\<exists>k' msg. sys_mkvault [] sample_mkv = Inr (0, k') \<and> openvault k' = Inl (Panic msg) \<and> closevault k' = Inr (-1, k') \<and>
     readi kput 0 0 0 16 [] (kfs k') = Inr (-1, [], kfs k')"
proof -
  obtain k' where k': "sys_mkvault [] sample_mkv = Inr (0, k')" "v_inode (vlt k') = 0" "length (itab (kfs k')) = 1"
    "st_vault_open (v_stat (vlt k')) = 0" using sample_sys_mkvault by blast
  have "\<forall>i\<in>set (itab (kfs sample_mkv)). vault_open i = 0" "outstanding (flog (kfs sample_mkv)) = 0"
    by (simp_all add: sample_mkv_def sample_inode_def)
  then show ?thesis using vault_unusable [OF k'(1), of kput 0 0 16 "[]"] k' by auto
qed

end
