(* ===== verification/Xv6_Exec.thy ===== *)
theory Xv6_Exec
  imports Xv6_Life Xv6_Uvm
begin

text \<open>
  The stack that exec builds for a new program: what main finds at its arguments argc and argv.
\<close>

section \<open>Ranges of addresses\<close>

lemma in_buf_iff:
  fixes x va :: u64
  assumes "unat va + n \<le> 2 ^ 64"
  shows "unat (x - va) < n \<longleftrightarrow> unat va \<le> unat x \<and> unat x < unat va + n"
proof (cases "va \<le> x")
  case True
  then have "unat (x - va) = unat x - unat va" "unat va \<le> unat x" by (simp_all add: unat_sub word_le_nat_alt)
  then show ?thesis by linarith
next
  case False
  then have lt: "unat x < unat va" by (simp add: word_le_nat_alt)
  then have "unat (x - va) = 2 ^ 64 - (unat va - unat x)" by (simp add: unat_sub_if' word_size)
  then show ?thesis using lt assms by linarith
qed

lemma unat_align16: "unat (sp - sp mod 16) = unat sp - unat sp mod 16" for sp :: u64
proof -
  have "sp mod 16 \<le> sp" by (simp add: word_le_nat_alt unat_mod)
  then show ?thesis by (simp add: unat_sub unat_mod)
qed

lemma unat_top: "unat sp < 2 ^ 64" for sp :: u64
proof -
  have "unat sp < 2 ^ LENGTH(64)" by (rule unsigned_less)
  then show ?thesis by simp
qed

lemma unat_drop_sp:
  fixes sp :: u64
  assumes "n \<le> unat sp"
  shows "unat (sp - of_nat n) = unat sp - n"
proof -
  have "n < 2 ^ 64" using assms unat_top [of sp] by simp
  then have "unat (of_nat n :: u64) = n" by (simp add: unat_of_nat)
  then show ?thesis using assms by (simp add: unat_sub word_le_nat_alt)
qed

text \<open>The user memory at an address holds these bytes.\<close>

definition holds :: "memory \<Rightarrow> u64 \<Rightarrow> u64 \<Rightarrow> byte list \<Rightarrow> bool" where
  "holds m pt va bs = (\<forall>j < length bs. umem m pt (va + of_nat j) = Some (bs ! j))"

text \<open>From s to s' only user bytes from lo up to hi have changed.\<close>

definition only_in :: "nat \<Rightarrow> nat \<Rightarrow> kmem \<Rightarrow> kmem \<Rightarrow> u64 \<Rightarrow> bool" where
  "only_in lo hi s s' pt = (\<forall>x. unat x < lo \<or> hi \<le> unat x \<longrightarrow> umem (mem s') pt x = umem (mem s) pt x)"

lemma only_in_trans:
  assumes "only_in a b s s1 pt" "only_in c d s1 s2 pt" "lo \<le> a" "lo \<le> c" "b \<le> hi" "d \<le> hi"
  shows "only_in lo hi s s2 pt"
  unfolding only_in_def
proof (intro allI impI)
  fix x :: u64 assume "unat x < lo \<or> hi \<le> unat x"
  then have "unat x < a \<or> b \<le> unat x" "unat x < c \<or> d \<le> unat x" using assms(3-6) by linarith+
  then show "umem (mem s2) pt x = umem (mem s) pt x" using assms(1,2) unfolding only_in_def by metis
qed

lemma holds_kept:
  assumes "holds (mem s) pt va bs" "only_in lo hi s s' pt" "unat va + length bs \<le> 2 ^ 64" "unat va + length bs \<le> lo \<or> hi \<le> unat va"
  shows "holds (mem s') pt va bs"
  unfolding holds_def
proof (intro allI impI)
  fix j assume j: "j < length bs"
  then have "unat (va + of_nat j) = unat va + j" using assms(3) by (simp add: unat_word_ariths unat_of_nat)
  then have "umem (mem s') pt (va + of_nat j) = umem (mem s) pt (va + of_nat j)" using assms(2,4) j by (auto simp: only_in_def)
  then show "umem (mem s') pt (va + of_nat j) = Some (bs ! j)" using assms(1) j by (simp add: holds_def)
qed

text \<open>One copyout, with the facts the stack needs.\<close>

lemma copyout_stack:
  assumes "uspace_inv s pt xs" "unat va + length bs \<le> 2 ^ 64" "length bs < 2 ^ 64"
  shows "\<exists>r s'. copyout s pt va bs = Inr (r, s') \<and> uspace_inv s' pt xs \<and>
    (r < 0 \<or> only_in (unat va) (unat va + length bs) s s' pt \<and> holds (mem s') pt va bs)"
proof -
  obtain r s' where c: "copyout s pt va bs = Inr (r, s')" "uspace_inv s' pt xs"
    "if None \<in> set (ubytes (mem s) pt va (length bs)) then r = -1 else r = 0 \<and> umem (mem s') pt = overwrite (umem (mem s) pt) va bs"
    using copyout_spec [OF assms(1,3)] by blast
  have "only_in (unat va) (unat va + length bs) s s' pt \<and> holds (mem s') pt va bs" if o: "umem (mem s') pt = overwrite (umem (mem s) pt) va bs"
  proof
    show "only_in (unat va) (unat va + length bs) s s' pt"
      unfolding only_in_def o overwrite_def in_buf_iff [OF assms(2)] by simp
    have "unat (of_nat j :: u64) = j" if "j < length bs" for j using that assms(3) by (simp add: unat_of_nat)
    then show "holds (mem s') pt va bs" by (simp add: holds_def o overwrite_def)
  qed
  then show ?thesis using c by (cases "None \<in> set (ubytes (mem s) pt va (length bs))") simp_all
qed

section \<open>The argument strings\<close>

definition arg_at :: "memory \<Rightarrow> u64 \<Rightarrow> nat \<Rightarrow> nat \<Rightarrow> u64 \<Rightarrow> byte list \<Rightarrow> bool" where
  "arg_at m pt lo hi p a = (lo \<le> unat p \<and> unat p + length a + 1 \<le> hi \<and> holds m pt p (a @ [0]))"

lemma args_push:
  assumes "only_in (unat sp1) (unat sp1 + length a + 1) s s1 pt" "holds (mem s1) pt sp1 (a @ [0])" "unat sp' \<le> unat sp1"
    "only_in (unat sp') (unat sp1) s1 s' pt" "list_all2 (arg_at (mem s') pt (unat sp') (unat sp1)) ps as"
    "unat sp1 + length a + 1 \<le> unat sp" "unat sp < 2 ^ 64"
  shows "only_in (unat sp') (unat sp) s s' pt \<and> list_all2 (arg_at (mem s') pt (unat sp') (unat sp)) (sp1 # ps) (a # as)"
proof
  show "only_in (unat sp') (unat sp) s s' pt"
    by (rule only_in_trans [OF assms(1,4)]) (use assms in auto)
  have "holds (mem s') pt sp1 (a @ [0])" by (rule holds_kept [OF assms(2,4)]) (use assms(6,7) in auto)
  then have "arg_at (mem s') pt (unat sp') (unat sp) sp1 a" using assms(3,6) by (simp add: arg_at_def)
  moreover have "list_all2 (arg_at (mem s') pt (unat sp') (unat sp)) ps as"
    by (rule list_all2_mono [OF assms(5)]) (use assms(6) in \<open>auto simp: arg_at_def\<close>)
  ultimately show "list_all2 (arg_at (mem s') pt (unat sp') (unat sp)) (sp1 # ps) (a # as)" by simp
qed

lemma exec_args_spec:
  assumes "uspace_inv s pt xs" "unat base \<le> unat sp" "4096 \<le> unat base" "\<forall>a \<in> set argv. length a < 4096"
    "length ustack + length argv \<le> MAXARG"
  shows "\<exists>r s'. exec_args argv pt base sp ustack s = Inr (r, s') \<and> uspace_inv s' pt xs \<and>
    (\<forall>sp' us. r = Some (sp', us) \<longrightarrow> (\<exists>ps. us = ustack @ ps \<and> unat base \<le> unat sp' \<and> unat sp' \<le> unat sp \<and>
       only_in (unat sp') (unat sp) s s' pt \<and> list_all2 (arg_at (mem s') pt (unat sp') (unat sp)) ps argv))"
  using assms
proof (induction argv arbitrary: sp ustack s)
  case Nil
  then show ?case by (simp add: only_in_def)
next
  case (Cons a as)
  define sp1 where "sp1 = sp - of_nat (length a + 1) - (sp - of_nat (length a + 1)) mod 16"
  have len: "length a + 1 \<le> 4096" "length ustack < MAXARG" using Cons.prems by auto
  then have d: "unat (sp - of_nat (length a + 1)) = unat sp - (length a + 1)" using Cons.prems by (intro unat_drop_sp) simp
  then have sp1: "unat sp1 + length a + 1 \<le> unat sp" using len Cons.prems unfolding sp1_def unat_align16 by linarith
  note top = unat_top [of sp]
  show ?case
  proof (cases "sp1 < base")
    case True
    then show ?thesis using Cons.prems(1) len(2) unfolding exec_args.simps Let_def sp1_def [symmetric] by simp
  next
    case False
    then have b: "unat base \<le> unat sp1" by (simp add: word_le_nat_alt not_less)
    obtain r s1 where c: "copyout s pt sp1 (a @ [0]) = Inr (r, s1)" "uspace_inv s1 pt xs"
      "r < 0 \<or> only_in (unat sp1) (unat sp1 + length (a @ [0])) s s1 pt \<and> holds (mem s1) pt sp1 (a @ [0])"
      using copyout_stack [OF Cons.prems(1), of sp1 "a @ [0]"] sp1 top len by auto
    have ex: "exec_args (a # as) pt base sp ustack s = (if r < 0 then Inr (None, s1) else exec_args as pt base sp1 (ustack @ [sp1]) s1)"
      using False len(2) c(1) unfolding exec_args.simps Let_def sp1_def [symmetric] by simp
    show ?thesis
    proof (cases "r < 0")
      case True
      then show ?thesis using ex c(2) by simp
    next
      case r: False
      then have s1: "only_in (unat sp1) (unat sp1 + length a + 1) s s1 pt" "holds (mem s1) pt sp1 (a @ [0])" using c(3) by simp_all
      obtain r' s' where IH: "exec_args as pt base sp1 (ustack @ [sp1]) s1 = Inr (r', s')" "uspace_inv s' pt xs"
        "\<forall>sp' us. r' = Some (sp', us) \<longrightarrow> (\<exists>ps. us = (ustack @ [sp1]) @ ps \<and> unat base \<le> unat sp' \<and> unat sp' \<le> unat sp1 \<and>
           only_in (unat sp') (unat sp1) s1 s' pt \<and> list_all2 (arg_at (mem s') pt (unat sp') (unat sp1)) ps as)"
        using Cons.IH [OF c(2) b, of "ustack @ [sp1]"] Cons.prems by auto
      have "\<exists>ps. us = ustack @ ps \<and> unat base \<le> unat sp' \<and> unat sp' \<le> unat sp \<and> only_in (unat sp') (unat sp) s s' pt \<and>
          list_all2 (arg_at (mem s') pt (unat sp') (unat sp)) ps (a # as)" if some: "r' = Some (sp', us)" for sp' us
      proof -
        obtain ps where ps: "us = (ustack @ [sp1]) @ ps" "unat base \<le> unat sp'" "unat sp' \<le> unat sp1"
          "only_in (unat sp') (unat sp1) s1 s' pt" "list_all2 (arg_at (mem s') pt (unat sp') (unat sp1)) ps as"
          using IH(3) some by blast
        show ?thesis using ps(1-3) sp1 args_push [OF s1 ps(3-5) sp1 top] by (intro exI [of _ "sp1 # ps"]) simp
      qed
      then show ?thesis using ex r IH(1,2) by simp
    qed
  qed
qed


section \<open>The whole stack\<close>

definition le64 :: "u64 \<Rightarrow> byte list" where
  "le64 x = load_bytes (put64 (\<lambda>a. 0) 0 x) 0 8"

lemma length_le64 [simp]: "length (le64 x) = 8" "length (concat (map le64 xs)) = 8 * length xs"
  by (simp add: le64_def, induction xs) (simp_all add: le64_def)

lemma args_kept:
  assumes "list_all2 (arg_at (mem s) pt lo hi) ps argv" "only_in c d s s' pt" "d \<le> lo" "c \<le> lo" "hi < 2 ^ 64"
  shows "list_all2 (arg_at (mem s') pt c hi) ps argv"
proof (rule list_all2_mono [OF assms(1)])
  fix p a assume "arg_at (mem s) pt lo hi p a"
  then have p: "lo \<le> unat p" "unat p + length a + 1 \<le> hi" "holds (mem s) pt p (a @ [0])" by (auto simp: arg_at_def)
  have "holds (mem s') pt p (a @ [0])" by (rule holds_kept [OF p(3) assms(2)]) (use p assms(3,5) in auto)
  then show "arg_at (mem s') pt c hi p a" using p assms(4) by (simp add: arg_at_def)
qed

text \<open>The array below the strings: its address, and the copy.\<close>

definition array_sp :: "u64 \<Rightarrow> nat \<Rightarrow> u64" where
  "array_sp sp argc = (sp - of_nat (argc + 1) * 8) - (sp - of_nat (argc + 1) * 8) mod 16"

lemma array_sp:
  assumes "8 * (argc + 1) \<le> unat sp"
  shows "unat (array_sp sp argc) mod 16 = 0" "unat (array_sp sp argc) + 8 * (argc + 1) \<le> unat sp"
proof -
  have "sp - of_nat (argc + 1) * 8 = sp - of_nat (8 * (argc + 1))" by simp
  then have "unat (array_sp sp argc) = (unat sp - 8 * (argc + 1)) - (unat sp - 8 * (argc + 1)) mod 16"
    unfolding array_sp_def unat_align16 using unat_drop_sp [OF assms] by presburger
  then show "unat (array_sp sp argc) mod 16 = 0" "unat (array_sp sp argc) + 8 * (argc + 1) \<le> unat sp"
    using assms by (simp_all add: minus_mod_eq_mult_div)
qed

lemma exec_stack_unfold:
  assumes "exec_args argv pt (stop - PGSIZE) stop [] s = Inr (Some (sp, ps), s1)" "length ps < MAXARG"
  shows "exec_stack argv pt stop s = (if array_sp sp (length ps) < stop - PGSIZE then Inr (None, s1)
     else kbind (copyout s1 pt (array_sp sp (length ps)) (concat (map le64 (ps @ [0])))) (\<lambda>(r, s).
       Inr (if r < 0 then None else Some (array_sp sp (length ps), length ps), s)))"
  unfolding exec_stack_def Let_def assms(1) array_sp_def le64_def [abs_def] using assms(2) by simp

text \<open>
  C5. The stack of a new program: exec_stack does not panic, and when it succeeds main finds in user memory
  what it expects. The stack pointer is aligned to 16 bytes and inside the stack page; there lies the
  array argv, a null pointer at its end; its entries point to the argument strings, each with its
  terminating NUL and inside the stack page; and no other user byte has changed.
\<close>

theorem exec_stack_correct:
  assumes "uspace_inv s pt xs" "8192 \<le> unat stop" "\<forall>a \<in> set argv. length a < 4096" "length argv < MAXARG"
  shows "\<exists>r s'. exec_stack argv pt stop s = Inr (r, s') \<and>
    (\<forall>sp argc. r = Some (sp, argc) \<longrightarrow> argc = length argv \<and> unat sp mod 16 = 0 \<and> unat stop - 4096 \<le> unat sp \<and>
       only_in (unat sp) (unat stop) s s' pt \<and>
       (\<exists>ps. holds (mem s') pt sp (concat (map le64 (ps @ [0]))) \<and> list_all2 (arg_at (mem s') pt (unat sp) (unat stop)) ps argv))"
proof -
  define base where "base = stop - PGSIZE"
  have "unat (stop - of_nat 4096) = unat stop - 4096" by (rule unat_drop_sp) (use assms(2) in simp)
  then have base: "unat base = unat stop - 4096" "4096 \<le> unat base" "unat base \<le> unat stop"
    using assms(2) by (simp_all add: base_def PGSIZE_def)
  obtain r1 s1 where a: "exec_args argv pt base stop [] s = Inr (r1, s1)" "uspace_inv s1 pt xs"
    "\<forall>sp' us. r1 = Some (sp', us) \<longrightarrow> (\<exists>ps. us = [] @ ps \<and> unat base \<le> unat sp' \<and> unat sp' \<le> unat stop \<and>
       only_in (unat sp') (unat stop) s s1 pt \<and> list_all2 (arg_at (mem s1) pt (unat sp') (unat stop)) ps argv)"
    using exec_args_spec [OF assms(1) base(3,2) assms(3), of "[]"] assms(4) by auto
  show ?thesis
  proof (cases r1)
    case None
    then show ?thesis using a(1) by (simp add: exec_stack_def Let_def base_def)
  next
    case (Some x)
    then obtain sp0 ps where ps: "r1 = Some (sp0, ps)" "unat base \<le> unat sp0" "unat sp0 \<le> unat stop"
      "only_in (unat sp0) (unat stop) s s1 pt" "list_all2 (arg_at (mem s1) pt (unat sp0) (unat stop)) ps argv"
      using a(3) by (cases x) auto
    have argc: "length ps = length argv" by (rule list_all2_lengthD [OF ps(5)])
    let ?sp = "array_sp sp0 (length ps)" and ?n = "8 * (length ps + 1)"
    have small: "?n \<le> unat sp0" using assms(4) argc ps(2) base(2) by (simp add: MAXARG_def)
    note sp = array_sp [OF small] and t = unat_top [of stop] unat_top [of sp0]
    obtain r2 s2 where c: "copyout s1 pt ?sp (concat (map le64 (ps @ [0]))) = Inr (r2, s2)"
      "r2 < 0 \<or> only_in (unat ?sp) (unat ?sp + ?n) s1 s2 pt \<and> holds (mem s2) pt ?sp (concat (map le64 (ps @ [0])))"
      using copyout_stack [OF a(2), of ?sp "concat (map le64 (ps @ [0]))"] sp(2) small t by (auto simp: add.commute)
    note ex = exec_stack_unfold [OF a(1) [unfolded ps(1) base_def]] assms(4)
    have "only_in (unat ?sp) (unat stop) s s2 pt" "list_all2 (arg_at (mem s2) pt (unat ?sp) (unat stop)) ps argv" if "\<not> r2 < 0"
    proof -
      have o: "only_in (unat ?sp) (unat ?sp + ?n) s1 s2 pt" using c(2) that by simp
      show "only_in (unat ?sp) (unat stop) s s2 pt" by (rule only_in_trans [OF ps(4) o]) (use sp(2) ps(3) in auto)
      show "list_all2 (arg_at (mem s2) pt (unat ?sp) (unat stop)) ps argv" by (rule args_kept [OF ps(5) o]) (use sp(2) t in auto)
    qed
    moreover have "unat stop - 4096 \<le> unat ?sp" if "\<not> ?sp < stop - PGSIZE"
      using that base(1) by (simp add: base_def word_le_nat_alt not_less)
    ultimately show ?thesis using c sp(1) argc ex by auto
  qed
qed


text \<open>A copy to mapped addresses succeeds and keeps the mapping.\<close>

lemma copyout_mapped:
  assumes "uspace_inv s pt xs" "length bs < 2 ^ 64" "None \<notin> set (ubytes (mem s) pt va (length bs))"
  shows "\<exists>s'. copyout s pt va bs = Inr (0, s') \<and> uspace_inv s' pt xs \<and> upa (mem s') pt = upa (mem s) pt"
  using copyout_spec [OF assms(1,2), of va] assms(3) by auto

theorem exec_stack_correct_witness:
  "\<exists>s' ps. exec_stack [[97]] sample_pt 0x2000 sample_user = Inr (Some (0x1FE0, 1), s') \<and>
     holds (mem s') sample_pt 0x1FE0 (concat (map le64 (ps @ [0]))) \<and> list_all2 (arg_at (mem s') sample_pt 0x1FE0 0x2000) ps [[97]]"
proof -
  obtain xs where inv: "uspace_inv sample_user sample_pt xs" using sample_user_alloc(1) by blast
  have mapped: "None \<notin> set (ubytes (mem sample_user) sample_pt 0x1FF0 (length [97, 0 :: byte]))" "None \<notin> set (ubytes (mem sample_user) sample_pt 0x1FE0 16)"
    by (auto simp: ubytes_def sample_user_alloc(2) in_range_def unat_word_ariths unat_of_nat64)
  obtain s1 where s1: "copyout sample_user sample_pt 0x1FF0 [97, 0] = Inr (0, s1)" "uspace_inv s1 sample_pt xs" "upa (mem s1) sample_pt = upa (mem sample_user) sample_pt"
    using copyout_mapped [OF inv _ mapped(1)] by auto
  obtain s2 where s2: "copyout s1 sample_pt 0x1FE0 (concat (map le64 ([0x1FF0] @ [0]))) = Inr (0, s2)"
    using copyout_mapped [OF s1(2), of "concat (map le64 ([0x1FF0] @ [0]))" "0x1FE0"] mapped(2) ubytes_None_cong [OF s1(3)] by auto
  have "exec_args [[97]] sample_pt (0x2000 - PGSIZE) 0x2000 [] sample_user = Inr (Some (0x1FF0, [0x1FF0]), s1)"
    using s1(1) by (simp add: MAXARG_def PGSIZE_def)
  from exec_stack_unfold [OF this] have ex: "exec_stack [[97]] sample_pt 0x2000 sample_user = Inr (Some (0x1FE0, 1), s2)"
    using s2 by (simp add: MAXARG_def array_sp_def PGSIZE_def)
  show ?thesis using exec_stack_correct [OF inv, of "0x2000" "[[97]]"] ex by (auto simp: MAXARG_def)
qed

end
