(* ===== verification/Xv6_Sh.thy ===== *)
theory Xv6_Sh
  imports Xv6_File
begin

text \<open>
  The shell, user/sh.c: its tokeniser and recursive-descent parser, the termination of the words inside
  the line buffer, and what runcmd does with the tree. The buffer is a list of bytes and a pointer into
  it an index; a read or write outside the buffer is the error Sh_fault. The structures the constructors
  allocate are values of a datatype: memory for them is taken as available. A process is the tree of
  the system calls it makes, branching on what they return.
\<close>

section \<open>Commands\<close>

datatype 's cmd =
    EXEC "'s list"
  | REDIR "'s cmd" 's u32 nat
  | PIPE "'s cmd" "'s cmd"
  | LIST "'s cmd" "'s cmd"
  | BACK "'s cmd"

definition MAXARGS :: nat where "MAXARGS = 10"

datatype sherr = Sh_panic string | Sh_fault | Sh_fuel

type_synonym 'a sh = "sherr + 'a"

text \<open>A word of the line: where it begins and where it ends.\<close>

type_synonym tok = "nat \<times> nat"

section \<open>Tokens\<close>

definition whitespace :: "byte list" where "whitespace = [32, 9, 13, 10, 11, 0]"

definition symbols :: "byte list" where "symbols = [60, 124, 62, 38, 59, 40, 41, 0]"

definition at :: "byte list \<Rightarrow> nat \<Rightarrow> byte sh" where
  "at b i = (if i < length b then Inr (b ! i) else Inl Sh_fault)"

definition occurs :: "byte list \<Rightarrow> byte \<Rightarrow> bool" where
  "occurs cs c = (strchr cs c \<noteq> None)"

text \<open>The loops while(s < es \<and> P *s) s++.\<close>

function scan :: "(byte \<Rightarrow> bool) \<Rightarrow> byte list \<Rightarrow> nat \<Rightarrow> nat \<Rightarrow> nat sh" where
  "scan P b es s =
     (if s < es then kbind (at b s) (\<lambda>c. if P c then scan P b es (Suc s) else Inr s) else Inr s)"
  by pat_completeness auto
termination
  by (relation "measure (\<lambda>(P, b, es, s). es - s)") auto

declare scan.simps [simp del]

definition blank :: "byte \<Rightarrow> bool" where
  "blank c = occurs whitespace c"

definition wordc :: "byte \<Rightarrow> bool" where
  "wordc c = (\<not> occurs whitespace c \<and> \<not> occurs symbols c)"

text \<open>gettoken returns the kind of the token, q, eq and the new position.\<close>

definition gettoken :: "byte list \<Rightarrow> nat \<Rightarrow> nat \<Rightarrow> (byte \<times> nat \<times> nat \<times> nat) sh" where
  "gettoken b es s =
     kbind (scan blank b es s) (\<lambda>q.
     kbind (at b q) (\<lambda>c.
     kbind (if c = 0 then Inr (c, q)
            else if c = 124 \<or> c = 40 \<or> c = 41 \<or> c = 59 \<or> c = 38 \<or> c = 60 then Inr (c, Suc q)
            else if c = 62 then kbind (at b (Suc q)) (\<lambda>d. if d = 62 then Inr (43, Suc (Suc q)) else Inr (c, Suc q))
            else kbind (scan wordc b es q) (\<lambda>e. Inr (97, e))) (\<lambda>(ret, eq).
     kbind (scan blank b es eq) (\<lambda>s. Inr (ret, q, eq, s)))))"

definition peek :: "byte list \<Rightarrow> nat \<Rightarrow> nat \<Rightarrow> byte list \<Rightarrow> (bool \<times> nat) sh" where
  "peek b es s toks =
     kbind (scan blank b es s) (\<lambda>s. kbind (at b s) (\<lambda>c. Inr (c \<noteq> 0 \<and> occurs toks c, s)))"

section \<open>Parser\<close>

text \<open>
  The loops and the mutual recursion of the parser take fuel, one unit for each call or turn; a line of
  n bytes needs at most 4 n + 4.
\<close>

definition redirect :: "tok cmd \<Rightarrow> byte \<Rightarrow> tok \<Rightarrow> tok cmd" where
  "redirect c kind f =
     (if kind = 60 then REDIR c f O_RDONLY 0
      else if kind = 62 then REDIR c f (O_WRONLY OR O_CREATE OR O_TRUNC) 1
      else if kind = 43 then REDIR c f (O_WRONLY OR O_CREATE) 1
      else c)"

fun parseredirs :: "nat \<Rightarrow> byte list \<Rightarrow> nat \<Rightarrow> nat \<Rightarrow> tok cmd \<Rightarrow> (tok cmd \<times> nat) sh" where
  "parseredirs 0 b es s c = Inl Sh_fuel"
| "parseredirs (Suc n) b es s c =
     kbind (peek b es s [60, 62, 0]) (\<lambda>(y, s).
     if \<not> y then Inr (c, s)
     else kbind (gettoken b es s) (\<lambda>(kind, _, _, s).
          kbind (gettoken b es s) (\<lambda>(t, q, eq, s).
          if t \<noteq> 97 then Inl (Sh_panic ''missing file for redirection'')
          else parseredirs n b es s (redirect c kind (q, eq)))))"

text \<open>parseexec fills argv of the structure at the bottom of the redirections it has built.\<close>

primrec add_arg :: "'s \<Rightarrow> 's cmd \<Rightarrow> 's cmd" where
  "add_arg w (EXEC ws) = EXEC (ws @ [w])"
| "add_arg w (REDIR c f m d) = REDIR (add_arg w c) f m d"
| "add_arg w (PIPE l r) = PIPE l r"
| "add_arg w (LIST l r) = LIST l r"
| "add_arg w (BACK c) = BACK c"

fun parseargs :: "nat \<Rightarrow> byte list \<Rightarrow> nat \<Rightarrow> nat \<Rightarrow> nat \<Rightarrow> tok cmd \<Rightarrow> (tok cmd \<times> nat) sh" where
  "parseargs 0 b es s argc ret = Inl Sh_fuel"
| "parseargs (Suc n) b es s argc ret =
     kbind (peek b es s [124, 41, 38, 59, 0]) (\<lambda>(y, s).
     if y then Inr (ret, s)
     else kbind (gettoken b es s) (\<lambda>(t, q, eq, s).
          if t = 0 then Inr (ret, s)
          else if t \<noteq> 97 then Inl (Sh_panic ''syntax'')
          else if argc + 1 \<ge> MAXARGS then Inl (Sh_panic ''too many args'')
          else kbind (parseredirs n b es s (add_arg (q, eq) ret)) (\<lambda>(ret, s).
               parseargs n b es s (argc + 1) ret)))"

text \<open>The loop of parseline for the ampersands.\<close>

fun parseback :: "nat \<Rightarrow> byte list \<Rightarrow> nat \<Rightarrow> nat \<Rightarrow> tok cmd \<Rightarrow> (tok cmd \<times> nat) sh" where
  "parseback 0 b es s c = Inl Sh_fuel"
| "parseback (Suc n) b es s c =
     kbind (peek b es s [38, 0]) (\<lambda>(y, s).
     if y then kbind (gettoken b es s) (\<lambda>(_, _, _, s). parseback n b es s (BACK c)) else Inr (c, s))"

function (sequential) parseline :: "nat \<Rightarrow> byte list \<Rightarrow> nat \<Rightarrow> nat \<Rightarrow> (tok cmd \<times> nat) sh"
  and parsepipe :: "nat \<Rightarrow> byte list \<Rightarrow> nat \<Rightarrow> nat \<Rightarrow> (tok cmd \<times> nat) sh"
  and parseexec :: "nat \<Rightarrow> byte list \<Rightarrow> nat \<Rightarrow> nat \<Rightarrow> (tok cmd \<times> nat) sh"
  and parseblock :: "nat \<Rightarrow> byte list \<Rightarrow> nat \<Rightarrow> nat \<Rightarrow> (tok cmd \<times> nat) sh" where
  "parseline 0 b es s = Inl Sh_fuel"
| "parseline (Suc n) b es s =
     kbind (parsepipe n b es s) (\<lambda>(c, s).
     kbind (parseback n b es s c) (\<lambda>(c, s).
     kbind (peek b es s [59, 0]) (\<lambda>(y, s).
     if y then kbind (gettoken b es s) (\<lambda>(_, _, _, s).
               kbind (parseline n b es s) (\<lambda>(r, s). Inr (LIST c r, s)))
     else Inr (c, s))))"
| "parsepipe 0 b es s = Inl Sh_fuel"
| "parsepipe (Suc n) b es s =
     kbind (parseexec n b es s) (\<lambda>(c, s).
     kbind (peek b es s [124, 0]) (\<lambda>(y, s).
     if y then kbind (gettoken b es s) (\<lambda>(_, _, _, s).
               kbind (parsepipe n b es s) (\<lambda>(r, s). Inr (PIPE c r, s)))
     else Inr (c, s)))"
| "parseexec 0 b es s = Inl Sh_fuel"
| "parseexec (Suc n) b es s =
     kbind (peek b es s [40, 0]) (\<lambda>(y, s).
     if y then parseblock n b es s
     else kbind (parseredirs n b es s (EXEC [])) (\<lambda>(ret, s). parseargs n b es s 0 ret))"
| "parseblock 0 b es s = Inl Sh_fuel"
| "parseblock (Suc n) b es s =
     kbind (peek b es s [40, 0]) (\<lambda>(y, s).
     if \<not> y then Inl (Sh_panic ''parseblock'')
     else kbind (gettoken b es s) (\<lambda>(_, _, _, s).
          kbind (parseline n b es s) (\<lambda>(c, s).
          kbind (peek b es s [41, 0]) (\<lambda>(y, s).
          if \<not> y then Inl (Sh_panic ''syntax - missing )'')
          else kbind (gettoken b es s) (\<lambda>(_, _, _, s). parseredirs n b es s c)))))"
  by pat_completeness auto
termination
  by (relation "measure (\<lambda>x. case x of Inl (Inl (n, _)) \<Rightarrow> n | Inl (Inr (n, _)) \<Rightarrow> n | Inr (Inl (n, _)) \<Rightarrow> n | Inr (Inr (n, _)) \<Rightarrow> n)") auto

definition store_nul :: "nat \<Rightarrow> byte list \<Rightarrow> byte list sh" where
  "store_nul i b = (if i < length b then Inr (b[i := 0]) else Inl Sh_fault)"

primrec nulterminate :: "tok cmd \<Rightarrow> byte list \<Rightarrow> byte list sh" where
  "nulterminate (EXEC ws) b = kfold (\<lambda>w. store_nul (snd w)) ws b"
| "nulterminate (REDIR c f m d) b = kbind (nulterminate c b) (store_nul (snd f))"
| "nulterminate (PIPE l r) b = kbind (nulterminate l b) (nulterminate r)"
| "nulterminate (LIST l r) b = kbind (nulterminate l b) (nulterminate r)"
| "nulterminate (BACK c) b = nulterminate c b"

text \<open>
  parsecmd returns the tree and the buffer, in which the words are terminated. The message about
  leftovers that precedes its panic is left out.
\<close>

definition parsecmd :: "byte list \<Rightarrow> (tok cmd \<times> byte list) sh" where
  "parsecmd b =
     (case strlen b of
        None \<Rightarrow> Inl Sh_fault
      | Some es \<Rightarrow>
          kbind (parseline (4 * es + 4) b es 0) (\<lambda>(c, s).
          kbind (peek b es s [0]) (\<lambda>(_, s).
          if s \<noteq> es then Inl (Sh_panic ''syntax'')
          else kbind (nulterminate c b) (\<lambda>b. Inr (c, b)))))"

section \<open>Execution\<close>

text \<open>
  A process by its system calls: what a call returns decides how it goes on; fork returns 0 to the child
  and the pid to the parent, pipe the two descriptors if its result is 0. Fprintf is a message on
  descriptor 2: its format without the newline, and the strings for it. Crash stands for the error Sh_fault.
\<close>

datatype sys =
    Exit int
  | Exec "byte list" "byte list list" sys
  | Open "byte list" u32 "int \<Rightarrow> sys"
  | Close nat sys
  | Dup nat "int \<Rightarrow> sys"
  | MkPipe "int \<Rightarrow> nat \<Rightarrow> nat \<Rightarrow> sys"
  | Fork "int \<Rightarrow> sys"
  | Wait sys
  | Chdir "byte list" "int \<Rightarrow> sys"
  | Fprintf string "byte list list" sys
  | Crash

definition sh_panic :: "string \<Rightarrow> sys" where
  "sh_panic msg = Fprintf msg [] (Exit 1)"

text \<open>fork1 followed by what child and parent do.\<close>

definition fork1 :: "sys \<Rightarrow> sys \<Rightarrow> sys" where
  "fork1 child parent =
     Fork (\<lambda>pid. if pid = -1 then sh_panic ''fork'' else if pid = 0 then child else parent)"

text \<open>A word is the C string at its first byte.\<close>

definition word_at :: "byte list \<Rightarrow> tok \<Rightarrow> byte list" where
  "word_at b w = cstr (drop (fst w) b)"

primrec runcmd :: "byte list \<Rightarrow> tok cmd \<Rightarrow> sys" where
  "runcmd b (EXEC ws) =
     (if ws = [] then Exit 1
      else Exec (word_at b (hd ws)) (map (word_at b) ws) (Fprintf ''exec %s failed'' [word_at b (hd ws)] (Exit 0)))"
| "runcmd b (REDIR c f m d) =
     Close d (Open (word_at b f) m (\<lambda>r. if r < 0 then Fprintf ''open %s failed'' [word_at b f] (Exit 1) else runcmd b c))"
| "runcmd b (LIST l r) = fork1 (runcmd b l) (Wait (runcmd b r))"
| "runcmd b (PIPE l r) =
     MkPipe (\<lambda>res p0 p1.
       if res < 0 then sh_panic ''pipe''
       else fork1 (Close 1 (Dup p1 (\<lambda>_. Close p0 (Close p1 (runcmd b l)))))
            (fork1 (Close 0 (Dup p0 (\<lambda>_. Close p0 (Close p1 (runcmd b r)))))
             (Close p0 (Close p1 (Wait (Wait (Exit 0)))))))"
| "runcmd b (BACK c) = fork1 (runcmd b c) (Exit 0)"

section \<open>The command loop\<close>

text \<open>gets reads from the bytes that read(0) will deliver, one at a time; it leaves the rest.\<close>

fun gets_loop :: "nat \<Rightarrow> byte list \<Rightarrow> byte list \<times> byte list" where
  "gets_loop (Suc n) (c # inp) =
     (if c = 10 \<or> c = 13 then ([c], inp) else case gets_loop n inp of (cs, inp) \<Rightarrow> (c # cs, inp))"
| "gets_loop n inp = ([], inp)"

definition getcmd :: "nat \<Rightarrow> byte list \<Rightarrow> int \<times> byte list \<times> byte list" where
  "getcmd nbuf inp =
     (case gets_loop (nbuf - 1) inp of (cs, inp) \<Rightarrow>
        let buf = cs @ replicate (nbuf - length cs) 0 in (if buf ! 0 = 0 then -1 else 0, buf, inp))"

text \<open>What the child does with a line.\<close>

definition sh_child :: "byte list \<Rightarrow> sys" where
  "sh_child buf =
     (case parsecmd buf of
        Inr (c, buf) \<Rightarrow> runcmd buf c
      | Inl (Sh_panic msg) \<Rightarrow> sh_panic msg
      | Inl _ \<Rightarrow> Crash)"

lemma gets_loop_shorter: "gets_loop n inp = (cs, rest) \<Longrightarrow> length rest \<le> length inp \<and> (cs \<noteq> [] \<longrightarrow> length rest < length inp)"
  by (induction n inp arbitrary: cs rest rule: gets_loop.induct) (fastforce split: if_splits prod.splits)+

lemma getcmd_shorter: "getcmd 100 inp = (r, buf, rest) \<Longrightarrow> r \<ge> 0 \<Longrightarrow> length rest < length inp"
  by (auto simp: getcmd_def Let_def split: prod.splits if_splits dest: gets_loop_shorter) (use gets_loop_shorter in fastforce)?

function sh_loop :: "byte list \<Rightarrow> sys" where
  "sh_loop inp =
     (case getcmd 100 inp of (r, buf, rest) \<Rightarrow>
        if r \<ge> 0 then
          if buf ! 0 = 99 \<and> buf ! 1 = 100 \<and> buf ! 2 = 32 then
            let buf = buf[length (cstr buf) - 1 := 0] in
            Chdir (cstr (drop 3 buf)) (\<lambda>r. if r < 0 then Fprintf ''cannot cd %s'' [cstr (drop 3 buf)] (sh_loop rest) else sh_loop rest)
          else fork1 (sh_child buf) (Wait (sh_loop rest))
        else Exit 0)"
  by pat_completeness auto
termination
  by (relation "measure length") (auto dest: getcmd_shorter [OF sym])

declare sh_loop.simps [simp del]

end
