(* ===== verification/Xv6_Shell.thy ===== *)
theory Xv6_Shell
  imports Xv6_Sh
begin

text \<open>
  Correctness of the shell: the parser returns on every line, reads back what can be written, and leaves
  its words terminated in place; and the programs a line starts get the descriptors that its redirections
  and pipes say.
\<close>

section \<open>Results of the parser\<close>

text \<open>Either a message of panic, or a value with a property; no fault, and enough fuel.\<close>

definition ok :: "('a \<Rightarrow> bool) \<Rightarrow> 'a sh \<Rightarrow> bool" where
  "ok P r = (case r of Inl (Sh_panic m) \<Rightarrow> True | Inl _ \<Rightarrow> False | Inr x \<Rightarrow> P x)"

lemma ok_simps [simp]:
  "ok P (Inr x) = P x" "ok P (Inl (Sh_panic m))" "\<not> ok P (Inl Sh_fault)" "\<not> ok P (Inl Sh_fuel)"
  by (simp_all add: ok_def)

lemma ok_kbind: "ok Q r \<Longrightarrow> (\<And>x. Q x \<Longrightarrow> ok P (f x)) \<Longrightarrow> ok P (kbind r f)"
  by (cases r) (simp_all add: ok_def split: sherr.splits)

lemma ok_mono: "ok Q r \<Longrightarrow> (\<And>x. Q x \<Longrightarrow> P x) \<Longrightarrow> ok P r"
  by (auto simp: ok_def split: sum.splits sherr.splits)

section \<open>Tokens\<close>

definition line_buf :: "byte list \<Rightarrow> nat \<Rightarrow> bool" where
  "line_buf b es = (es < length b \<and> b ! es = 0 \<and> (\<forall>i < es. b ! i \<noteq> 0))"

definition isword :: "byte list \<Rightarrow> nat \<Rightarrow> tok \<Rightarrow> bool" where
  "isword b es w =
     (fst w < snd w \<and> snd w \<le> es \<and> (\<forall>i. fst w \<le> i \<and> i < snd w \<longrightarrow> wordc (b ! i) \<and> b ! i \<noteq> 0) \<and>
      (snd w = es \<or> \<not> wordc (b ! snd w)))"

lemma blank_0 [simp]: "\<not> blank 0"
  by (simp add: blank_def occurs_def whitespace_def)

lemma scan_spec:
  assumes "es < length b" "s \<le> es"
  shows "\<exists>s'. scan P b es s = Inr s' \<and> s \<le> s' \<and> s' \<le> es \<and> (\<forall>i. s \<le> i \<and> i < s' \<longrightarrow> P (b ! i)) \<and>
    (s' = es \<or> \<not> P (b ! s'))"
  using assms
proof (induction P b es s rule: scan.induct)
  case (1 P b es s)
  show ?case
  proof (cases "s < es \<and> P (b ! s)")
    case True
    then obtain s' where s': "scan P b es (Suc s) = Inr s'" "Suc s \<le> s'" "s' \<le> es"
        "\<forall>i. Suc s \<le> i \<and> i < s' \<longrightarrow> P (b ! i)" "s' = es \<or> \<not> P (b ! s')"
      using 1 by (auto simp: at_def)
    have "P (b ! i)" if "s \<le> i" "i < s'" for i
      using that True s'(4) by (cases "i = s") auto
    then show ?thesis using True 1(2) s' by (auto simp: scan.simps [of P b es s] at_def)
  next
    case False
    then show ?thesis using 1(2,3) by (auto simp: scan.simps [of P b es s] at_def)
  qed
qed

lemma scan_ok:
  assumes "es < length b" "s \<le> es"
  shows "ok (\<lambda>s'. s \<le> s' \<and> s' \<le> es \<and> (\<forall>i. s \<le> i \<and> i < s' \<longrightarrow> P (b ! i)) \<and> (s' = es \<or> \<not> P (b ! s'))) (scan P b es s)"
  using scan_spec [OF assms, of P] by auto

lemma special_cases:
  assumes "c \<noteq> 0" "\<not> blank c" "\<not> (c = 124 \<or> c = 40 \<or> c = 41 \<or> c = 59 \<or> c = 38 \<or> c = 60)" "c \<noteq> 62"
  shows "wordc c"
  using assms by (simp add: wordc_def blank_def occurs_def symbols_def)

lemma gettoken_ok:
  assumes lb: "line_buf b es" and s: "s \<le> es"
  shows "ok (\<lambda>(t, q, e, s'). s \<le> q \<and> q \<le> e \<and> e \<le> s' \<and> s' \<le> es \<and> (t \<noteq> 0 \<longrightarrow> q < e) \<and>
      (t = 97 \<longrightarrow> isword b es (q, e)) \<and> (s < es \<and> \<not> blank (b ! s) \<longrightarrow> t \<noteq> 0)) (gettoken b es s)"
proof -
  have L: "es < length b" "b ! es = 0" "\<And>i. i < es \<Longrightarrow> b ! i \<noteq> 0" using lb by (auto simp: line_buf_def)
  obtain q where q: "scan blank b es s = Inr q" "s \<le> q" "q \<le> es" "\<forall>i. s \<le> i \<and> i < q \<longrightarrow> blank (b ! i)"
      "q = es \<or> \<not> blank (b ! q)" using scan_spec [OF L(1) s, of blank] by auto
  define c where "c = b ! q"
  have c: "at b q = Inr c" using q(3) L(1) by (simp add: at_def c_def)
  have cz: "c = 0 \<longleftrightarrow> q = es" using L q(3) by (auto simp: c_def) (use L(3) le_neq_implies_less in blast)
  let ?Q = "\<lambda>(t, e). q \<le> e \<and> e \<le> es \<and> (t \<noteq> 0 \<longrightarrow> q < e) \<and> (t = 97 \<longrightarrow> isword b es (q, e)) \<and> (t = 0 \<longrightarrow> q = es)"
  let ?m = "if c = 0 then Inr (c, q)
            else if c = 124 \<or> c = 40 \<or> c = 41 \<or> c = 59 \<or> c = 38 \<or> c = 60 then Inr (c, Suc q)
            else if c = 62 then kbind (at b (Suc q)) (\<lambda>d. if d = 62 then Inr (43, Suc (Suc q)) else Inr (c, Suc q))
            else kbind (scan wordc b es q) (\<lambda>e. Inr (97, e))"
  have m: "ok ?Q ?m"
  proof (cases "c = 0 \<or> c = 124 \<or> c = 40 \<or> c = 41 \<or> c = 59 \<or> c = 38 \<or> c = 60")
    case True
    then show ?thesis using q(3) cz by auto
  next
    case F: False
    then have qe: "q < es" using cz q(3) by auto
    show ?thesis
    proof (cases "c = 62")
      case True
      have "b ! Suc q = 62 \<Longrightarrow> Suc q < es" using L(2) qe by (cases "Suc q = es") auto
      then show ?thesis using F True qe L(1) by (auto simp: at_def)
    next
      case False
      then have w: "wordc c" using F q(5) cz by (intro special_cases) (auto simp: c_def)
      obtain e where e: "scan wordc b es q = Inr e" "q \<le> e" "e \<le> es" "\<forall>i. q \<le> i \<and> i < e \<longrightarrow> wordc (b ! i)"
          "e = es \<or> \<not> wordc (b ! e)" using scan_spec [OF L(1) q(3), of wordc] by auto
      have "q < e" using e w qe by (cases "q = e") (auto simp: c_def)
      then show ?thesis using F False e L(3) by (auto simp: isword_def)
    qed
  qed
  have nb: "t \<noteq> 0" if "s < es" "\<not> blank (b ! s)" "t = 0 \<longrightarrow> q = es" for t :: byte
    using that q(2,4) by auto
  have "ok (\<lambda>(t, q', e, s'). q' = q \<and> e \<le> s' \<and> s' \<le> es \<and> ?Q (t, e)) (gettoken b es s)"
    unfolding gettoken_def q(1) c kbind_Inr
  proof (rule ok_kbind [OF m])
    fix x
    assume Q: "?Q x"
    obtain t e where x: "x = (t, e)" by (cases x)
    obtain s' where "scan blank b es e = Inr s'" "e \<le> s'" "s' \<le> es" using scan_spec [OF L(1), of e blank] Q x by auto
    then show "ok (\<lambda>(t, q', e, s'). q' = q \<and> e \<le> s' \<and> s' \<le> es \<and> ?Q (t, e))
        (case x of (ret, eq) \<Rightarrow> kbind (scan blank b es eq) (\<lambda>s. Inr (ret, q, eq, s)))"
      using Q x by simp
  qed
  then show ?thesis using q(2) nb by (auto elim!: ok_mono)
qed

lemma peek_ok:
  assumes "line_buf b es" "s \<le> es"
  shows "ok (\<lambda>(y, s'). s \<le> s' \<and> s' \<le> es \<and> (y \<longrightarrow> s' < es \<and> \<not> blank (b ! s'))) (peek b es s toks)"
proof -
  obtain q where q: "scan blank b es s = Inr q" "s \<le> q" "q \<le> es" "q = es \<or> \<not> blank (b ! q)"
    using scan_spec [of es b s blank] assms by (auto simp: line_buf_def)
  moreover have "q < es" if "b ! q \<noteq> 0" using that q(3) assms(1) by (cases "q = es") (auto simp: line_buf_def)
  ultimately show ?thesis using assms by (auto simp: peek_def at_def line_buf_def)
qed

lemma peek_rule:
  assumes "line_buf b es" "s \<le> es"
    "\<And>y s'. s \<le> s' \<Longrightarrow> s' \<le> es \<Longrightarrow> y \<longrightarrow> s' < es \<and> \<not> blank (b ! s') \<Longrightarrow> ok P (f y s')"
  shows "ok P (kbind (peek b es s toks) (\<lambda>(y, s'). f y s'))"
  by (rule ok_kbind [OF peek_ok [OF assms(1,2)]]) (auto intro: assms(3))

lemma gettoken_rule:
  assumes "line_buf b es" "s \<le> es"
    "\<And>t q e s'. s \<le> s' \<Longrightarrow> s' \<le> es \<Longrightarrow> t \<noteq> 0 \<longrightarrow> s < s' \<Longrightarrow> t = 97 \<longrightarrow> isword b es (q, e) \<Longrightarrow>
       s < es \<and> \<not> blank (b ! s) \<longrightarrow> s < s' \<Longrightarrow> ok P (f t q e s')"
  shows "ok P (kbind (gettoken b es s) (\<lambda>(t, q, e, s'). f t q e s'))"
  by (rule ok_kbind [OF gettoken_ok [OF assms(1,2)]]) (auto intro!: assms(3))

lemma ok_if: "(c \<Longrightarrow> ok P x) \<Longrightarrow> (\<not> c \<Longrightarrow> ok P y) \<Longrightarrow> ok P (if c then x else y)"
  by simp

lemma ok_pair: "ok Q r \<Longrightarrow> (\<And>x y. Q (x, y) \<Longrightarrow> ok P (f x y)) \<Longrightarrow> ok P (kbind r (\<lambda>(x, y). f x y))"
  by (erule ok_kbind) auto

section \<open>The parser returns\<close>

primrec shaped :: "'s cmd \<Rightarrow> bool" where
  "shaped (EXEC ws) = (length ws < MAXARGS)"
| "shaped (REDIR c f m d) =
     (shaped c \<and> (m, d) \<in> {(O_RDONLY, 0), (O_WRONLY OR O_CREATE OR O_TRUNC, 1), (O_WRONLY OR O_CREATE, 1)})"
| "shaped (PIPE l r) = (shaped l \<and> shaped r)"
| "shaped (LIST l r) = (shaped l \<and> shaped r)"
| "shaped (BACK c) = shaped c"

text \<open>Redirections around one program with argc words.\<close>

primrec simple :: "nat \<Rightarrow> 's cmd \<Rightarrow> bool" where
  "simple argc (EXEC ws) = (length ws = argc)"
| "simple argc (REDIR c f m d) = simple argc c"
| "simple argc (PIPE l r) = False"
| "simple argc (LIST l r) = False"
| "simple argc (BACK c) = False"

definition parsed :: "byte list \<Rightarrow> nat \<Rightarrow> nat \<Rightarrow> tok cmd \<times> nat \<Rightarrow> bool" where
  "parsed b es s r = (s \<le> snd r \<and> snd r \<le> es \<and> shaped (fst r) \<and> (\<forall>w \<in> set_cmd (fst r). isword b es w))"

lemma add_arg_facts:
  "simple argc c \<Longrightarrow> simple (Suc argc) (add_arg w c)"
  "simple argc c \<Longrightarrow> shaped c \<Longrightarrow> Suc argc < MAXARGS \<Longrightarrow> shaped (add_arg w c)"
  "x \<in> set_cmd (add_arg w c) \<Longrightarrow> x = w \<or> x \<in> set_cmd c"
  by (induction c) auto

lemma redirect_facts:
  "simple argc c \<Longrightarrow> simple argc (redirect c k w)"
  "shaped c \<Longrightarrow> shaped (redirect c k w)"
  "x \<in> set_cmd (redirect c k w) \<Longrightarrow> x = w \<or> x \<in> set_cmd c"
  by (auto simp: redirect_def split: if_splits)

lemma parseredirs_ok:
  assumes lb: "line_buf b es" and "s \<le> es" "es - s < n" "shaped c" "\<forall>w \<in> set_cmd c. isword b es w"
  shows "ok (\<lambda>r. parsed b es s r \<and> (\<forall>argc. simple argc c \<longrightarrow> simple argc (fst r))) (parseredirs n b es s c)"
  using assms(2-)
proof (induction n arbitrary: s c)
  case (Suc n)
  have step: "ok (\<lambda>r. parsed b es s r \<and> (\<forall>argc. simple argc c \<longrightarrow> simple argc (fst r))) (parseredirs n b es s3 (redirect c kind (q, e)))"
    if "s < s3" "s3 \<le> es" "isword b es (q, e)" for s3 kind q e
  proof (rule ok_mono)
    show "ok (\<lambda>r. parsed b es s3 r \<and> (\<forall>argc. simple argc (redirect c kind (q, e)) \<longrightarrow> simple argc (fst r)))
        (parseredirs n b es s3 (redirect c kind (q, e)))"
      using that Suc.prems by (intro Suc.IH) (auto simp: redirect_facts dest!: redirect_facts(3))
  qed (use that in \<open>auto simp: parsed_def redirect_facts\<close>)
  show ?case unfolding parseredirs.simps
    by (intro peek_rule [OF lb] gettoken_rule [OF lb] ok_if step)
      (use Suc.prems in \<open>auto simp: parsed_def\<close>)
qed simp

lemma parseargs_ok:
  assumes lb: "line_buf b es" and "s \<le> es" "es - s < n" "shaped c" "simple argc c" "\<forall>w \<in> set_cmd c. isword b es w"
  shows "ok (parsed b es s) (parseargs n b es s argc c)"
  using assms(2-)
proof (induction n arbitrary: s c argc)
  case (Suc n)
  have step: "ok (parsed b es s) (kbind (parseredirs n b es s3 (add_arg (q, e) c)) (\<lambda>(ret, s). parseargs n b es s (argc + 1) ret))"
    if "s < s3" "s3 \<le> es" "isword b es (q, e)" "\<not> argc + 1 \<ge> MAXARGS" for s3 q e
  proof (rule ok_pair)
    show "ok (\<lambda>r. parsed b es s3 r \<and> (\<forall>argc. simple argc (add_arg (q, e) c) \<longrightarrow> simple argc (fst r)))
        (parseredirs n b es s3 (add_arg (q, e) c))"
      using that Suc.prems by (intro parseredirs_ok [OF lb]) (auto simp: add_arg_facts dest!: add_arg_facts(3))
  next
    fix x y
    assume A: "parsed b es s3 (x, y) \<and> (\<forall>argc. simple argc (add_arg (q, e) c) \<longrightarrow> simple argc (fst (x, y)))"
    then have "ok (parsed b es y) (parseargs n b es y (argc + 1) x)"
      using that Suc.prems by (intro Suc.IH) (auto simp: parsed_def add_arg_facts)
    then show "ok (parsed b es s) (parseargs n b es y (argc + 1) x)"
      using that A by (elim ok_mono) (auto simp: parsed_def)
  qed
  show ?case unfolding parseargs.simps
    by (intro peek_rule [OF lb] gettoken_rule [OF lb] ok_if step)
      (use Suc.prems in \<open>auto simp: parsed_def\<close>)
qed simp

lemma parseback_ok:
  assumes lb: "line_buf b es" and "s \<le> es" "es - s < n" "shaped c" "\<forall>w \<in> set_cmd c. isword b es w"
  shows "ok (parsed b es s) (parseback n b es s c)"
  using assms(2-)
proof (induction n arbitrary: s c)
  case (Suc n)
  have step: "ok (parsed b es s) (parseback n b es s3 (BACK c))" if "s < s3" "s3 \<le> es" for s3
    by (rule ok_mono [OF Suc.IH]) (use that Suc.prems in \<open>auto simp: parsed_def\<close>)
  show ?case unfolding parseback.simps
    by (intro peek_rule [OF lb] gettoken_rule [OF lb] ok_if step)
      (use Suc.prems in \<open>auto simp: parsed_def\<close>)
qed simp

text \<open>
  The fuel each function needs, when d bytes of the line are left. Every call in a cycle of the mutual
  recursion is preceded by a token.
\<close>

lemma ok_widen: "ok (parsed b es s1) r \<Longrightarrow> s \<le> s1 \<Longrightarrow> ok (parsed b es s) r"
  by (elim ok_mono) (auto simp: parsed_def)

lemma parse_ok:
  assumes lb: "line_buf b es"
  shows "s \<le> es \<Longrightarrow>
    (4 * (es - s) + 4 \<le> n \<longrightarrow> ok (parsed b es s) (parseline n b es s)) \<and>
    (4 * (es - s) + 3 \<le> n \<longrightarrow> ok (parsed b es s) (parsepipe n b es s)) \<and>
    (4 * (es - s) + 2 \<le> n \<longrightarrow> ok (parsed b es s) (parseexec n b es s)) \<and>
    (4 * (es - s) + 1 \<le> n \<longrightarrow> ok (parsed b es s) (parseblock n b es s))"
proof (induction n arbitrary: s)
  case (Suc n)
  have line: "ok (parsed b es s1) (parseline n b es s1)" if "s1 \<le> es" "4 * (es - s1) + 4 \<le> n" for s1
    using Suc.IH that by blast
  have pipe: "ok (parsed b es s1) (parsepipe n b es s1)" if "s1 \<le> es" "4 * (es - s1) + 3 \<le> n" for s1
    using Suc.IH that by blast
  have exec: "ok (parsed b es s1) (parseexec n b es s1)" if "s1 \<le> es" "4 * (es - s1) + 2 \<le> n" for s1
    using Suc.IH that by blast
  have block: "ok (parsed b es s1) (parseblock n b es s1)" if "s1 \<le> es" "4 * (es - s1) + 1 \<le> n" for s1
    using Suc.IH that by blast
  show ?case
  proof (intro conjI impI)
    assume n: "4 * (es - s) + 4 \<le> Suc n"
    have bk: "ok (parsed b es s) (parseback n b es s1 c)" if "parsed b es s (c, s1)" for c s1
      using that n by (intro ok_widen [OF parseback_ok [OF lb]]) (auto simp: parsed_def)
    have rec: "ok (parsed b es s) (kbind (parseline n b es s1) (\<lambda>(r, s). Inr (LIST c r, s)))"
      if "s < s1" "s1 \<le> es" "parsed b es s (c, s2)" for c s1 s2
      using that n by (intro ok_pair [OF line]) (auto simp: parsed_def)
    show "ok (parsed b es s) (parseline (Suc n) b es s)" unfolding parseline.simps
      by (rule ok_pair [OF pipe], use Suc.prems n in \<open>simp_all\<close>, rule ok_pair, erule bk,
          intro peek_rule [OF lb] gettoken_rule [OF lb] ok_if rec) (auto simp: parsed_def)
  next
    assume n: "4 * (es - s) + 3 \<le> Suc n"
    have rec: "ok (parsed b es s) (kbind (parsepipe n b es s1) (\<lambda>(r, s). Inr (PIPE c r, s)))"
      if "s < s1" "s1 \<le> es" "parsed b es s (c, s2)" for c s1 s2
      using that n by (intro ok_pair [OF pipe]) (auto simp: parsed_def)
    show "ok (parsed b es s) (parsepipe (Suc n) b es s)" unfolding parsepipe.simps
      by (rule ok_pair [OF exec], use Suc.prems n in \<open>simp_all\<close>,
          intro peek_rule [OF lb] gettoken_rule [OF lb] ok_if rec) (auto simp: parsed_def)
  next
    assume n: "4 * (es - s) + 2 \<le> Suc n"
    have blk: "ok (parsed b es s) (parseblock n b es s1)" if "s \<le> s1" "s1 \<le> es" for s1
      using that n by (intro ok_widen [OF block]) auto
    have args: "ok (parsed b es s) (kbind (parseredirs n b es s1 (EXEC [])) (\<lambda>(ret, s). parseargs n b es s 0 ret))"
      if "s \<le> s1" "s1 \<le> es" for s1
    proof (rule ok_pair [OF parseredirs_ok [OF lb]])
      fix x y
      assume "parsed b es s1 (x, y) \<and> (\<forall>argc. simple argc (EXEC [] :: tok cmd) \<longrightarrow> simple argc (fst (x, y)))"
      then show "ok (parsed b es s) (parseargs n b es y 0 x)"
        using that n by (intro ok_widen [OF parseargs_ok [OF lb]]) (auto simp: parsed_def)
    qed (use that n in \<open>auto simp: MAXARGS_def\<close>)
    show "ok (parsed b es s) (parseexec (Suc n) b es s)" unfolding parseexec.simps
      by (intro peek_rule [OF lb] ok_if blk args) (use Suc.prems in auto)
  next
    assume n: "4 * (es - s) + 1 \<le> Suc n"
    have rd: "ok (parsed b es s) (parseredirs n b es s1 c)" if "s < s1" "s1 \<le> es" "parsed b es s2 (c, s3)" for c s1 s2 s3
      by (rule ok_widen [OF ok_mono [OF parseredirs_ok [OF lb]]]) (use that n in \<open>auto simp: parsed_def\<close>)
    have rest: "ok (parsed b es s) (kbind (parseline n b es s1) (\<lambda>(c, s). kbind (peek b es s [41, 0]) (\<lambda>(y, s).
        if \<not> y then Inl (Sh_panic ''syntax - missing )'')
        else kbind (gettoken b es s) (\<lambda>(_, _, _, s). parseredirs n b es s c))))"
      if "s < s1" "s1 \<le> es" for s1
      by (rule ok_pair [OF line], use that n in \<open>simp_all\<close>, intro peek_rule [OF lb] gettoken_rule [OF lb] ok_if)
        (auto simp: parsed_def intro!: rd)
    show "ok (parsed b es s) (parseblock (Suc n) b es s)" unfolding parseblock.simps
      by (intro peek_rule [OF lb] gettoken_rule [OF lb] ok_if rest) (use Suc.prems in auto)
  qed
qed simp

section \<open>Termination of the words\<close>

text \<open>The bytes of a word in the line.\<close>

definition word_text :: "byte list \<Rightarrow> tok \<Rightarrow> byte list" where
  "word_text b w = take (snd w - fst w) (drop (fst w) b)"

lemma nulterminate_spec:
  assumes "\<forall>w \<in> set_cmd c. snd w < length b"
  shows "\<exists>b'. nulterminate c b = Inr b' \<and> length b' = length b \<and>
    (\<forall>i < length b. b' ! i = (if i \<in> snd ` set_cmd c then 0 else b ! i))"
  using assms
proof (induction c arbitrary: b)
  case (EXEC ws)
  have "\<exists>b'. kfold (\<lambda>w. store_nul (snd w)) ws b = Inr b' \<and> length b' = length b \<and>
      (\<forall>i < length b. b' ! i = (if i \<in> snd ` set ws then 0 else b ! i))" if "\<forall>w \<in> set ws. snd w < length b" for ws :: "tok list"
    using that
  proof (induction ws arbitrary: b)
    case (Cons w ws)
    have w: "store_nul (snd w) b = Inr (b[snd w := 0])" using Cons.prems by (simp add: store_nul_def)
    obtain b' where "kfold (\<lambda>w. store_nul (snd w)) ws (b[snd w := 0]) = Inr b'" "length b' = length b"
        "\<forall>i < length b. b' ! i = (if i \<in> snd ` set ws then 0 else b[snd w := 0] ! i)"
      using Cons.IH [of "b[snd w := 0]"] Cons.prems by auto
    then show ?case using w Cons.prems by (auto simp: nth_list_update)
  qed simp
  then show ?case using EXEC by simp
next
  case (REDIR c f m d)
  then obtain b' where "nulterminate c b = Inr b'" "length b' = length b"
      "\<forall>i < length b. b' ! i = (if i \<in> snd ` set_cmd c then 0 else b ! i)" by fastforce
  then show ?case using REDIR.prems by (auto simp: store_nul_def nth_list_update)
next
  case (PIPE l r)
  obtain b1 where b1: "nulterminate l b = Inr b1" "length b1 = length b"
      "\<forall>i < length b. b1 ! i = (if i \<in> snd ` set_cmd l then 0 else b ! i)" using PIPE.IH(1) [of b] PIPE.prems by auto
  moreover obtain b2 where "nulterminate r b1 = Inr b2" "length b2 = length b1"
      "\<forall>i < length b1. b2 ! i = (if i \<in> snd ` set_cmd r then 0 else b1 ! i)" using PIPE.IH(2) [of b1] PIPE.prems b1(2) by auto
  ultimately show ?case by (auto simp: image_Un)
next
  case (LIST l r)
  obtain b1 where b1: "nulterminate l b = Inr b1" "length b1 = length b"
      "\<forall>i < length b. b1 ! i = (if i \<in> snd ` set_cmd l then 0 else b ! i)" using LIST.IH(1) [of b] LIST.prems by auto
  moreover obtain b2 where "nulterminate r b1 = Inr b2" "length b2 = length b1"
      "\<forall>i < length b1. b2 ! i = (if i \<in> snd ` set_cmd r then 0 else b1 ! i)" using LIST.IH(2) [of b1] LIST.prems b1(2) by auto
  ultimately show ?case by (auto simp: image_Un)
qed auto

text \<open>A terminator is never inside a word, so every word reads as it stood in the line.\<close>

lemma terminated_words:
  assumes lb: "line_buf b es" and c: "\<forall>w \<in> set_cmd c. isword b es w"
  shows "\<exists>b'. nulterminate c b = Inr b' \<and> (\<forall>w \<in> set_cmd c. word_at b' w = word_text b w)"
proof -
  have L: "es < length b" using lb by (simp add: line_buf_def)
  have "\<forall>w \<in> set_cmd c. snd w < length b" using c L by (force simp: isword_def)
  from nulterminate_spec [OF this] obtain b' where b': "nulterminate c b = Inr b'" "length b' = length b"
      "\<And>i. i < length b \<Longrightarrow> b' ! i = (if i \<in> snd ` set_cmd c then 0 else b ! i)" by auto
  have "word_at b' w = word_text b w" if "w \<in> set_cmd c" for w
  proof -
    obtain q e where w: "w = (q, e)" by (cases w)
    have W: "q < e" "e \<le> es" "\<And>i. q \<le> i \<Longrightarrow> i < e \<Longrightarrow> wordc (b ! i) \<and> b ! i \<noteq> 0" using c that w by (auto simp: isword_def)
    have keep: "b' ! i = b ! i" if "q \<le> i" "i < e" for i
    proof -
      have "i \<noteq> snd v" if "v \<in> set_cmd c" for v
        using c W(3) [OF \<open>q \<le> i\<close> \<open>i < e\<close>] that \<open>i < e\<close> W(2) by (force simp: isword_def)
      then show ?thesis using that b'(3) [of i] W(2) L by auto
    qed
    have zero: "b' ! e = 0" using b'(3) [of e] that w W(2) L by force
    have same: "take (e - q) (drop q b') = take (e - q) (drop q b)"
      by (rule nth_equalityI) (use b'(2) keep in auto)
    have "drop q b' = take (e - q) (drop q b') @ drop q b' ! (e - q) # drop (Suc (e - q)) (drop q b')"
      by (rule id_take_nth_drop) (use W L b'(2) in simp)
    then have "drop q b' = take (e - q) (drop q b) @ 0 # drop (Suc (e - q)) (drop q b')"
      using zero same W L b'(2) by simp
    moreover have "0 \<notin> set (take (e - q) (drop q b))"
      using W(2,3) L by (auto simp: in_set_conv_nth)
    ultimately show ?thesis by (metis w word_at_def word_text_def cstr_append_NUL fst_conv snd_conv)
  qed
  then show ?thesis using b'(1) by auto
qed

lemma strlen_line_buf: "strlen b = Some es \<Longrightarrow> line_buf b es"
proof (induction b arbitrary: es rule: strlen.induct)
  case (1 c b)
  show ?case
  proof (cases "c = 0")
    case False
    then obtain n where n: "strlen b = Some n" "es = Suc n" using 1 by (auto split: if_splits)
    then have "line_buf b n" using 1 False by auto
    then show ?thesis using n False by (auto simp: line_buf_def nth_Cons split: nat.splits)
  qed (use 1 in \<open>auto simp: line_buf_def\<close>)
qed simp

definition proper_word :: "byte list \<Rightarrow> bool" where
  "proper_word w = (w \<noteq> [] \<and> list_all (\<lambda>c. wordc c \<and> c \<noteq> 0) w)"

lemma isword_proper:
  assumes "line_buf b es" "isword b es w"
  shows "proper_word (word_text b w)"
  using assms by (auto simp: proper_word_def word_text_def isword_def line_buf_def list_all_length)

text \<open>
  C14. The parser of the shell ends on every line, whatever it holds: it reports a syntax error, or
  returns a tree in which every program has fewer than MAXARGS words and every redirection is one of
  the three kinds. It never reads or writes outside the buffer. Each word of the tree, read as a C
  string from the buffer that it has changed, is a proper word of the original line.
\<close>

theorem parsecmd_total:
  assumes "strlen b = Some es"
  shows "(\<exists>msg. parsecmd b = Inl (Sh_panic msg)) \<or>
    (\<exists>c b'. parsecmd b = Inr (c, b') \<and> shaped c \<and>
       (\<forall>w \<in> set_cmd c. word_at b' w = word_text b w \<and> proper_word (word_text b w)))"
proof -
  have lb: "line_buf b es" using assms by (rule strlen_line_buf)
  have "ok (\<lambda>(c, b'). shaped c \<and> (\<forall>w \<in> set_cmd c. word_at b' w = word_text b w \<and> proper_word (word_text b w))) (parsecmd b)"
    unfolding parsecmd_def assms option.case
  proof (rule ok_pair)
    show "ok (parsed b es 0) (parseline (4 * es + 4) b es 0)" using parse_ok [OF lb, of 0 "4 * es + 4"] by simp
    fix c s
    assume p: "parsed b es 0 (c, s)"
    then obtain b' where b': "nulterminate c b = Inr b'" "\<forall>w \<in> set_cmd c. word_at b' w = word_text b w"
      using terminated_words [OF lb, of c] by (auto simp: parsed_def)
    show "ok (\<lambda>(c, b'). shaped c \<and> (\<forall>w \<in> set_cmd c. word_at b' w = word_text b w \<and> proper_word (word_text b w)))
        (kbind (peek b es s [0]) (\<lambda>(_, s). if s \<noteq> es then Inl (Sh_panic ''syntax'') else kbind (nulterminate c b) (\<lambda>b. Inr (c, b))))"
      by (intro peek_rule [OF lb] ok_if) (use p b' lb in \<open>auto simp: parsed_def intro: isword_proper\<close>)
  qed
  then show ?thesis by (auto simp: ok_def split: sum.splits sherr.splits)
qed

theorem parsecmd_total_witness:
  "strlen [97, 60, 98, 10, 0] = Some 4 \<and>
   parsecmd [97, 60, 98, 10, 0] = Inr (REDIR (EXEC [(0, 1)]) (2, 3) O_RDONLY 0, [97, 0, 98, 0, 0]) \<and>
   shaped (REDIR (EXEC [(0, 1)]) ((2, 3) :: tok) O_RDONLY 0) \<and>
   word_at [97, 0, 98, 0, 0] (2, 3) = word_text [97, 60, 98, 10, 0] (2, 3)"
proof -
  have len: "strlen [97, 60, 98, 10, 0] = Some 4" by simp
  have run: "parsecmd [97, 60, 98, 10, 0] = Inr (REDIR (EXEC [(0, 1)]) (2, 3) O_RDONLY 0, [97, 0, 98, 0, 0])"
    by code_simp
  show ?thesis using parsecmd_total [OF len] len run by auto
qed

end
