(* ===== verification/Xv6_Shrun.thy ===== *)
theory Xv6_Shrun
  imports Xv6_Shell
begin

text \<open>
  Command trees written as lines: the parser reads back the tree, and the shell runs what it denotes.
\<close>

section \<open>Fuel\<close>

text \<open>With more fuel the parser gives the same result.\<close>

definition le_fuel :: "'a sh \<Rightarrow> 'a sh \<Rightarrow> bool" where
  "le_fuel r r' = (r = Inl Sh_fuel \<or> r' = r)"

lemma le_fuel_refl: "le_fuel r r"
  by (simp add: le_fuel_def)

lemma le_fuel_kbind: "le_fuel r r' \<Longrightarrow> (\<And>x. le_fuel (f x) (f' x)) \<Longrightarrow> le_fuel (kbind r f) (kbind r' f')"
  by (cases r) (auto simp: le_fuel_def)

lemma le_fuel_if: "le_fuel x x' \<Longrightarrow> le_fuel y y' \<Longrightarrow> le_fuel (if c then x else y) (if c then x' else y')"
  by simp

lemma le_fuel_pair: "(\<And>x y. le_fuel (f x y) (g x y)) \<Longrightarrow> le_fuel (case p of (x, y) \<Rightarrow> f x y) (case p of (x, y) \<Rightarrow> g x y)"
  by (cases p) simp

lemma le_fuel_fuel: "le_fuel (Inl Sh_fuel) r"
  by (simp add: le_fuel_def)

lemmas le_fuel_rules = le_fuel_kbind le_fuel_if le_fuel_pair

lemma parseredirs_mono: "n \<le> m \<Longrightarrow> le_fuel (parseredirs n b es s c) (parseredirs m b es s c)"
proof (induction n arbitrary: m s c)
  case (Suc n)
  then obtain m' where m: "m = Suc m'" "n \<le> m'" by (cases m) auto
  show ?case unfolding m parseredirs.simps by (intro le_fuel_rules le_fuel_refl Suc.IH m)
qed (simp add: le_fuel_fuel)

lemma parseargs_mono: "n \<le> m \<Longrightarrow> le_fuel (parseargs n b es s a c) (parseargs m b es s a c)"
proof (induction n arbitrary: m s a c)
  case (Suc n)
  then obtain m' where m: "m = Suc m'" "n \<le> m'" by (cases m) auto
  show ?case unfolding m parseargs.simps by (intro le_fuel_rules le_fuel_refl parseredirs_mono Suc.IH m)
qed (simp add: le_fuel_fuel)

lemma parseback_mono: "n \<le> m \<Longrightarrow> le_fuel (parseback n b es s c) (parseback m b es s c)"
proof (induction n arbitrary: m s c)
  case (Suc n)
  then obtain m' where m: "m = Suc m'" "n \<le> m'" by (cases m) auto
  show ?case unfolding m parseback.simps by (intro le_fuel_rules le_fuel_refl Suc.IH m)
qed (simp add: le_fuel_fuel)

lemma parse_mono:
  "n \<le> m \<Longrightarrow> le_fuel (parseline n b es s) (parseline m b es s) \<and> le_fuel (parsepipe n b es s) (parsepipe m b es s) \<and>
     le_fuel (parseexec n b es s) (parseexec m b es s) \<and> le_fuel (parseblock n b es s) (parseblock m b es s)"
proof (induction n arbitrary: m s)
  case (Suc n)
  then obtain m' where m: "m = Suc m'" "n \<le> m'" by (cases m) auto
  note IH = Suc.IH [OF m(2), THEN conjunct1] Suc.IH [OF m(2), THEN conjunct2, THEN conjunct1]
    Suc.IH [OF m(2), THEN conjunct2, THEN conjunct2, THEN conjunct1] Suc.IH [OF m(2), THEN conjunct2, THEN conjunct2, THEN conjunct2]
  show ?case unfolding m(1) parseline.simps parsepipe.simps parseexec.simps parseblock.simps
    by (intro conjI le_fuel_rules le_fuel_refl parseredirs_mono parseargs_mono parseback_mono IH m(2))
qed (simp add: le_fuel_fuel)

text \<open>The result with enough fuel.\<close>

definition ev :: "(nat \<Rightarrow> 'a sh) \<Rightarrow> 'a \<Rightarrow> bool" where
  "ev f x = (\<exists>N. \<forall>n \<ge> N. f n = Inr x)"

lemma ev_Inr: "ev (\<lambda>n. Inr x) x"
  by (simp add: ev_def)

lemma ev_kbind: "ev f x \<Longrightarrow> ev (\<lambda>n. g n x) y \<Longrightarrow> ev (\<lambda>n. kbind (f n) (g n)) y"
  unfolding ev_def by (metis (no_types, lifting) kbind_Inr nle_le order_trans)

lemma ev_Suc: "ev (\<lambda>n. f (Suc n)) x \<Longrightarrow> ev f x"
  unfolding ev_def by (metis Suc_le_D Suc_le_mono)

lemma ev_enough:
  assumes "ev f x" "\<And>n. N \<le> n \<Longrightarrow> le_fuel (f N) (f n)" "f N \<noteq> Inl Sh_fuel"
  shows "f N = Inr x"
proof -
  obtain M where M: "\<forall>n \<ge> M. f n = Inr x" using assms(1) by (auto simp: ev_def)
  have "f (max M N) = f N" using assms(2) [of "max M N"] assms(3) by (auto simp: le_fuel_def)
  then show ?thesis using M by (metis max.cobounded1)
qed

section \<open>What is left of the line\<close>

text \<open>From position s the line goes on with xs, leading blanks aside.\<close>

definition sees :: "byte list \<Rightarrow> nat \<Rightarrow> nat \<Rightarrow> byte list \<Rightarrow> bool" where
  "sees b es s xs = (s \<le> es \<and> dropWhile blank (drop s (take es b)) = dropWhile blank xs)"

definition starts :: "byte list \<Rightarrow> byte list \<Rightarrow> bool" where
  "starts cs xs = (case dropWhile blank xs of [] \<Rightarrow> False | c # ys \<Rightarrow> occurs cs c)"

lemma scan_eq:
  assumes "es < length b" "s \<le> es"
  shows "scan P b es s = Inr (s + length (takeWhile P (drop s (take es b))))"
  using assms
proof (induction P b es s rule: scan.induct)
  case (1 P b es s)
  show ?case
  proof (cases "s < es")
    case True
    then have "drop s (take es b) = b ! s # drop (Suc s) (take es b)"
      using 1(2) by (simp add: Cons_nth_drop_Suc [symmetric])
    then show ?thesis using 1 True by (auto simp: scan.simps [of P b es s] at_def)
  qed (use 1 in \<open>simp add: scan.simps\<close>)
qed

lemma scan_rest:
  assumes "es < length b" "s \<le> es" "drop s (take es b) = xs"
  shows "\<exists>s'. scan P b es s = Inr s' \<and> s' = s + length (takeWhile P xs) \<and> s' \<le> es \<and> drop s' (take es b) = dropWhile P xs"
proof -
  have len: "length (takeWhile P xs) \<le> es - s" using length_takeWhile_le [of P xs] assms by auto
  have "drop (s + length (takeWhile P xs)) (take es b) = drop (length (takeWhile P xs)) xs"
    using assms(3) by (metis add.commute drop_drop)
  then show ?thesis using scan_eq [OF assms(1,2), of P] assms len by (auto simp: dropWhile_eq_drop)
qed

lemma sees_skip:
  assumes "line_buf b es" "sees b es s xs"
  shows "\<exists>q. scan blank b es s = Inr q \<and> q \<le> es \<and> drop q (take es b) = dropWhile blank xs"
  using scan_rest [of es b s _ blank] assms by (auto simp: line_buf_def sees_def)

lemma sees_exact: "s \<le> es \<Longrightarrow> drop s (take es b) = dropWhile blank xs \<Longrightarrow> sees b es s xs"
  by (simp add: sees_def)

lemma at_Cons:
  assumes "line_buf b es" "drop q (take es b) = c # ys"
  shows "at b q = Inr c" "c \<noteq> 0" "q < es" "drop (Suc q) (take es b) = ys"
proof -
  have "drop q (take es b) \<noteq> []" using assms(2) by simp
  then show q: "q < es" by simp
  have l: "q < length b" using assms(1) q by (simp add: line_buf_def)
  have "drop q (take es b) = b ! q # drop (Suc q) (take es b)"
    using q l by (simp add: Cons_nth_drop_Suc [symmetric])
  then have "b ! q = c" "drop (Suc q) (take es b) = ys" using assms(2) by auto
  then show "at b q = Inr c" "c \<noteq> 0" "drop (Suc q) (take es b) = ys"
    using q l assms(1) by (auto simp: at_def line_buf_def)
qed

lemma at_Nil:
  assumes "line_buf b es" "drop q (take es b) = []" "q \<le> es"
  shows "q = es" "at b q = Inr 0"
  using assms by (auto simp: at_def line_buf_def)

lemma peek_sees:
  assumes "line_buf b es" "sees b es s xs"
  shows "\<exists>s'. peek b es s toks = Inr (starts toks xs, s') \<and> sees b es s' xs"
proof -
  obtain q where q: "scan blank b es s = Inr q" "q \<le> es" "drop q (take es b) = dropWhile blank xs"
    using sees_skip [OF assms] by blast
  show ?thesis
  proof (cases "dropWhile blank xs")
    case Nil
    then show ?thesis using q at_Nil [OF assms(1), of q] sees_exact [OF q(2,3)] by (simp add: peek_def starts_def)
  next
    case (Cons c ys)
    then show ?thesis using q at_Cons [OF assms(1), of q c ys] sees_exact [OF q(2,3)] by (simp add: peek_def starts_def)
  qed
qed

lemma gettoken_end:
  assumes "line_buf b es" "sees b es s xs" "dropWhile blank xs = []"
  shows "\<exists>q e s'. gettoken b es s = Inr (0, q, e, s') \<and> sees b es s' xs"
proof -
  obtain q where q: "scan blank b es s = Inr q" "q \<le> es" "drop q (take es b) = []"
    using sees_skip [OF assms(1,2)] assms(3) by auto
  have "scan blank b es q = Inr q" using at_Nil [OF assms(1) q(3,2)] by (simp add: scan.simps)
  moreover have "sees b es q xs" by (rule sees_exact [OF q(2)]) (simp only: q(3) assms(3))
  ultimately show ?thesis using q at_Nil [OF assms(1) q(3,2)] by (simp add: gettoken_def)
qed

text \<open>The end of gettoken, which skips the blanks after the token.\<close>

lemma skip_after:
  assumes "line_buf b es" "e \<le> es" "drop e (take es b) = ys"
  shows "\<exists>s'. scan blank b es e = Inr s' \<and> sees b es s' ys"
  using scan_rest [of es b e ys blank] assms by (auto simp: line_buf_def intro: sees_exact)

lemma gettoken_sym:
  assumes lb: "line_buf b es" and s: "sees b es s (c # xs)"
    and c: "c = 124 \<or> c = 40 \<or> c = 41 \<or> c = 59 \<or> c = 38 \<or> c = 60"
  shows "\<exists>q e s'. gettoken b es s = Inr (c, q, e, s') \<and> sees b es s' xs"
proof -
  have "\<not> blank c" using c by (auto simp: blank_def occurs_def whitespace_def)
  then obtain q where q: "scan blank b es s = Inr q" "q \<le> es" "drop q (take es b) = c # xs"
    using sees_skip [OF lb s] by auto
  note C = at_Cons [OF lb q(3)]
  obtain s' where "scan blank b es (Suc q) = Inr s'" "sees b es s' xs" using skip_after [OF lb _ C(4)] C(3) by auto
  then show ?thesis using q(1) C c by (auto simp: gettoken_def)
qed

lemma gettoken_out:
  assumes lb: "line_buf b es" and s: "sees b es s (62 # xs)" and xs: "xs = [] \<or> hd xs \<noteq> 62"
  shows "\<exists>q e s'. gettoken b es s = Inr (62, q, e, s') \<and> sees b es s' xs"
proof -
  have "\<not> blank 62" by (simp add: blank_def occurs_def whitespace_def)
  then obtain q where q: "scan blank b es s = Inr q" "q \<le> es" "drop q (take es b) = 62 # xs"
    using sees_skip [OF lb s] by auto
  note C = at_Cons [OF lb q(3)]
  obtain s' where s': "scan blank b es (Suc q) = Inr s'" "sees b es s' xs" using skip_after [OF lb _ C(4)] C(3) by auto
  have "\<exists>d. at b (Suc q) = Inr d \<and> d \<noteq> 62"
  proof (cases xs)
    case Nil
    then show ?thesis using at_Nil [OF lb, of "Suc q"] C(3,4) by simp
  next
    case (Cons d ys)
    then show ?thesis using at_Cons [OF lb, of "Suc q" d ys] C(4) xs by simp
  qed
  then show ?thesis using q(1) C s' by (auto simp: gettoken_def)
qed

lemma gettoken_append:
  assumes lb: "line_buf b es" and s: "sees b es s (62 # 62 # xs)"
  shows "\<exists>q e s'. gettoken b es s = Inr (43, q, e, s') \<and> sees b es s' xs"
proof -
  have "\<not> blank 62" by (simp add: blank_def occurs_def whitespace_def)
  then obtain q where q: "scan blank b es s = Inr q" "q \<le> es" "drop q (take es b) = 62 # 62 # xs"
    using sees_skip [OF lb s] by auto
  note C = at_Cons [OF lb q(3)]
  note D = at_Cons [OF lb C(4)]
  obtain s' where "scan blank b es (Suc (Suc q)) = Inr s'" "sees b es s' xs" using skip_after [OF lb _ D(4)] D(3) by auto
  then show ?thesis using q(1) C D by (auto simp: gettoken_def)
qed

lemma wordc_special:
  assumes "wordc c"
  shows "\<not> blank c" "c \<noteq> 124" "c \<noteq> 40" "c \<noteq> 41" "c \<noteq> 59" "c \<noteq> 38" "c \<noteq> 60" "c \<noteq> 62"
  using assms by (auto simp: wordc_def blank_def occurs_def symbols_def)

lemma proper_word_Cons:
  assumes "proper_word w"
  obtains c cs where "w = c # cs" "wordc c" "c \<noteq> 0" "\<not> blank c"
  using assms wordc_special(1) by (cases w) (auto simp: proper_word_def)

lemma gettoken_word:
  assumes lb: "line_buf b es" and s: "sees b es s (w @ xs)" and w: "proper_word w" and xs: "xs = [] \<or> \<not> wordc (hd xs)"
  shows "\<exists>q e s'. gettoken b es s = Inr (97, q, e, s') \<and> word_text b (q, e) = w \<and> sees b es s' xs"
proof -
  obtain c cs where c: "w = c # cs" "wordc c" "c \<noteq> 0" "\<not> blank c" by (rule proper_word_Cons [OF w])
  obtain q where q: "scan blank b es s = Inr q" "q \<le> es" "drop q (take es b) = w @ xs"
    using sees_skip [OF lb s] c by auto
  have C: "at b q = Inr c" using at_Cons [OF lb] q(3) c(1) by auto
  have tw: "takeWhile wordc (w @ xs) = w" "dropWhile wordc (w @ xs) = xs"
    using w xs by (auto simp: proper_word_def list_all_iff takeWhile_append2 dropWhile_append2) (cases xs; auto)+
  obtain e where e: "scan wordc b es q = Inr e" "e = q + length w" "e \<le> es" "drop e (take es b) = xs"
    using scan_rest [of es b q "w @ xs" wordc] lb q(2,3) tw by (auto simp: line_buf_def)
  obtain s' where s': "scan blank b es e = Inr s'" "sees b es s' xs" using skip_after [OF lb e(3,4)] by auto
  have "take (length w) (drop q (take es b)) = w" using q(3) by simp
  moreover have "length w \<le> es - q" using e(2,3) by simp
  ultimately have "word_text b (q, e) = w" using e(2) by (simp add: word_text_def drop_take min_absorb1)
  moreover have "gettoken b es s = Inr (97, q, e, s')"
    using q(1) C c e(1) s' wordc_special [OF c(2)] by (simp add: gettoken_def)
  ultimately show ?thesis using s' by blast
qed

section \<open>Trees as lines\<close>

text \<open>
  A tree as text, at the level of the grammar where it stands: 0 for an operand of a pipe, 1 for a pipe,
  2 for what ampersands follow, 3 for a whole line. Parentheses are put where the level asks for them.
\<close>

definition redir_text :: "u32 \<Rightarrow> byte list \<Rightarrow> byte list" where
  "redir_text m f =
     (if m = O_RDONLY then [60] else if m = O_WRONLY OR O_CREATE then [62, 62] else [62]) @ f @ [32]"

primrec cmd_text :: "nat \<Rightarrow> byte list cmd \<Rightarrow> byte list" where
  "cmd_text l (EXEC ws) = concat (map (\<lambda>w. w @ [32]) ws)"
| "cmd_text l (REDIR c f m d) = cmd_text 0 c @ redir_text m f"
| "cmd_text l (PIPE a b) =
     (let t = cmd_text 0 a @ [124] @ cmd_text 1 b in if l < 1 then [40] @ t @ [41] else t)"
| "cmd_text l (BACK a) = (let t = cmd_text 2 a @ [38] in if l < 2 then [40] @ t @ [41] else t)"
| "cmd_text l (LIST a b) =
     (let t = cmd_text 2 a @ [59] @ cmd_text 3 b in if l < 3 then [40] @ t @ [41] else t)"

definition writable :: "byte list cmd \<Rightarrow> bool" where
  "writable c = (shaped c \<and> (\<forall>w \<in> set_cmd c. proper_word w))"

text \<open>What may follow a text: the end of the line, or one of these bytes.\<close>

definition stops :: "byte list \<Rightarrow> byte list \<Rightarrow> bool" where
  "stops cs xs = (case dropWhile blank xs of [] \<Rightarrow> True | c # ys \<Rightarrow> occurs cs c)"

lemma starts_Cons [simp]:
  "starts cs [] = False" "blank c \<Longrightarrow> starts cs (c # xs) = starts cs xs" "\<not> blank c \<Longrightarrow> starts cs (c # xs) = occurs cs c"
  by (simp_all add: starts_def)

lemma stops_Cons [simp]:
  "stops cs []" "blank c \<Longrightarrow> stops cs (c # xs) = stops cs xs" "\<not> blank c \<Longrightarrow> stops cs (c # xs) = occurs cs c"
  by (simp_all add: stops_def)

lemma stops_starts:
  assumes "stops cs xs" "\<And>c. occurs cs c \<Longrightarrow> \<not> occurs ds c"
  shows "\<not> starts ds xs"
  using assms by (cases "dropWhile blank xs") (auto simp: stops_def starts_def simp del: dropWhile_eq_Nil_conv)

lemma stops_weaken: "stops cs xs \<Longrightarrow> (\<And>c. occurs cs c \<Longrightarrow> occurs ds c) \<Longrightarrow> stops ds xs"
  by (cases "dropWhile blank xs") (auto simp: stops_def simp del: dropWhile_eq_Nil_conv)

lemma occurs_code [simp]: "occurs (x # xs) c = (x \<noteq> 0 \<and> (x = c \<or> occurs xs c))" "\<not> occurs [] c"
  by (simp_all add: occurs_def)

abbreviation redirs :: "(byte list \<times> u32 \<times> nat) list \<Rightarrow> byte list cmd \<Rightarrow> byte list cmd" where
  "redirs rs c \<equiv> foldl (\<lambda>c (f, m, d). REDIR c f m d) c rs"

definition redirs_text :: "(byte list \<times> u32 \<times> nat) list \<Rightarrow> byte list" where
  "redirs_text rs = concat (map (\<lambda>(f, m, d). redir_text m f) rs)"

definition redirs_ok :: "(byte list \<times> u32 \<times> nat) list \<Rightarrow> bool" where
  "redirs_ok rs = (\<forall>(f, m, d) \<in> set rs. proper_word f \<and>
     (m, d) \<in> {(O_RDONLY, 0), (O_WRONLY OR O_CREATE OR O_TRUNC, 1), (O_WRONLY OR O_CREATE, 1)})"

lemma blank_codes [simp]: "blank 32" "blank 10" "\<not> blank 124" "\<not> blank 40" "\<not> blank 41" "\<not> blank 59" "\<not> blank 38" "\<not> blank 60" "\<not> blank 62"
  by (simp_all add: blank_def whitespace_def)

lemma wordc_codes [simp]: "\<not> wordc 32" "\<not> wordc 10"
  by (simp_all add: wordc_def whitespace_def)

lemma mode_values: "O_RDONLY = 0" "O_WRONLY OR O_CREATE = 0x201" "O_WRONLY OR O_CREATE OR O_TRUNC = 0x601"
  by (simp_all add: O_RDONLY_def O_WRONLY_def O_CREATE_def O_TRUNC_def)

text \<open>The token in front of the file name.\<close>

lemma gettoken_redir:
  assumes lb: "line_buf b es" and s: "sees b es s (redir_text m f @ xs)" and f: "proper_word f"
    and md: "(m, d) \<in> {(O_RDONLY, 0), (O_WRONLY OR O_CREATE OR O_TRUNC, 1), (O_WRONLY OR O_CREATE, 1)}"
  shows "\<exists>k q e s'. gettoken b es s = Inr (k, q, e, s') \<and> sees b es s' (f @ 32 # xs) \<and> (\<forall>c w. redirect c k w = REDIR c w m d)"
proof -
  obtain c cs where c: "f = c # cs" "wordc c" by (rule proper_word_Cons [OF f])
  note n62 = wordc_special(8) [OF c(2)]
  consider "m = O_RDONLY" "d = 0" | "m = O_WRONLY OR O_CREATE OR O_TRUNC" "d = 1" | "m = O_WRONLY OR O_CREATE" "d = 1"
    using md by auto
  then show ?thesis
  proof cases
    case 1
    then show ?thesis using gettoken_sym [OF lb, of s 60 "f @ 32 # xs"] s by (auto simp: redir_text_def redirect_def)
  next
    case 2
    then show ?thesis using gettoken_out [OF lb, of s "f @ 32 # xs"] s c n62
      by (auto simp: redir_text_def redirect_def mode_values)
  next
    case 3
    then show ?thesis using gettoken_append [OF lb, of s "f @ 32 # xs"] s
      by (auto simp: redir_text_def redirect_def mode_values)
  qed
qed

lemma starts_redir_text: "starts [60, 62, 0] (redir_text m f @ xs)"
  by (simp add: redir_text_def)

lemma redirs_text_simps [simp]: "redirs_text [] = []" "redirs_text ((f, m, d) # rs) = redir_text m f @ redirs_text rs"
  by (simp_all add: redirs_text_def)

lemma parseredirs_text:
  assumes lb: "line_buf b es" and "sees b es s (redirs_text rs @ xs)" "redirs_ok rs" "\<not> starts [60, 62, 0] xs"
  shows "\<exists>c' s'. ev (\<lambda>n. parseredirs n b es s c) (c', s') \<and> map_cmd (word_text b) c' = redirs rs (map_cmd (word_text b) c) \<and>
    sees b es s' xs \<and> (rs = [] \<longrightarrow> c' = c)"
  using assms(2-)
proof (induction rs arbitrary: s c)
  case Nil
  obtain s' where s': "peek b es s [60, 62, 0] = Inr (False, s')" "sees b es s' xs" using peek_sees [OF lb, of s xs "[60, 62, 0]"] Nil by auto
  have "ev (\<lambda>n. parseredirs n b es s c) (c, s')" by (rule ev_Suc) (simp add: s' ev_Inr)
  then show ?case using s' by auto
next
  case (Cons r rs)
  obtain f m d where r: "r = (f, m, d)" by (cases r) auto
  have R: "proper_word f" "(m, d) \<in> {(O_RDONLY, 0), (O_WRONLY OR O_CREATE OR O_TRUNC, 1), (O_WRONLY OR O_CREATE, 1)}" "redirs_ok rs"
    using Cons.prems(2) r by (auto simp: redirs_ok_def)
  have s: "sees b es s (redir_text m f @ redirs_text rs @ xs)" using Cons.prems(1) r by simp
  obtain s1 where s1: "peek b es s [60, 62, 0] = Inr (True, s1)" "sees b es s1 (redir_text m f @ redirs_text rs @ xs)"
    using peek_sees [OF lb s, of "[60, 62, 0]"] starts_redir_text by auto
  obtain k q e s2 where s2: "gettoken b es s1 = Inr (k, q, e, s2)" "sees b es s2 (f @ 32 # redirs_text rs @ xs)" "\<And>c w. redirect c k w = REDIR c w m d"
    using gettoken_redir [OF lb s1(2) R(1,2)] by auto
  obtain q' e' s3 where s3: "gettoken b es s2 = Inr (97, q', e', s3)" "word_text b (q', e') = f" "sees b es s3 (32 # redirs_text rs @ xs)"
    using gettoken_word [OF lb s2(2) R(1)] by auto
  have "sees b es s3 (redirs_text rs @ xs)" using s3(3) by (simp add: sees_def)
  from Cons.IH [OF this R(3) Cons.prems(3), of "REDIR c (q', e') m d"] obtain c' s' where
    c': "ev (\<lambda>n. parseredirs n b es s3 (REDIR c (q', e') m d)) (c', s')" "sees b es s' xs"
      "map_cmd (word_text b) c' = redirs rs (REDIR (map_cmd (word_text b) c) f m d)" using s3(2) by auto
  have "ev (\<lambda>n. parseredirs n b es s c) (c', s')" by (rule ev_Suc) (simp add: s1 s2 s3 c')
  then show ?case using c' r by auto
qed

lemma parseargs_stop:
  assumes lb: "line_buf b es" and s: "sees b es s xs" and xs: "stops [124, 41, 38, 59, 0] xs"
  shows "\<exists>s'. ev (\<lambda>n. parseargs n b es s argc c) (c, s') \<and> sees b es s' xs"
proof -
  obtain s1 where s1: "peek b es s [124, 41, 38, 59, 0] = Inr (starts [124, 41, 38, 59, 0] xs, s1)" "sees b es s1 xs"
    using peek_sees [OF lb s] by blast
  show ?thesis
  proof (cases "dropWhile blank xs = []")
    case True
    then obtain q e s2 where "gettoken b es s1 = Inr (0, q, e, s2)" "sees b es s2 xs" using gettoken_end [OF lb s1(2)] by auto
    moreover have "\<not> starts [124, 41, 38, 59, 0] xs" unfolding starts_def True by simp
    ultimately have "ev (\<lambda>n. parseargs n b es s argc c) (c, s2)" using s1(1) by (intro ev_Suc [of "\<lambda>n. parseargs n b es s argc c"]) (simp add: ev_Inr)
    then show ?thesis using \<open>sees b es s2 xs\<close> by blast
  next
    case False
    then have "starts [124, 41, 38, 59, 0] xs"
      using xs by (cases "dropWhile blank xs") (auto simp: stops_def starts_def simp del: dropWhile_eq_Nil_conv)
    then have "ev (\<lambda>n. parseargs n b es s argc c) (c, s1)" using s1(1) by (intro ev_Suc [of "\<lambda>n. parseargs n b es s argc c"]) (simp add: ev_Inr)
    then show ?thesis using s1(2) by blast
  qed
qed

lemma starts_word:
  assumes "proper_word w" "\<And>c. wordc c \<Longrightarrow> c \<noteq> 0 \<Longrightarrow> \<not> occurs cs c"
  shows "\<not> starts cs (w @ xs)"
proof -
  obtain c ds where "w = c # ds" "wordc c" "c \<noteq> 0" "\<not> blank c" by (rule proper_word_Cons [OF assms(1)])
  then show ?thesis using assms(2) by simp
qed

lemma parseargs_words:
  assumes lb: "line_buf b es" and rs: "redirs_ok rs" and xs: "stops [124, 41, 38, 59, 0] xs"
  shows "ws \<noteq> [] \<Longrightarrow> list_all proper_word ws \<Longrightarrow> argc + length ws < MAXARGS \<Longrightarrow>
    sees b es s (concat (map (\<lambda>w. w @ [32]) ws) @ redirs_text rs @ xs) \<Longrightarrow>
    \<exists>t s'. ev (\<lambda>n. parseargs n b es s argc (EXEC ts)) (t, s') \<and>
      map_cmd (word_text b) t = redirs rs (EXEC (map (word_text b) ts @ ws)) \<and> sees b es s' xs"
proof (induction ws arbitrary: s argc ts)
  case (Cons w ws)
  have w: "proper_word w" using Cons.prems by simp
  have sp: "\<not> occurs [124, 41, 38, 59, 0] c" "\<not> occurs [60, 62, 0] c" if "wordc c" for c
    using wordc_special [OF that] by auto
  let ?rest = "concat (map (\<lambda>w. w @ [32]) ws) @ redirs_text rs @ xs"
  have s: "sees b es s (w @ 32 # ?rest)" using Cons.prems by simp
  obtain s1 where s1: "peek b es s [124, 41, 38, 59, 0] = Inr (False, s1)" "sees b es s1 (w @ 32 # ?rest)"
    using peek_sees [OF lb s, of "[124, 41, 38, 59, 0]"] starts_word [OF w, of "[124, 41, 38, 59, 0]"] sp(1) by auto
  obtain q e s2 where s2: "gettoken b es s1 = Inr (97, q, e, s2)" "word_text b (q, e) = w" "sees b es s2 (32 # ?rest)"
    using gettoken_word [OF lb s1(2) w] by auto
  have s2': "sees b es s2 ?rest" using s2(3) by (simp add: sees_def)
  have step: "ev (\<lambda>n. parseargs n b es s argc (EXEC ts)) y"
    if "ev (\<lambda>n. parseredirs n b es s2 (EXEC (ts @ [(q, e)]))) (t, s3)" "ev (\<lambda>n. parseargs n b es s3 (Suc argc) t) y" for t s3 y
    by (rule ev_Suc) (use s1 s2 Cons.prems(3) in \<open>simp add: ev_kbind [OF that(1)] that(2)\<close>)
  show ?case
  proof (cases ws)
    case Nil
    have "\<not> starts [60, 62, 0] xs" by (rule stops_starts [OF xs]) auto
    then obtain t s3 where t: "ev (\<lambda>n. parseredirs n b es s2 (EXEC (ts @ [(q, e)]))) (t, s3)" "sees b es s3 xs"
        "map_cmd (word_text b) t = redirs rs (EXEC (map (word_text b) ts @ [w]))"
      using parseredirs_text [OF lb _ rs, of s2 xs "EXEC (ts @ [(q, e)])"] s2' s2(2) Nil by auto
    obtain s4 where s4: "ev (\<lambda>n. parseargs n b es s3 (Suc argc) t) (t, s4)" "sees b es s4 xs" using parseargs_stop [OF lb t(2) xs] by blast
    from step [OF t(1) s4(1)] show ?thesis using t(3) s4(2) Nil by auto
  next
    case (Cons v vs)
    have "proper_word v" using Cons.prems(2) Cons by simp
    then have "\<not> starts [60, 62, 0] ?rest" using starts_word [of v "[60, 62, 0]"] sp(2) Cons by auto
    then obtain s3 where s3: "ev (\<lambda>n. parseredirs n b es s2 (EXEC (ts @ [(q, e)]))) (EXEC (ts @ [(q, e)]), s3)" "sees b es s3 ?rest"
      using parseredirs_text [OF lb, of s2 "[]" ?rest "EXEC (ts @ [(q, e)])"] s2' by (auto simp: redirs_ok_def)
    obtain t s4 where t: "ev (\<lambda>n. parseargs n b es s3 (Suc argc) (EXEC (ts @ [(q, e)]))) (t, s4)" "sees b es s4 xs"
        "map_cmd (word_text b) t = redirs rs (EXEC (map (word_text b) (ts @ [(q, e)]) @ ws))"
      using Cons.IH [of "Suc argc" s3 "ts @ [(q, e)]"] Cons.prems s3(2) Cons by auto
    from step [OF s3(1) t(1)] show ?thesis using t(2,3) s2(2) by auto
  qed
qed simp

section \<open>Parsing the text of a tree\<close>

definition reads_exec :: "byte list \<Rightarrow> nat \<Rightarrow> byte list cmd \<Rightarrow> bool" where
  "reads_exec b es c = (\<forall>rs s xs. sees b es s (cmd_text 0 c @ redirs_text rs @ xs) \<longrightarrow> redirs_ok rs \<longrightarrow> stops [124, 41, 38, 59, 0] xs \<longrightarrow>
     (\<exists>t s'. ev (\<lambda>n. parseexec n b es s) (t, s') \<and> map_cmd (word_text b) t = redirs rs c \<and> sees b es s' xs))"

definition reads_pipe :: "byte list \<Rightarrow> nat \<Rightarrow> byte list cmd \<Rightarrow> bool" where
  "reads_pipe b es c = (\<forall>s xs. sees b es s (cmd_text 1 c @ xs) \<longrightarrow> stops [41, 38, 59, 0] xs \<longrightarrow>
     (\<exists>t s'. ev (\<lambda>n. parsepipe n b es s) (t, s') \<and> map_cmd (word_text b) t = c \<and> sees b es s' xs))"

text \<open>A pipe and the ampersands after it: the loop of parseline arrives at the tree and goes on from there.\<close>

definition reads_back :: "byte list \<Rightarrow> nat \<Rightarrow> byte list cmd \<Rightarrow> bool" where
  "reads_back b es c = (\<forall>s xs. sees b es s (cmd_text 2 c @ xs) \<longrightarrow> stops [41, 38, 59, 0] xs \<longrightarrow>
     (\<exists>t0 s0 t s'. ev (\<lambda>n. parsepipe n b es s) (t0, s0) \<and>
        (\<forall>y. ev (\<lambda>n. parseback n b es s' t) y \<longrightarrow> ev (\<lambda>n. parseback n b es s0 t0) y) \<and>
        map_cmd (word_text b) t = c \<and> sees b es s' xs))"

definition reads_line :: "byte list \<Rightarrow> nat \<Rightarrow> byte list cmd \<Rightarrow> bool" where
  "reads_line b es c = (\<forall>s xs. sees b es s (cmd_text 3 c @ xs) \<longrightarrow> stops [41, 0] xs \<longrightarrow>
     (\<exists>t s'. ev (\<lambda>n. parseline n b es s) (t, s') \<and> map_cmd (word_text b) t = c \<and> sees b es s' xs))"

lemma redirs_text_stops:
  assumes "stops [124, 41, 38, 59, 0] xs" "redirs_ok rs"
  shows "\<not> starts [40, 0] (redirs_text rs @ xs)"
proof (cases rs)
  case Nil
  have "\<not> starts [40, 0] xs" by (rule stops_starts [OF assms(1)]) auto
  then show ?thesis using Nil by simp
next
  case (Cons r rs')
  then show ?thesis by (cases r) (simp add: redir_text_def)
qed

lemma reads_EXEC:
  assumes lb: "line_buf b es" and ws: "list_all proper_word ws" "length ws < MAXARGS"
  shows "reads_exec b es (EXEC ws)"
  unfolding reads_exec_def
proof (intro allI impI)
  fix rs s xs
  assume s: "sees b es s (cmd_text 0 (EXEC ws) @ redirs_text rs @ xs)" and rs: "redirs_ok rs" and xs: "stops [124, 41, 38, 59, 0] xs"
  let ?txt = "concat (map (\<lambda>w. w @ [32]) ws) @ redirs_text rs @ xs"
  have sp: "\<not> occurs [40, 0] c" "\<not> occurs [60, 62, 0] c" if "wordc c" for c using wordc_special [OF that] by auto
  have nopar: "\<not> starts [40, 0] ?txt"
    using redirs_text_stops [OF xs rs] starts_word [of "hd ws" "[40, 0]"] sp(1) ws(1) by (cases ws) auto
  obtain s1 where s1: "peek b es s [40, 0] = Inr (False, s1)" "sees b es s1 ?txt"
    using peek_sees [OF lb s, of "[40, 0]"] nopar by auto
  have step: "ev (\<lambda>n. parseexec n b es s) y"
    if "ev (\<lambda>n. parseredirs n b es s1 (EXEC [])) (t, s2)" "ev (\<lambda>n. parseargs n b es s2 0 t) y" for t s2 y
    by (rule ev_Suc) (use s1 in \<open>simp add: ev_kbind [OF that(1)] that(2)\<close>)
  show "\<exists>t s'. ev (\<lambda>n. parseexec n b es s) (t, s') \<and> map_cmd (word_text b) t = redirs rs (EXEC ws) \<and> sees b es s' xs"
  proof (cases ws)
    case Nil
    have "\<not> starts [60, 62, 0] xs" by (rule stops_starts [OF xs]) auto
    then obtain t s2 where t: "ev (\<lambda>n. parseredirs n b es s1 (EXEC [])) (t, s2)" "sees b es s2 xs" "map_cmd (word_text b) t = redirs rs (EXEC [])"
      using parseredirs_text [OF lb _ rs, of s1 xs "EXEC []"] s1(2) Nil by auto
    obtain s3 where "ev (\<lambda>n. parseargs n b es s2 0 t) (t, s3)" "sees b es s3 xs" using parseargs_stop [OF lb t(2) xs] by blast
    then show ?thesis using step [OF t(1)] t(3) Nil by auto
  next
    case (Cons v vs)
    have "\<not> starts [60, 62, 0] ?txt" using starts_word [of v "[60, 62, 0]"] sp(2) ws(1) Cons by auto
    then obtain s2 where s2: "ev (\<lambda>n. parseredirs n b es s1 (EXEC [])) (EXEC [], s2)" "sees b es s2 ?txt"
      using parseredirs_text [OF lb, of s1 "[]" ?txt "EXEC []"] s1(2) by (auto simp: redirs_ok_def)
    obtain t s3 where "ev (\<lambda>n. parseargs n b es s2 0 (EXEC [])) (t, s3)" "map_cmd (word_text b) t = redirs rs (EXEC ws)" "sees b es s3 xs"
      using parseargs_words [OF lb rs xs, of ws 0 s2 "[]"] Cons ws s2(2) by auto
    then show ?thesis using step [OF s2(1)] by blast
  qed
qed

lemma reads_REDIR:
  assumes "reads_exec b es c" "proper_word f"
    "(m, d) \<in> {(O_RDONLY, 0), (O_WRONLY OR O_CREATE OR O_TRUNC, 1), (O_WRONLY OR O_CREATE, 1)}"
  shows "reads_exec b es (REDIR c f m d)"
  unfolding reads_exec_def
proof (intro allI impI)
  fix rs s xs
  assume "sees b es s (cmd_text 0 (REDIR c f m d) @ redirs_text rs @ xs)" "redirs_ok rs" "stops [124, 41, 38, 59, 0] xs"
  then show "\<exists>t s'. ev (\<lambda>n. parseexec n b es s) (t, s') \<and> map_cmd (word_text b) t = redirs rs (REDIR c f m d) \<and> sees b es s' xs"
    using assms(1) [unfolded reads_exec_def, rule_format, of s "(f, m, d) # rs" xs] assms(2,3) by (simp add: redirs_ok_def)
qed

lemma reads_paren:
  assumes lb: "line_buf b es" and c: "reads_line b es c" "cmd_text 0 c = [40] @ cmd_text 3 c @ [41]"
  shows "reads_exec b es c"
  unfolding reads_exec_def
proof (intro allI impI)
  fix rs s xs
  assume s: "sees b es s (cmd_text 0 c @ redirs_text rs @ xs)" and rs: "redirs_ok rs" and xs: "stops [124, 41, 38, 59, 0] xs"
  let ?in = "cmd_text 3 c @ 41 # redirs_text rs @ xs"
  have s: "sees b es s (40 # ?in)" using s c(2) by simp
  obtain s1 where s1: "peek b es s [40, 0] = Inr (True, s1)" "sees b es s1 (40 # ?in)" using peek_sees [OF lb s, of "[40, 0]"] by auto
  obtain s2 where s2: "peek b es s1 [40, 0] = Inr (True, s2)" "sees b es s2 (40 # ?in)" using peek_sees [OF lb s1(2), of "[40, 0]"] by auto
  obtain q e s3 where s3: "gettoken b es s2 = Inr (40, q, e, s3)" "sees b es s3 ?in" using gettoken_sym [OF lb s2(2)] by auto
  obtain t s4 where s4: "ev (\<lambda>n. parseline n b es s3) (t, s4)" "map_cmd (word_text b) t = c" "sees b es s4 (41 # redirs_text rs @ xs)"
    using c(1) [unfolded reads_line_def, rule_format, OF s3(2)] by auto
  obtain s5 where s5: "peek b es s4 [41, 0] = Inr (True, s5)" "sees b es s5 (41 # redirs_text rs @ xs)"
    using peek_sees [OF lb s4(3), of "[41, 0]"] by auto
  obtain q' e' s6 where s6: "gettoken b es s5 = Inr (41, q', e', s6)" "sees b es s6 (redirs_text rs @ xs)" using gettoken_sym [OF lb s5(2)] by auto
  have "\<not> starts [60, 62, 0] xs" by (rule stops_starts [OF xs]) auto
  then obtain t' s7 where s7: "ev (\<lambda>n. parseredirs n b es s6 t) (t', s7)" "map_cmd (word_text b) t' = redirs rs c" "sees b es s7 xs"
    using parseredirs_text [OF lb s6(2) rs, of t] s4(2) by auto
  have "ev (\<lambda>n. parseblock n b es s1) (t', s7)"
    by (rule ev_Suc) (use s2 s3 s5 s6 s7 in \<open>simp add: ev_kbind [OF s4(1)]\<close>)
  then have "ev (\<lambda>n. parseexec n b es s) (t', s7)" by (intro ev_Suc [of "\<lambda>n. parseexec n b es s"]) (simp add: s1)
  then show "\<exists>t s'. ev (\<lambda>n. parseexec n b es s) (t, s') \<and> map_cmd (word_text b) t = redirs rs c \<and> sees b es s' xs" using s7 by blast
qed

text \<open>The alternatives of parsepipe.\<close>

lemma reads_PIPE:
  assumes lb: "line_buf b es" and l: "reads_exec b es l" and r: "reads_pipe b es r"
  shows "reads_pipe b es (PIPE l r)"
  unfolding reads_pipe_def
proof (intro allI impI)
  fix s xs
  assume "sees b es s (cmd_text 1 (PIPE l r) @ xs)" and xs: "stops [41, 38, 59, 0] xs"
  then have s: "sees b es s (cmd_text 0 l @ redirs_text [] @ 124 # cmd_text 1 r @ xs)" by simp
  obtain t s1 where s1: "ev (\<lambda>n. parseexec n b es s) (t, s1)" "map_cmd (word_text b) t = l" "sees b es s1 (124 # cmd_text 1 r @ xs)"
    using l [unfolded reads_exec_def, rule_format, OF s] by (auto simp: redirs_ok_def)
  obtain s2 where s2: "peek b es s1 [124, 0] = Inr (True, s2)" "sees b es s2 (124 # cmd_text 1 r @ xs)"
    using peek_sees [OF lb s1(3), of "[124, 0]"] by auto
  obtain q e s3 where s3: "gettoken b es s2 = Inr (124, q, e, s3)" "sees b es s3 (cmd_text 1 r @ xs)" using gettoken_sym [OF lb s2(2)] by auto
  obtain t' s4 where s4: "ev (\<lambda>n. parsepipe n b es s3) (t', s4)" "map_cmd (word_text b) t' = r" "sees b es s4 xs"
    using r [unfolded reads_pipe_def, rule_format, OF s3(2) xs] by blast
  have "ev (\<lambda>n. parsepipe n b es s) (PIPE t t', s4)"
    by (rule ev_Suc) (use s2 s3 in \<open>simp add: ev_kbind [OF s1(1)] ev_kbind [OF s4(1)] ev_Inr\<close>)
  then show "\<exists>t s'. ev (\<lambda>n. parsepipe n b es s) (t, s') \<and> map_cmd (word_text b) t = PIPE l r \<and> sees b es s' xs"
    using s1 s4 by (intro exI [of _ "PIPE t t'"] exI [of _ s4]) simp
qed

lemma reads_pipe_exec:
  assumes lb: "line_buf b es" and c: "reads_exec b es c" "cmd_text 1 c = cmd_text 0 c"
  shows "reads_pipe b es c"
  unfolding reads_pipe_def
proof (intro allI impI)
  fix s xs
  assume "sees b es s (cmd_text 1 c @ xs)" and xs: "stops [41, 38, 59, 0] xs"
  then have s: "sees b es s (cmd_text 0 c @ redirs_text [] @ xs)" using c(2) by simp
  have "stops [124, 41, 38, 59, 0] xs" by (rule stops_weaken [OF xs]) auto
  then obtain t s1 where s1: "ev (\<lambda>n. parseexec n b es s) (t, s1)" "map_cmd (word_text b) t = c" "sees b es s1 xs"
    using c(1) [unfolded reads_exec_def, rule_format, OF s] by (auto simp: redirs_ok_def)
  have "\<not> starts [124, 0] xs" by (rule stops_starts [OF xs]) auto
  then obtain s2 where s2: "peek b es s1 [124, 0] = Inr (False, s2)" "sees b es s2 xs"
    using peek_sees [OF lb s1(3), of "[124, 0]"] by auto
  have "ev (\<lambda>n. parsepipe n b es s) (t, s2)"
    by (rule ev_Suc) (use s2 in \<open>simp add: ev_kbind [OF s1(1)] ev_Inr\<close>)
  then show "\<exists>t s'. ev (\<lambda>n. parsepipe n b es s) (t, s') \<and> map_cmd (word_text b) t = c \<and> sees b es s' xs"
    using s1(2) s2(2) by blast
qed

text \<open>Ampersands.\<close>

lemma reads_BACK:
  assumes lb: "line_buf b es" and c: "reads_back b es c"
  shows "reads_back b es (BACK c)"
  unfolding reads_back_def
proof (intro allI impI)
  fix s xs
  assume "sees b es s (cmd_text 2 (BACK c) @ xs)" and xs: "stops [41, 38, 59, 0] xs"
  then have s: "sees b es s (cmd_text 2 c @ 38 # xs)" by simp
  obtain t0 s0 t s1 where s1: "ev (\<lambda>n. parsepipe n b es s) (t0, s0)" "map_cmd (word_text b) t = c" "sees b es s1 (38 # xs)"
      "\<And>y. ev (\<lambda>n. parseback n b es s1 t) y \<Longrightarrow> ev (\<lambda>n. parseback n b es s0 t0) y"
    using c [unfolded reads_back_def, rule_format, OF s] by auto
  obtain s2 where s2: "peek b es s1 [38, 0] = Inr (True, s2)" "sees b es s2 (38 # xs)" using peek_sees [OF lb s1(3), of "[38, 0]"] by auto
  obtain q e s3 where s3: "gettoken b es s2 = Inr (38, q, e, s3)" "sees b es s3 xs" using gettoken_sym [OF lb s2(2)] by auto
  have "ev (\<lambda>n. parseback n b es s0 t0) y" if "ev (\<lambda>n. parseback n b es s3 (BACK t)) y" for y
    by (rule s1(4), rule ev_Suc) (use s2 s3 that in simp)
  then show "\<exists>t0 s0 t s'. ev (\<lambda>n. parsepipe n b es s) (t0, s0) \<and>
        (\<forall>y. ev (\<lambda>n. parseback n b es s' t) y \<longrightarrow> ev (\<lambda>n. parseback n b es s0 t0) y) \<and>
        map_cmd (word_text b) t = BACK c \<and> sees b es s' xs"
    using s1(1,2) s3(2) by (intro exI [of _ t0] exI [of _ s0] exI [of _ "BACK t"] exI [of _ s3]) auto
qed

lemma reads_back_pipe:
  assumes "reads_pipe b es c" "cmd_text 2 c = cmd_text 1 c"
  shows "reads_back b es c"
  using assms unfolding reads_back_def reads_pipe_def by metis

text \<open>The end of the ampersands, and the alternatives of parseline.\<close>

lemma reads_back_end:
  assumes lb: "line_buf b es" and c: "reads_back b es c" and s: "sees b es s (cmd_text 2 c @ xs)" and xs: "stops [41, 59, 0] xs"
  shows "\<exists>t0 s0 t s'. ev (\<lambda>n. parsepipe n b es s) (t0, s0) \<and> ev (\<lambda>n. parseback n b es s0 t0) (t, s') \<and>
    map_cmd (word_text b) t = c \<and> sees b es s' xs"
proof -
  have "stops [41, 38, 59, 0] xs" by (rule stops_weaken [OF xs]) auto
  then obtain t0 s0 t s1 where s1: "ev (\<lambda>n. parsepipe n b es s) (t0, s0)" "map_cmd (word_text b) t = c" "sees b es s1 xs"
      "\<And>y. ev (\<lambda>n. parseback n b es s1 t) y \<Longrightarrow> ev (\<lambda>n. parseback n b es s0 t0) y"
    using c [unfolded reads_back_def, rule_format, OF s] by auto
  have "\<not> starts [38, 0] xs" by (rule stops_starts [OF xs]) auto
  then obtain s2 where s2: "peek b es s1 [38, 0] = Inr (False, s2)" "sees b es s2 xs" using peek_sees [OF lb s1(3), of "[38, 0]"] by auto
  have "ev (\<lambda>n. parseback n b es s0 t0) (t, s2)"
    by (rule s1(4), rule ev_Suc) (use s2 in \<open>simp add: ev_Inr\<close>)
  then show ?thesis using s1(1,2) s2(2) by blast
qed

lemma reads_LIST:
  assumes lb: "line_buf b es" and l: "reads_back b es l" and r: "reads_line b es r"
  shows "reads_line b es (LIST l r)"
  unfolding reads_line_def
proof (intro allI impI)
  fix s xs
  assume "sees b es s (cmd_text 3 (LIST l r) @ xs)" and xs: "stops [41, 0] xs"
  then have s: "sees b es s (cmd_text 2 l @ 59 # cmd_text 3 r @ xs)" by simp
  obtain t0 s0 t s1 where s1: "ev (\<lambda>n. parsepipe n b es s) (t0, s0)" "ev (\<lambda>n. parseback n b es s0 t0) (t, s1)"
      "map_cmd (word_text b) t = l" "sees b es s1 (59 # cmd_text 3 r @ xs)" using reads_back_end [OF lb l s] by auto
  obtain s2 where s2: "peek b es s1 [59, 0] = Inr (True, s2)" "sees b es s2 (59 # cmd_text 3 r @ xs)"
    using peek_sees [OF lb s1(4), of "[59, 0]"] by auto
  obtain q e s3 where s3: "gettoken b es s2 = Inr (59, q, e, s3)" "sees b es s3 (cmd_text 3 r @ xs)" using gettoken_sym [OF lb s2(2)] by auto
  obtain t' s4 where s4: "ev (\<lambda>n. parseline n b es s3) (t', s4)" "map_cmd (word_text b) t' = r" "sees b es s4 xs"
    using r [unfolded reads_line_def, rule_format, OF s3(2) xs] by blast
  have "ev (\<lambda>n. parseline n b es s) (LIST t t', s4)"
    by (rule ev_Suc) (use s2 s3 in \<open>simp add: ev_kbind [OF s1(1)] ev_kbind [OF s1(2)] ev_kbind [OF s4(1)] ev_Inr\<close>)
  then show "\<exists>t s'. ev (\<lambda>n. parseline n b es s) (t, s') \<and> map_cmd (word_text b) t = LIST l r \<and> sees b es s' xs"
    using s1 s4 by (intro exI [of _ "LIST t t'"] exI [of _ s4]) simp
qed

lemma reads_line_back:
  assumes lb: "line_buf b es" and c: "reads_back b es c" "cmd_text 3 c = cmd_text 2 c"
  shows "reads_line b es c"
  unfolding reads_line_def
proof (intro allI impI)
  fix s xs
  assume "sees b es s (cmd_text 3 c @ xs)" and xs: "stops [41, 0] xs"
  then have s: "sees b es s (cmd_text 2 c @ xs)" using c(2) by simp
  have "stops [41, 59, 0] xs" by (rule stops_weaken [OF xs]) auto
  then obtain t0 s0 t s1 where s1: "ev (\<lambda>n. parsepipe n b es s) (t0, s0)" "ev (\<lambda>n. parseback n b es s0 t0) (t, s1)"
      "map_cmd (word_text b) t = c" "sees b es s1 xs" using reads_back_end [OF lb c(1) s] by auto
  have "\<not> starts [59, 0] xs" by (rule stops_starts [OF xs]) auto
  then obtain s2 where s2: "peek b es s1 [59, 0] = Inr (False, s2)" "sees b es s2 xs"
    using peek_sees [OF lb s1(4), of "[59, 0]"] by auto
  have "ev (\<lambda>n. parseline n b es s) (t, s2)"
    by (rule ev_Suc) (use s2 in \<open>simp add: ev_kbind [OF s1(1)] ev_kbind [OF s1(2)] ev_Inr\<close>)
  then show "\<exists>t s'. ev (\<lambda>n. parseline n b es s) (t, s') \<and> map_cmd (word_text b) t = c \<and> sees b es s' xs"
    using s1(3) s2(2) by blast
qed

lemma reads_all:
  assumes lb: "line_buf b es"
  shows "writable c \<Longrightarrow> reads_exec b es c \<and> reads_pipe b es c \<and> reads_back b es c \<and> reads_line b es c"
proof (induction c)
  case (EXEC ws)
  have "reads_exec b es (EXEC ws)" by (rule reads_EXEC [OF lb]) (use EXEC in \<open>auto simp: writable_def list_all_iff\<close>)
  then show ?case by (simp add: reads_pipe_exec [OF lb] reads_back_pipe reads_line_back [OF lb])
next
  case (REDIR c f m d)
  have "reads_exec b es (REDIR c f m d)" by (rule reads_REDIR) (use REDIR in \<open>auto simp: writable_def\<close>)
  then show ?case by (simp add: reads_pipe_exec [OF lb] reads_back_pipe reads_line_back [OF lb])
next
  case (PIPE l r)
  have p: "reads_pipe b es (PIPE l r)" by (rule reads_PIPE [OF lb]) (use PIPE in \<open>auto simp: writable_def\<close>)
  then have bk: "reads_back b es (PIPE l r)" by (rule reads_back_pipe) simp
  then have "reads_line b es (PIPE l r)" by (rule reads_line_back [OF lb]) simp
  then show ?case using p bk reads_paren [OF lb, of "PIPE l r"] by simp
next
  case (LIST l r)
  have "reads_line b es (LIST l r)" by (rule reads_LIST [OF lb]) (use LIST in \<open>auto simp: writable_def\<close>)
  moreover from this have "reads_exec b es (LIST l r)" by (rule reads_paren [OF lb]) simp
  moreover from this have "reads_pipe b es (LIST l r)" by (rule reads_pipe_exec [OF lb]) simp
  moreover from this have "reads_back b es (LIST l r)" by (rule reads_back_pipe) simp
  ultimately show ?case by blast
next
  case (BACK c)
  have "reads_back b es (BACK c)" by (rule reads_BACK [OF lb]) (use BACK in \<open>auto simp: writable_def\<close>)
  moreover from this have "reads_line b es (BACK c)" by (rule reads_line_back [OF lb]) simp
  moreover from this have "reads_exec b es (BACK c)" by (rule reads_paren [OF lb]) simp
  moreover from this have "reads_pipe b es (BACK c)" by (rule reads_pipe_exec [OF lb]) simp
  ultimately show ?case by blast
qed

lemma writable_simps [simp]:
  "writable (EXEC ws) = (length ws < MAXARGS \<and> list_all proper_word ws)"
  "writable (REDIR c f m d) = (writable c \<and> proper_word f \<and>
     (m, d) \<in> {(O_RDONLY, 0), (O_WRONLY OR O_CREATE OR O_TRUNC, 1), (O_WRONLY OR O_CREATE, 1)})"
  "writable (PIPE l r) = (writable l \<and> writable r)"
  "writable (LIST l r) = (writable l \<and> writable r)"
  "writable (BACK c) = writable c"
  by (auto simp: writable_def list_all_iff)

text \<open>No byte of a text ends the line.\<close>

definition inner :: "byte \<Rightarrow> bool" where
  "inner c = (c \<noteq> 0 \<and> c \<noteq> 10 \<and> c \<noteq> 13)"

lemma inner_codes [simp]: "inner 32" "inner 38" "inner 40" "inner 41" "inner 59" "inner 60" "inner 62" "inner 124"
  by (simp_all add: inner_def)

lemma proper_word_inner: "proper_word w \<Longrightarrow> list_all inner w"
  by (auto simp: proper_word_def list_all_iff wordc_def whitespace_def inner_def)

lemma cmd_text_inner: "writable c \<Longrightarrow> list_all inner (cmd_text l c)"
proof (induction c arbitrary: l)
  case (EXEC ws)
  then have "list_all proper_word ws" by simp
  then show ?case by (induction ws) (simp_all add: proper_word_inner)
next
  case (REDIR c f m d)
  then show ?case by (simp add: redir_text_def proper_word_inner)
qed (simp_all add: Let_def)

lemma strlen_NUL: "0 \<notin> set xs \<Longrightarrow> strlen (xs @ 0 # ys) = Some (length xs)"
  by (induction xs) auto

lemma peek_end:
  assumes lb: "line_buf b es" and "sees b es s xs" "dropWhile blank xs = []"
  shows "peek b es s toks = Inr (False, es)"
proof -
  obtain q where "scan blank b es s = Inr q" "q \<le> es" "drop q (take es b) = []"
    using sees_skip [OF assms(1,2)] assms(3) by auto
  then show ?thesis using at_Nil [OF lb, of q] by (simp add: peek_def)
qed

text \<open>The text of a tree, with blanks after it, is read back as the tree.\<close>

lemma parsecmd_reads:
  assumes c: "writable c" and bl: "dropWhile blank bl = []"
  shows "\<exists>t b'. parsecmd (cmd_text 3 c @ bl @ 0 # junk) = Inr (t, b') \<and> map_cmd (word_at b') t = c \<and> shaped t"
proof -
  define b where "b = cmd_text 3 c @ bl @ 0 # junk"
  define es where "es = length (cmd_text 3 c @ bl)"
  have "0 \<notin> set (cmd_text 3 c @ bl)" using cmd_text_inner [OF c, of 3] bl blank_0 by (auto simp: list_all_iff inner_def)
  then have len: "strlen b = Some es" using strlen_NUL [of "cmd_text 3 c @ bl" junk] by (simp add: b_def es_def)
  have lb: "line_buf b es" using len by (rule strlen_line_buf)
  have s0: "sees b es 0 (cmd_text 3 c @ bl)" by (simp add: sees_def b_def es_def)
  have "stops [41, 0] bl" using bl by (simp only: stops_def list.case)
  then obtain t s where t: "ev (\<lambda>n. parseline n b es 0) (t, s)" "map_cmd (word_text b) t = c" "sees b es s bl"
    using reads_all [OF lb c] s0 unfolding reads_line_def by blast
  have ok: "ok (parsed b es 0) (parseline (4 * es + 4) b es 0)" using parse_ok [OF lb, of 0 "4 * es + 4"] by simp
  have run: "parseline (4 * es + 4) b es 0 = Inr (t, s)"
    by (rule ev_enough [OF t(1)]) (use parse_mono ok in \<open>auto simp: ok_def\<close>)
  then have w: "\<forall>w \<in> set_cmd t. isword b es w" "shaped t" using ok by (auto simp: parsed_def)
  then obtain b' where b': "nulterminate t b = Inr b'" "\<forall>w \<in> set_cmd t. word_at b' w = word_text b w"
    using terminated_words [OF lb, of t] by blast
  have "map_cmd (word_at b') t = c" using b'(2) t(2) by (metis (mono_tags, lifting) cmd.map_cong)
  then show ?thesis using run b'(1) peek_end [OF lb t(3) bl] len w(2) by (simp add: parsecmd_def b_def [symmetric])
qed

text \<open>
  C15. Round trip: every command tree that the shell's structures can hold can be written as a line, with
  parentheses where the grammar needs them, and the parser reads the line back as the same tree. The
  words of the tree, read as C strings from the buffer the parser has changed, are those of the
  original tree. Blanks and a newline may follow the text.
\<close>

theorem parsecmd_cmd_text:
  assumes "writable c" "dropWhile blank bl = []"
  shows "\<exists>t b'. parsecmd (cmd_text 3 c @ bl @ 0 # junk) = Inr (t, b') \<and> map_cmd (word_at b') t = c"
  using parsecmd_reads [OF assms] by blast

theorem parsecmd_cmd_text_witness:
  "writable (PIPE (BACK (EXEC [[97]])) (REDIR (EXEC [[98], [99]]) [100] O_RDONLY 0)) \<and> dropWhile blank [10] = [] \<and>
   (\<exists>t b'. parsecmd (cmd_text 3 (PIPE (BACK (EXEC [[97]])) (REDIR (EXEC [[98], [99]]) [100] O_RDONLY 0)) @ [10] @ 0 # [0]) = Inr (t, b') \<and>
     map_cmd (word_at b') t = PIPE (BACK (EXEC [[97]])) (REDIR (EXEC [[98], [99]]) [100] O_RDONLY 0))"
proof -
  have w: "writable (PIPE (BACK (EXEC [[97]])) (REDIR (EXEC [[98], [99]]) [100] O_RDONLY 0))"
    by (simp add: writable_def MAXARGS_def proper_word_def wordc_def whitespace_def symbols_def)
  show ?thesis using w parsecmd_cmd_text [OF w, of "[10]" "[0]"] by simp
qed

section \<open>What a line runs\<close>

text \<open>
  The descriptors of a process: what descriptor i refers to. A process that makes system calls that
  succeed starts programs; os_run lists them with their arguments and descriptors. A new descriptor is
  the lowest free one, as fdalloc chooses it; fork copies the table; k counts the pipes made so far.
\<close>

datatype fdobj = Inherited nat | Opened "byte list" u32 | Pipe_read nat | Pipe_write nat

type_synonym fdtable = "nat \<Rightarrow> fdobj option"

type_synonym started = "(byte list \<times> byte list list \<times> fdtable) list"

definition free_fd :: "fdtable \<Rightarrow> nat option" where
  "free_fd t = find (\<lambda>i. t i = None) [0..<NOFILE]"

primrec os_run :: "sys \<Rightarrow> fdtable \<Rightarrow> nat \<Rightarrow> started \<times> nat" where
  "os_run (Exit r) t k = ([], k)"
| "os_run (Exec p args s) t k = ([(p, args, t)], k)"
| "os_run (Open p m f) t k =
     (case free_fd t of None \<Rightarrow> os_run (f (-1)) t k | Some i \<Rightarrow> os_run (f (int i)) (t(i \<mapsto> Opened p m)) k)"
| "os_run (Close i s) t k = os_run s (t(i := None)) k"
| "os_run (Dup j f) t k =
     (case t j of None \<Rightarrow> os_run (f (-1)) t k
      | Some x \<Rightarrow> (case free_fd t of None \<Rightarrow> os_run (f (-1)) t k | Some i \<Rightarrow> os_run (f (int i)) (t(i \<mapsto> x)) k))"
| "os_run (MkPipe f) t k =
     (case free_fd t of None \<Rightarrow> os_run (f (-1) 0 0) t k
      | Some i \<Rightarrow> (case free_fd (t(i \<mapsto> Pipe_read k)) of None \<Rightarrow> os_run (f (-1) 0 0) t k
          | Some j \<Rightarrow> os_run (f 0 i j) (t(i \<mapsto> Pipe_read k, j \<mapsto> Pipe_write k)) (Suc k)))"
| "os_run (Fork f) t k =
     (case os_run (f 0) t k of (xs, k) \<Rightarrow> case os_run (f 1) t k of (ys, k) \<Rightarrow> (xs @ ys, k))"
| "os_run (Wait s) t k = os_run s t k"
| "os_run (Chdir p f) t k = os_run (f 0) t k"
| "os_run (Fprintf msg args s) t k = os_run s t k"
| "os_run Crash t k = ([], k)"

text \<open>What a tree means: the programs it starts, each with its descriptors.\<close>

primrec meaning :: "byte list cmd \<Rightarrow> fdtable \<Rightarrow> nat \<Rightarrow> started \<times> nat" where
  "meaning (EXEC ws) t k = (if ws = [] then [] else [(hd ws, ws, t)], k)"
| "meaning (REDIR c f m d) t k = meaning c (t(d \<mapsto> Opened f m)) k"
| "meaning (PIPE l r) t k =
     (case meaning l (t(1 \<mapsto> Pipe_write k)) (Suc k) of (xs, k') \<Rightarrow>
      case meaning r (t(0 \<mapsto> Pipe_read k)) k' of (ys, k') \<Rightarrow> (xs @ ys, k'))"
| "meaning (LIST l r) t k =
     (case meaning l t k of (xs, k) \<Rightarrow> case meaning r t k of (ys, k) \<Rightarrow> (xs @ ys, k))"
| "meaning (BACK c) t k = meaning c t k"

definition std_fds :: "fdtable \<Rightarrow> bool" where
  "std_fds t = (\<forall>i. t i \<noteq> None \<longleftrightarrow> i < 3)"

lemma free_fd_code: "free_fd t = (if t 0 = None then Some 0 else if t 1 = None then Some 1 else if t 2 = None then Some 2
    else if t 3 = None then Some 3 else if t 4 = None then Some 4 else find (\<lambda>i. t i = None) [5..<NOFILE])"
proof -
  have "[0..<NOFILE] = [0, 1, 2, 3, 4] @ [5..<NOFILE]" by (simp add: NOFILE_def upt_conv_Cons)
  then show ?thesis by (simp add: free_fd_def)
qed

lemma std_fdsD:
  assumes "std_fds t"
  shows "t 0 \<noteq> None" "t 1 \<noteq> None" "t 2 \<noteq> None" "t 3 = None" "t 4 = None"
  using assms [unfolded std_fds_def, rule_format, of 0] assms [unfolded std_fds_def, rule_format, of 1]
    assms [unfolded std_fds_def, rule_format, of 2] assms [unfolded std_fds_def, rule_format, of 3]
    assms [unfolded std_fds_def, rule_format, of 4] by auto

lemma std_fds_upd: "std_fds t \<Longrightarrow> i < 3 \<Longrightarrow> std_fds (t(i \<mapsto> x))"
  by (auto simp: std_fds_def)

lemma runcmd_meaning:
  assumes "std_fds t" "shaped c"
  shows "os_run (runcmd b c) t k = meaning (map_cmd (word_at b) c) t k"
  using assms
proof (induction c arbitrary: t k)
  case (EXEC ws)
  then show ?case by (cases ws) auto
next
  case (REDIR c f m d)
  have d: "d = 0 \<or> d = 1" using REDIR.prems(2) by auto
  have fr: "free_fd (t(d := None)) = Some d" using d std_fdsD [OF REDIR.prems(1)] by (auto simp: free_fd_code)
  have "os_run (runcmd b c) (t(d \<mapsto> Opened (word_at b f) m)) k = meaning (map_cmd (word_at b) c) (t(d \<mapsto> Opened (word_at b f) m)) k"
    using REDIR d by (intro REDIR.IH std_fds_upd) auto
  then show ?case using fr by simp
next
  case (PIPE l r)
  note T = std_fdsD [OF PIPE.prems(1)]
  let ?p = "t(3 \<mapsto> Pipe_read k, 4 \<mapsto> Pipe_write k)"
  have f3: "free_fd t = Some 3" "free_fd (t(3 \<mapsto> Pipe_read k)) = Some 4" using T by (simp_all add: free_fd_code)
  have f1: "free_fd (?p(1 := None)) = Some 1" "free_fd (?p(0 := None)) = Some 0" using T by (simp_all add: free_fd_code)
  have tl: "t(1 \<mapsto> Pipe_write k, 3 := None, 4 := None) = t(1 \<mapsto> Pipe_write k)"
    and tr: "t(0 \<mapsto> Pipe_read k, 3 := None, 4 := None) = t(0 \<mapsto> Pipe_read k)"
    using T by (auto simp: fun_eq_iff)
  have "os_run (runcmd b l) (t(1 \<mapsto> Pipe_write k)) j = meaning (map_cmd (word_at b) l) (t(1 \<mapsto> Pipe_write k)) j"
    "os_run (runcmd b r) (t(0 \<mapsto> Pipe_read k)) j = meaning (map_cmd (word_at b) r) (t(0 \<mapsto> Pipe_read k)) j" for j
    using PIPE by (auto intro!: PIPE.IH std_fds_upd)
  then show ?case using f3 f1 tl tr by (simp add: fork1_def split: prod.split)
next
  case (LIST l r)
  then show ?case by (simp add: fork1_def split: prod.split)
next
  case (BACK c)
  then show ?case by (simp add: fork1_def split: prod.split)
qed

section \<open>From the keyboard to the programs\<close>

lemma gets_loop_line:
  assumes "list_all inner xs" "length xs < n"
  shows "gets_loop n (xs @ 10 # rest) = (xs @ [10], rest)"
  using assms
proof (induction xs arbitrary: n)
  case Nil
  then show ?case by (cases n) auto
next
  case (Cons x xs)
  then obtain m where "n = Suc m" "length xs < m" by (cases n) auto
  then show ?case using Cons by (auto simp: inner_def)
qed

text \<open>
  C13. From the keyboard to the programs: when the line that denotes a command tree is typed at the shell,
  the shell starts exactly the programs of the tree, in order, each with its arguments and with the
  descriptors the tree gives it: redirections open their file on descriptor 0 or 1, the two sides of a
  pipe share that pipe and nothing else, and no other descriptor is left open in a program. Then the
  shell goes on with the next line. The line fits the buffer of 100 bytes and is not the built-in cd;
  the system calls succeed, and the shell has its three standard descriptors.
\<close>

theorem shell_runs_line:
  assumes "writable c" "length (cmd_text 3 c) < 99" "take 3 (cmd_text 3 c) \<noteq> [99, 100, 32]" "std_fds t"
  shows "os_run (sh_loop (cmd_text 3 c @ 10 # rest)) t k =
    (case meaning c t k of (xs, k') \<Rightarrow> case os_run (sh_loop rest) t k' of (ys, k'') \<Rightarrow> (xs @ ys, k''))"
proof -
  define xs where "xs = cmd_text 3 c"
  have inn: "list_all inner xs" using cmd_text_inner [OF assms(1)] by (simp add: xs_def)
  define buf where "buf = xs @ [10] @ 0 # replicate (98 - length xs) 0"
  have buf: "(xs @ [10]) @ replicate (100 - length (xs @ [10])) 0 = buf"
    using assms(2) by (simp add: buf_def xs_def Suc_diff_le numeral_eq_Suc flip: replicate_Suc)
  have first: "buf ! 0 \<noteq> 0" using inn by (cases xs) (auto simp: buf_def inner_def)
  have get: "getcmd 100 (xs @ 10 # rest) = (0, buf, rest)"
    using gets_loop_line [OF inn, of 99 rest] assms(2) buf first by (simp add: getcmd_def xs_def [symmetric] Let_def)
  have nocd: "\<not> (buf ! 0 = 99 \<and> buf ! 1 = 100 \<and> buf ! 2 = 32)"
  proof
    assume "buf ! 0 = 99 \<and> buf ! 1 = 100 \<and> buf ! 2 = 32"
    then have "take 3 xs = [99, 100, 32]"
      by (cases xs rule: remdups_adj.cases; cases "tl (tl xs)") (auto simp: buf_def nth_Cons' take_Cons')
    then show False using assms(3) by (simp add: xs_def)
  qed
  obtain tr b' where tr: "parsecmd buf = Inr (tr, b')" "map_cmd (word_at b') tr = c" "shaped tr"
    using parsecmd_reads [OF assms(1), of "[10]" "replicate (98 - length xs) 0"] by (auto simp: buf_def xs_def)
  have "os_run (sh_child buf) t k = meaning c t k"
    using runcmd_meaning [OF assms(4) tr(3)] tr by (simp add: sh_child_def)
  moreover have "sh_loop (xs @ 10 # rest) = fork1 (sh_child buf) (Wait (sh_loop rest))"
    unfolding sh_loop.simps [of "xs @ 10 # rest"] get prod.case if_not_P [OF nocd] by simp
  ultimately show ?thesis by (simp add: xs_def [symmetric] fork1_def)
qed

definition shell_fds :: fdtable where
  "shell_fds i = (if i < 3 then Some (Inherited i) else None)"

text \<open>The line a |b >d.\<close>

theorem shell_runs_line_witness:
  "writable (PIPE (EXEC [[97]]) (REDIR (EXEC [[98]]) [100] (O_WRONLY OR O_CREATE OR O_TRUNC) 1)) \<and> std_fds shell_fds \<and>
   os_run (sh_loop [97, 32, 124, 98, 32, 62, 100, 32, 10]) shell_fds 0 =
     ([([97], [[97]], shell_fds(1 \<mapsto> Pipe_write 0)),
       ([98], [[98]], shell_fds(0 \<mapsto> Pipe_read 0, 1 \<mapsto> Opened [100] (O_WRONLY OR O_CREATE OR O_TRUNC)))], 1)"
proof -
  let ?c = "PIPE (EXEC [[97]]) (REDIR (EXEC [[98]]) [100] (O_WRONLY OR O_CREATE OR O_TRUNC) 1)"
  have w: "writable ?c" by (simp add: MAXARGS_def proper_word_def wordc_def whitespace_def symbols_def)
  have t: "cmd_text 3 ?c = [97, 32, 124, 98, 32, 62, 100, 32]" by (simp add: redir_text_def mode_values)
  have fds: "std_fds shell_fds" by (simp add: std_fds_def shell_fds_def)
  have e: "sh_loop [] = Exit 0" by (simp add: sh_loop.simps [of "[]"] getcmd_def)
  show ?thesis using shell_runs_line [OF w, of shell_fds "[]" 0] w t fds e by simp
qed

end
