(* ===== verification/Spec2Isabelle.thy ===== *)
theory Spec2Isabelle
  imports Xv6_Uvm Xv6_Grep Xv6_Pipe Xv6_Console Xv6_Printf Xv6_Virtio Xv6_Inode Xv6_Vault Xv6_Exec Xv6_Shrun
begin

text \<open>
  A verification development for xv6 as kept under src/Kernel/Xv6: the RISC-V kernel with its lab
  extensions (token-bucket scheduling, the Shrimpy frames, vaults) and the user programs with logic of
  their own. Source names below are relative to src/Kernel/Xv6; definitions keep the names of the C
  functions, and a loop of f is usually called f_loop.

  \<^bold>\<open>The program.\<close> A user program enters the kernel through a trap (kernel/trap.c). The dispatcher
  (kernel/syscall.c) fetches the arguments from the trap frame and calls an entry of its table
  (kernel/sysfile.c, kernel/sysproc.c). The calls work on open files (kernel/file.c), which lead to pipes
  (kernel/pipe.c), devices (kernel/console.c over kernel/uart.c), or inodes (kernel/fs.c). The file system
  changes disk blocks only through the write-ahead log (kernel/log.c), which uses the buffer cache
  (kernel/bio.c), which uses the disk driver (kernel/virtio_disk.c). Processes (kernel/proc.c,
  kernel/exec.c) own address spaces (kernel/vm.c) built from pages of the allocator (kernel/kalloc.c).
  Spin locks and sleep locks (kernel/spinlock.c, kernel/sleeplock.c) protect all of these.

  \<^bold>\<open>How the model is built.\<close> Integers keep their C width as words where they can wrap. Physical memory is
  a function from 64-bit addresses to bytes; page tables and the free list of pages live in it, as in
  the machine. Pointers to structures in tables are indices. Operations pass their state explicitly and
  yield an error or a value: Panic where the code calls panic, Fault where it would use a null or a wild
  pointer, Blocked where code that is run to its end would sleep. Where interleaving matters, the code
  is cut at the points at which another process or CPU can act, each piece is a function, and an
  inductive relation composes the pieces in every order. What is outside the kernel is an argument: the
  readings of device registers, the chunks read returns, addresses assigned by the linker, the contents
  of uninitialised memory.

  \<^bold>\<open>The theories.\<close>

  \<^item> Xv6_Prelude: results and their sequencing, memory, pages. Xv6_String: kernel/string.c and the
    string functions of user/ulib.c. memmove is the simultaneous copy also when the ranges overlap;
    strncmp and safestrcpy do what their callers rely on within their bounds.
  \<^item> Xv6_Kalloc: kernel/kalloc.c, with the locale page_allocator as its contract, interpreted by kalloc
    and kfree. kinit makes every page from the end of the kernel to PHYSTOP available once, no page is
    handed out twice, and kfree panics exactly on bad addresses.
  \<^item> Xv6_Paging, Xv6_Vm, Xv6_Uvm: kernel/vm.c and the macros of kernel/riscv.h and kernel/memlayout.h. A
    page table is abstracted to a function from virtual addresses to entries. mappages changes exactly
    the range it is given; uvmalloc gives zeroed memory or restores the address space; copyout, copyin
    and copyinstr move exactly the bytes asked for, only through user pages.
  \<^item> Xv6_Ring: the ring buffers of pipes, console and serial port as one locale, interpreted three times.
    Xv6_Pipe: a pipe is a bounded queue on every history of critical sections, which loses a byte only where
    copyout fails, and readers and writers do not wait for each other; a killed writer may leave a reader
    asleep in front of its bytes. Xv6_Console: console input is an abstract line editor, and output reaches
    the serial port in order.
  \<^item> Xv6_Printf: the two printf implementations print what a format means, which is the same up to
    hexadecimal numbers and two directives of the user library; numbers are printed inside the buffer and
    are read back by atoi, except for the largest, on which it overflows. Xv6_Grep: user/grep.c and user/wc.c; the matcher decides its
    regular expressions, and grep prints the matching lines however the input is cut into chunks.
  \<^item> Xv6_Lock: spin locks exclude each other on every interleaving of any number of CPUs; matched calls of
    push_off and pop_off restore the interrupt state; a sleep lock has one holder and wakes its waiters.
    Xv6_Virtio: on every interleaving of the driver with the device, requests in flight own disjoint chains
    of descriptors, none is lost between the rings, and the driver panics only on a status the device reports.
  \<^item> Xv6_Bytes: integers inside blocks. Xv6_Bio: the buffer cache as linked nodes; it returns the current
    contents of a block, replaces the least recently used buffer and loses no data. Xv6_Log: after a
    crash at any point of a commit, recovery gives the state before or after the whole transaction, also
    when recovery itself is interrupted; log_write panics exactly when the log area is full, which the log
    of mkfs can become.
  \<^item> Xv6_Fs: all of kernel/fs.c. Xv6_Inode: readi returns what writei wrote, including files with
    indirect blocks, and the blocks of a file stay its own.
  \<^item> Xv6_Proc: the process table and the scheduler with its token buckets, interleaved on any number of
    CPUs with the process listing, which takes no lock: a process the listing has not touched runs on one CPU
    at a time, one that it has put to sleep may run on two, and sched does not panic.
  \<^item> Xv6_File: the kernel state that joins the components, kernel/file.c, argument fetching, and the
    calls on descriptors. Xv6_Sysfile: the calls on path names. Xv6_Life: allocproc, fork, exit, wait,
    exec and the Shrimpy frames. Xv6_Syscall: kernel/sysproc.c, the vault calls, the dispatcher. Xv6_Trap:
    kernel/trap.c.
  \<^item> Xv6_Frame: rules in the style of a program logic for what each operation of the kernel leaves alone.
    Xv6_Fdesc: with them, on every history of traps, the reference count of an open file is the number of
    descriptors that refer to it. Xv6_Exec: the stack exec builds is the one main expects. Xv6_Vault: with
    such rules for the file system, what the vault calls do not achieve.
  \<^item> Xv6_Sh: user/sh.c, with the tree of a command as a datatype over words; runcmd and the command loop
    are trees of the system calls they make. Xv6_Shell: the parser ends on every line without leaving the
    buffer, and its words are terminated in place. Xv6_Shrun: a tree written as a line is read back, and a
    typed line starts the programs of its tree with the descriptors that its pipes and redirections give
    them, when the system calls succeed.

  \<^bold>\<open>Bounds and loops.\<close> Loops are structural recursions or have a termination proof, apart from these. The
  searches of the circular list of buffers, the division loop of printint and the wait for the serial
  port are partial functions with the value None for not returning; they are shown to return on a
  well-formed list, for the bases that are used, and when the port becomes idle. The loop of the serial
  port's interrupt handler runs as long as the device delivers input, and nothing is claimed of its end.
  The parser of the shell takes fuel, 4 n + 4 for a line of n bytes, since at most four nested calls lie between
  two tokens; it is shown never to run out. The constants (NPROC, NOFILE, NBUF, LOGSIZE, PIPESIZE and the like)
  are those of kernel/param.h and of the files that define them; witnesses use small instances of the
  state, never other constants.

  \<^bold>\<open>Not modelled.\<close> Assembly (kernel/entry.S, kernel/swtch.S, kernel/trampoline.S, kernel/kernelvec.S,
  user/initcode.S, the stubs that user/usys.pl generates) and code that only moves values between machine or device
  registers (kernel/start.c, kernel/plic.c): there is no model of the processor. kernel/main.c and userinit run
  once at boot; userinit rests on kernel/malloc.c, whose blocks overlap in a static array, and on the unused
  hash table kernel/table.c. kernel/ramdisk.c is not built. Of the user programs, the ones that only wrap
  a few system calls and the test programs are left out, as are user/umalloc.c (the
  shell's trees are taken to fit its memory) and mkfs/mkfs.c, which runs on the host. Console messages of kernel code other than printf itself are left out.
  The system calls run to their end in one process: their interleaving is covered only at the level of
  the locks, the pipes, the log and the scheduler, each in its own theory. The rest of src (an exercise in
  C, empty files, scripts of the host) is not part of xv6.
\<close>

end
